(* ===== verification/Prelude.thy ===== *)
theory Prelude
  imports Main "HOL-Library.Word" "HOL-Library.Multiset"
begin

text \<open>
  Shared vocabulary of the development: the faults a C operation can run into, C strings
  and \<^verbatim>\<open>strcmp\<close>, the width conversions between \<^verbatim>\<open>int\<close> and
  \<^verbatim>\<open>json_int_t\<close>, the named collections the component theories add to, and the
  generic list lemmas they share.
\<close>

section \<open>Named collections\<close>

named_theorems c_simps \<open>unfolding rules of the string and width helpers\<close>
named_theorems step_intros \<open>introduction rules of the step relations\<close>
named_theorems inv_intros \<open>operations keep the invariants\<close>

section \<open>Faults\<close>

text \<open>
  What the C program does beyond returning a value: dereferencing NULL, touching a freed
  or an uninitialised object, a failed \<^verbatim>\<open>assert\<close>, an array read out of range, a
  second \<^verbatim>\<open>pthread_join\<close> of one thread. A definition whose source can reach one
  of them returns \<open>Inl\<close> of it.
\<close>

datatype fault =
    Null_Deref
  | Use_After_Free
  | Uninit_Read
  | Assert_Fail
  | Out_Of_Bounds
  | Double_Join

type_synonym 'a cres = "fault + 'a"

abbreviation is_ok :: "'a cres \<Rightarrow> bool" where
  "is_ok r \<equiv> (\<exists>x. r = Inr x)"

section \<open>Blocks\<close>

text \<open>
  The blocks a component allocates for itself, by the field that points to them, and
  \<^verbatim>\<open>free\<close> on the list of live blocks: freeing a block that is not live is a fault.
\<close>

datatype block =
    Site_Struct
  | Site_Python
  | Site_Task_Dir
  | Site_Working_Dir
  | Logger_Struct
  | Logger_Name
  | Logger_Mutex

fun free_blocks :: "'b list \<Rightarrow> 'b list \<Rightarrow> 'b list cres" where
  "free_blocks [] live = Inr live"
| "free_blocks (b # bs) live =
     (if b \<in> set live then free_blocks bs (remove1 b live) else Inl Use_After_Free)"

section \<open>C strings\<close>

text \<open>
  A byte sequence in memory is read as a C string up to its first NUL. The JSON parser
  can store a NUL inside a string (from the escape \<^verbatim>\<open>\u0000\<close>), so the bytes of
  a JSON string and the C string at its pointer are not the same thing.
\<close>

abbreviation NUL :: char where
  "NUL \<equiv> CHR 0x00"

definition c_str :: "string \<Rightarrow> string" where
  "c_str s = takeWhile (\<lambda>c. c \<noteq> NUL) s"

definition strlen :: "string \<Rightarrow> nat" where
  "strlen s = length (c_str s)"

text \<open>\<open>streq a b\<close> is the C test \<^verbatim>\<open>strcmp(a, b) == 0\<close>.\<close>

definition streq :: "string \<Rightarrow> string \<Rightarrow> bool" where
  "streq a b \<longleftrightarrow> c_str a = c_str b"

definition nul_free :: "string \<Rightarrow> bool" where
  "nul_free s \<longleftrightarrow> NUL \<notin> set s"

lemma nul_free_simps [simp]:
  "nul_free []"
  "nul_free (c # s) \<longleftrightarrow> c \<noteq> NUL \<and> nul_free s"
  "nul_free (s @ t) \<longleftrightarrow> nul_free s \<and> nul_free t"
  by (auto simp: nul_free_def)

lemma c_str_simps [simp]:
  "c_str [] = []"
  "c_str (c # s) = (if c = NUL then [] else c # c_str s)"
  by (simp_all add: c_str_def)

lemma c_str_id [simp]: "nul_free s \<Longrightarrow> c_str s = s"
  by (induction s) auto

lemma nul_free_c_str [simp]: "nul_free (c_str s)"
  by (induction s) auto

lemma c_str_idem [simp]: "c_str (c_str s) = c_str s"
  by simp

lemma length_c_str_le: "length (c_str s) \<le> length s"
  by (simp add: c_str_def length_takeWhile_le)

lemma take_length_c_str [simp]: "take (length (c_str s)) s = c_str s"
  by (induction s) auto

lemma take_strlen [simp]: "take (strlen s) s = c_str s"
  by (simp add: strlen_def)

lemma streq_refl [simp]: "streq s s"
  by (simp add: streq_def)

lemma streq_sym: "streq a b \<longleftrightarrow> streq b a"
  by (auto simp: streq_def)

lemma streq_trans: "streq a b \<Longrightarrow> streq b c \<Longrightarrow> streq a c"
  by (simp add: streq_def)

lemma streq_nul_free: "nul_free a \<Longrightarrow> nul_free b \<Longrightarrow> streq a b \<longleftrightarrow> a = b"
  by (simp add: streq_def)

lemma strlen_eq_0: "strlen s = 0 \<longleftrightarrow> c_str s = []"
  by (simp add: strlen_def)

section \<open>Integer widths\<close>

text \<open>
  \<^verbatim>\<open>int\<close> is 32 bits and \<^verbatim>\<open>json_int_t\<close> (\<^verbatim>\<open>int_fast64_t\<close>) 64
  bits wide, both two's complement. Passing a \<^verbatim>\<open>json_int_t\<close> where an
  \<^verbatim>\<open>int\<close> is expected keeps the low 32 bits; the other direction sign-extends.
\<close>

type_synonym c_int = "32 word"
type_synonym json_int = "64 word"

definition int_of_json :: "json_int \<Rightarrow> c_int" where
  "int_of_json i = ucast i"

definition json_of_int :: "c_int \<Rightarrow> json_int" where
  "json_of_int i = scast i"

lemma int_of_json_of_int [simp]: "int_of_json (json_of_int i) = i"
  unfolding int_of_json_def json_of_int_def
  by transfer (simp add: take_bit_signed_take_bit)

lemma sint_json_of_int: "sint (json_of_int i) = sint i"
  by (simp add: json_of_int_def sint_up_scast is_up)

section \<open>Decimal digits\<close>

definition is_digit :: "char \<Rightarrow> bool" where
  "is_digit c \<longleftrightarrow> c \<in> set ''0123456789''"

definition digit_val :: "char \<Rightarrow> nat" where
  "digit_val c = of_char c - 48"

definition digits_val :: "string \<Rightarrow> nat" where
  "digits_val ds = foldl (\<lambda>n c. 10 * n + digit_val c) 0 ds"

text \<open>The digits \<^verbatim>\<open>%d\<close> prints for a nonnegative number.\<close>

fun dec_digits :: "nat \<Rightarrow> string" where
  "dec_digits n = (if n < 10 then [''0123456789'' ! n] else dec_digits (n div 10) @ [''0123456789'' ! (n mod 10)])"

declare dec_digits.simps [simp del]

lemma digits_val_app: "digits_val (ds @ [c]) = 10 * digits_val ds + digit_val c"
  by (simp add: digits_val_def)

lemma digit_char: "n < 10 \<Longrightarrow> is_digit (''0123456789'' ! n) \<and> digit_val (''0123456789'' ! n) = n"
  by (simp add: is_digit_def digit_val_def less_Suc_eq numeral_eq_Suc) (elim disjE; simp)

lemma dec_digits_read: "digits_val (dec_digits n) = n \<and> (\<forall>c \<in> set (dec_digits n). is_digit c) \<and> dec_digits n \<noteq> []"
proof (induction n rule: dec_digits.induct)
  case (1 n)
  show ?case
  proof (cases "n < 10")
    case True
    with digit_char [of n] show ?thesis by (simp add: dec_digits.simps [of n] digits_val_def)
  next
    case False
    with 1 digit_char [of "n mod 10"] show ?thesis by (simp add: dec_digits.simps [of n] digits_val_app)
  qed
qed

lemma dec_digits_length: "n < 10 ^ w \<Longrightarrow> 0 < w \<Longrightarrow> length (dec_digits n) \<le> w"
proof (induction n arbitrary: w rule: dec_digits.induct)
  case (1 n)
  show ?case
  proof (cases "n < 10")
    case False
    with 1(2,3) obtain v where v: "w = Suc v" "0 < v" by (cases w; cases "w - 1") auto
    with 1(2) have "n div 10 < 10 ^ v" by (simp add: less_mult_imp_div_less mult.commute)
    from 1(1) [OF False this v(2)] False v show ?thesis by (simp add: dec_digits.simps [of n])
  qed (use 1(3) in \<open>simp add: dec_digits.simps [of n]\<close>)
qed

section \<open>Freeing\<close>

text \<open>Blocks that are live can be freed, and exactly they are gone afterwards.\<close>

lemma free_blocks_spec:
  "mset bs \<subseteq># mset live \<Longrightarrow> \<exists>live'. free_blocks bs live = Inr live' \<and> mset live = mset bs + mset live'"
proof (induction bs live rule: free_blocks.induct)
  case (2 b bs live)
  from 2(2) have b: "b \<in> set live" by (metis insert_subset list.set(2) set_mset_mono set_mset_mset)
  with 2(2) have "mset bs \<subseteq># mset (remove1 b live)" by (simp add: insert_subset_eq_iff)
  with 2(1) [OF b] obtain live' where live': "free_blocks bs (remove1 b live) = Inr live'" "mset (remove1 b live) = mset bs + mset live'"
    by blast
  have "mset live = add_mset b (mset (remove1 b live))" using b by simp
  with live' b show ?case by (simp only: live'(2)) simp
qed simp

section \<open>Lists\<close>

lemma take_Suc_nth: "i < length xs \<Longrightarrow> take (Suc i) xs = take i xs @ [xs ! i]"
  by (simp add: take_Suc_conv_app_nth)

text \<open>Replacing one element changes a sum over the list by the difference of the two summands.\<close>

lemma sum_list_update_add:
  fixes f :: "'a \<Rightarrow> 'b::comm_monoid_add"
  shows "i < length xs \<Longrightarrow> sum_list (map f (xs[i := y])) + f (xs ! i) = sum_list (map f xs) + f y"
proof (induction xs arbitrary: i)
  case (Cons x xs)
  show ?case
  proof (cases i)
    case (Suc k)
    with Cons.prems Cons.IH [of k] show ?thesis by (simp add: add.assoc)
  qed (simp add: ac_simps)
qed simp

lemma set_update_iff: "z \<in> set (xs[i := y]) \<Longrightarrow> z = y \<or> z \<in> set xs"
  by (meson insertE set_update_subset_insert subsetD)

lemma sum_list_replicate_zero [simp]: "sum_list (replicate n (0::'b::comm_monoid_add)) = 0"
  by (induction n) auto

section \<open>Reachable states\<close>

text \<open>
  The states a transition system gets to from its initial states, and the contract under
  which a predicate holds in all of them.
\<close>

inductive reach :: "('s \<Rightarrow> bool) \<Rightarrow> ('s \<Rightarrow> 's \<Rightarrow> bool) \<Rightarrow> 's \<Rightarrow> bool" for init step where
  reach_init: "init s \<Longrightarrow> reach init step s"
| reach_step: "reach init step s \<Longrightarrow> step s t \<Longrightarrow> reach init step t"

lemma reach_star: "step\<^sup>*\<^sup>* s t \<Longrightarrow> reach init step s \<Longrightarrow> reach init step t"
  by (induction rule: rtranclp_induct) (auto intro: reach_step)

locale invariant_system =
  fixes init :: "'s \<Rightarrow> bool"
    and step :: "'s \<Rightarrow> 's \<Rightarrow> bool"
    and inv :: "'s \<Rightarrow> bool"
  assumes init_inv: "init s \<Longrightarrow> inv s"
    and step_inv: "inv s \<Longrightarrow> step s t \<Longrightarrow> inv t"
begin

lemma reach_inv: "reach init step s \<Longrightarrow> inv s"
  by (induction rule: reach.induct) (auto intro: init_inv step_inv)

lemma star_inv: "step\<^sup>*\<^sup>* s t \<Longrightarrow> inv s \<Longrightarrow> inv t"
  by (induction rule: rtranclp_induct) (auto intro: step_inv)

text \<open>
  A variant that every step towards the goal can decrease leads to the goal: from a state
  of the invariant that satisfies a stable condition, a goal state can be reached.
\<close>

lemma eventually_goal:
  fixes variant :: "'s \<Rightarrow> nat"
  assumes "inv s" and "steady s"
    and progress: "\<And>s. inv s \<Longrightarrow> steady s \<Longrightarrow> \<not> goal s \<Longrightarrow> \<exists>t. step s t \<and> steady t \<and> variant t < variant s"
  shows "\<exists>t. step\<^sup>*\<^sup>* s t \<and> goal t"
  using assms(1,2)
proof (induction "variant s" arbitrary: s rule: less_induct)
  case less
  show ?case
  proof (cases "goal s")
    case False
    with less.prems progress obtain t where t: "step s t" "steady t" "variant t < variant s" by blast
    with less step_inv obtain u where "step\<^sup>*\<^sup>* t u" "goal u" by blast
    with t(1) show ?thesis by (meson converse_rtranclp_into_rtranclp)
  qed blast
qed

end

end
