(* ===== verification/Logger.thy ===== *)
theory Logger
  imports Prelude
begin

text \<open>
  The logger (\<^verbatim>\<open>api/logger.c\<close>): the level filter and the assembly of a line in
  buffers of fixed size. The time stamp and the formatted message are arguments; a text
  written with \<^verbatim>\<open>snprintf\<close> is cut to its buffer while the returned length is that of
  the whole text. Creating and destroying a logger act on the list of live blocks.
\<close>

abbreviation (input) LOGGER_DEBUG :: int where "LOGGER_DEBUG \<equiv> 0"
abbreviation (input) LOGGER_INFO :: int where "LOGGER_INFO \<equiv> 1"
abbreviation (input) LOGGER_WARN :: int where "LOGGER_WARN \<equiv> 2"
abbreviation (input) LOGGER_ERROR :: int where "LOGGER_ERROR \<equiv> 3"

record logger =
  lg_level :: int
  lg_name :: string

definition level_str :: "int \<Rightarrow> string option" where
  "level_str level =
     (if level = LOGGER_DEBUG then Some ''DEBUG''
      else if level = LOGGER_INFO then Some ''INFO''
      else if level = LOGGER_WARN then Some ''WARN''
      else if level = LOGGER_ERROR then Some ''ERROR''
      else None)"

text \<open>A decimal number padded with zeros to a width, as \<^verbatim>\<open>%0wd\<close> prints a nonnegative number.\<close>

definition zero_pad :: "nat \<Rightarrow> nat \<Rightarrow> string" where
  "zero_pad w n = (let d = dec_digits n in replicate (w - length d) (CHR ''0'') @ d)"

text \<open>The broken-down time \<^verbatim>\<open>gmtime_r\<close> gives, and the nanoseconds.\<close>

record tm =
  tm_year :: nat
  tm_mon :: nat
  tm_mday :: nat
  tm_hour :: nat
  tm_min :: nat
  tm_sec :: nat

definition snprintf_text :: "nat \<Rightarrow> string \<Rightarrow> string" where
  "snprintf_text n t = take (n - 1) t"

definition timestamp_rfc3339_ms :: "nat \<Rightarrow> tm \<Rightarrow> nat \<Rightarrow> string" where
  "timestamp_rfc3339_ms out_sz t nsec =
     snprintf_text out_sz
       (zero_pad 4 (tm_year t + 1900) @ ''-'' @ zero_pad 2 (tm_mon t + 1) @ ''-'' @ zero_pad 2 (tm_mday t) @ ''T'' @
        zero_pad 2 (tm_hour t) @ '':'' @ zero_pad 2 (tm_min t) @ '':'' @ zero_pad 2 (tm_sec t) @ ''.'' @
        zero_pad 3 (nsec div 1000000) @ ''Z'')"

definition logger_create ::
  "bool \<Rightarrow> int \<Rightarrow> int \<Rightarrow> string \<Rightarrow> block list \<Rightarrow> (logger option \<times> block list) cres" where
  "logger_create malloc_ok mutex_err level name live =
     (if \<not> malloc_ok then Inr (None, live)
      else if mutex_err \<noteq> 0
      then map_sum id (Pair None) (free_blocks [Logger_Name, Logger_Struct] (Logger_Name # Logger_Struct # live))
      else Inr (Some \<lparr>lg_level = level, lg_name = c_str name\<rparr>,
                Logger_Mutex # Logger_Name # Logger_Struct # live))"

definition logger_destroy :: "logger option \<Rightarrow> block list \<Rightarrow> block list cres" where
  "logger_destroy l live =
     (case l of
        None \<Rightarrow> Inr live
      | Some _ \<Rightarrow> free_blocks [Logger_Name, Logger_Mutex, Logger_Struct] live)"

definition logger_get_level :: "logger \<Rightarrow> int" where
  "logger_get_level l = lg_level l"

datatype stream = Stdout | Stderr

text \<open>
  The bytes written and where, if any. The line buffer has 1400 bytes; \<^verbatim>\<open>fwrite\<close> is
  given the length of the whole line, so a longer line is read beyond the buffer. A null
  level name passed to \<^verbatim>\<open>%s\<close> is a fault.
\<close>

definition log_line :: "string \<Rightarrow> string \<Rightarrow> string \<Rightarrow> string \<Rightarrow> string" where
  "log_line ts lvl name msg = ''['' @ ts @ ''] '' @ lvl @ '' '' @ name @ '' '' @ msg @ [CHR 0x0A]"

definition logger_log :: "logger \<Rightarrow> int \<Rightarrow> tm \<Rightarrow> nat \<Rightarrow> string \<Rightarrow> (stream \<times> string) option cres" where
  "logger_log l level t nsec text =
     (if level < lg_level l then Inr None
      else
        let ts = timestamp_rfc3339_ms 64 t nsec;
            msg = snprintf_text 1024 text
        in case level_str level of
             None \<Rightarrow> Inl Null_Deref
           | Some lvl \<Rightarrow>
               let line = log_line ts lvl (lg_name l) msg
               in if length line > 1400 then Inl Out_Of_Bounds
                  else if length line = 1400
                  then Inr (Some (if level \<ge> LOGGER_WARN then Stderr else Stdout, take 1399 line @ [NUL]))
                  else Inr (Some (if level \<ge> LOGGER_WARN then Stderr else Stdout, line)))"

section \<open>Properties\<close>

lemma log_line_length: "length (log_line ts lvl name msg) = length ts + length lvl + length name + length msg + 6"
  by (simp add: log_line_def)

lemma level_str_length: "level_str level = Some lvl \<Longrightarrow> length lvl \<le> 5"
  by (auto simp: level_str_def split: if_splits)

lemma level_str_none: "level_str level = None \<longleftrightarrow> level \<notin> {0, 1, 2, 3}"
  by (auto simp: level_str_def)

lemma timestamp_length: "0 < n \<Longrightarrow> length (timestamp_rfc3339_ms n t nsec) \<le> n - 1"
  by (simp add: timestamp_rfc3339_ms_def snprintf_text_def)

lemma zero_pad_length: "n < 10 ^ w \<Longrightarrow> 0 < w \<Longrightarrow> length (zero_pad w n) = w"
  using dec_digits_length [of n w] by (simp add: zero_pad_def Let_def)

text \<open>
  For every date before the year 10000 the time stamp has exactly the 24
  characters of an RFC 3339 time in milliseconds, so its buffer of 64 bytes never cuts it.
\<close>

theorem timestamp_shape:
  assumes "tm_year t < 8100" and "tm_mon t < 12" and "tm_mday t < 32" and "tm_hour t < 24" and "tm_min t < 60"
    and "tm_sec t < 61" and "nsec < 1000000000"
  shows "length (timestamp_rfc3339_ms 64 t nsec) = 24 \<and> last (timestamp_rfc3339_ms 64 t nsec) = CHR ''Z''"
proof -
  have "nsec div 1000000 < 10 ^ 3" using assms(7) by (simp add: less_mult_imp_div_less)
  with assms show ?thesis
    by (simp add: timestamp_rfc3339_ms_def snprintf_text_def zero_pad_length)
qed

text \<open>With a short name no line is cut: it is written as it was put together.\<close>

lemma logger_log_fits:
  assumes lvl: "level_str level = Some lvl" and name: "length (lg_name l) \<le> 250"
  shows "logger_log l level t nsec text =
    Inr (if level < lg_level l then None
         else Some (if level \<ge> LOGGER_WARN then Stderr else Stdout,
                    log_line (timestamp_rfc3339_ms 64 t nsec) lvl (lg_name l) (take 1023 text)))"
proof -
  have "length (log_line (timestamp_rfc3339_ms 64 t nsec) lvl (lg_name l) (take 1023 text)) < 1400"
    using timestamp_length [of 64 t nsec] level_str_length [OF lvl] name by (simp add: log_line_length)
  with lvl show ?thesis by (simp add: logger_log_def snprintf_text_def Let_def)
qed

text \<open>
  Property C38. With one of the four levels and a name of at most 250 bytes (the program
  uses names of at most 7), logging is safe for every message: a message below the
  logger's level is dropped, any other is written as one line to standard error from
  WARN on and to standard output below, with the message cut to 1023 bytes.
\<close>

theorem logger_log_safe:
  assumes "level \<in> {0, 1, 2, 3}" and "length (lg_name l) \<le> 250"
  shows "\<exists>lvl ts. level_str level = Some lvl \<and> length ts \<le> 63 \<and>
    logger_log l level t nsec text =
      Inr (if level < lg_level l then None
           else Some (if level \<ge> LOGGER_WARN then Stderr else Stdout, log_line ts lvl (lg_name l) (take 1023 text)))"
proof -
  obtain lvl where lvl: "level_str level = Some lvl" using assms(1) level_str_none [of level] by auto
  show ?thesis
    using lvl logger_log_fits [OF lvl assms(2), of t nsec "text"] timestamp_length [of 64 t nsec]
    by (intro exI [of _ lvl] exI [of _ "timestamp_rfc3339_ms 64 t nsec"]) simp
qed

definition logger_example :: logger where
  "logger_example = \<lparr>lg_level = LOGGER_INFO, lg_name = ''worker''\<rparr>"

definition tm_example :: tm where
  "tm_example = \<lparr>tm_year = 126, tm_mon = 0, tm_mday = 2, tm_hour = 3, tm_min = 4, tm_sec = 5\<rparr>"

theorem logger_log_safe_witness:
  "\<exists>ts. length ts \<le> 63 \<and> logger_log logger_example LOGGER_WARN tm_example 6000000 ''poll'' =
     Inr (Some (Stderr, log_line ts ''WARN'' ''worker'' ''poll''))"
  using logger_log_safe [of LOGGER_WARN logger_example tm_example 6000000 "''poll''"]
  by (auto simp: logger_example_def level_str_def)

text \<open>With a long name and a long message the line is written from beyond its buffer.\<close>

lemma logger_overread:
  assumes "1400 < length name"
  shows "logger_log \<lparr>lg_level = 0, lg_name = name\<rparr> LOGGER_INFO t nsec text = Inl Out_Of_Bounds"
  using assms by (simp add: logger_log_def level_str_def log_line_length Let_def)

theorem timestamp_shape_witness: "length (timestamp_rfc3339_ms 64 tm_example 6000000) = 24"
  using timestamp_shape [of tm_example 6000000] by (simp add: tm_example_def)

end
