(* ===== verification/Thread_Pool.thy ===== *)
theory Thread_Pool
  imports Prelude
begin

text \<open>
  The connection pool of \<^verbatim>\<open>api/thread_pool.c\<close>: a ring buffer of accepted
  connections behind one mutex and two condition variables, worker threads that take
  connections out, and submitters that put them in.

  Every access to the shared fields happens while the mutex is held, so a critical
  section, from acquiring the mutex to releasing it or to \<^verbatim>\<open>pthread_cond_wait\<close>,
  is one step. Signals wake one waiting thread of the scheduler's choice, broadcasts wake
  all, and a waiting thread may wake by itself; a woken thread runs its test again. The
  fields \<open>accepted\<close>, \<open>taken\<close>, \<open>handled\<close> and \<open>rejected\<close> of the system
  state are histories that only the theorems read.
\<close>

section \<open>The ring buffer\<close>

record conn =
  conn_fd :: int
  conn_listener_index :: int

record thread_pool =
  tp_queue :: "conn list"
  qcap :: nat
  qhead :: nat
  qtail :: nat
  qlen :: nat
  shutting_down :: bool

definition queue_push :: "thread_pool \<Rightarrow> conn \<Rightarrow> thread_pool" where
  "queue_push p j =
     p\<lparr>tp_queue := (tp_queue p)[qtail p := j],
       qtail := (qtail p + 1) mod qcap p,
       qlen := qlen p + 1\<rparr>"

definition queue_pop :: "thread_pool \<Rightarrow> conn \<times> thread_pool" where
  "queue_pop p =
     (tp_queue p ! qhead p,
      p\<lparr>qhead := (qhead p + 1) mod qcap p,
        qlen := qlen p - 1\<rparr>)"

section \<open>Critical sections\<close>

datatype worker_pc = W_Ready | W_Wait | W_Handle conn | W_Exited

datatype submit_pc = S_Idle | S_Ready conn | S_Wait conn

text \<open>
  One turn of \<^verbatim>\<open>worker_thread\<close> under the mutex: block while the queue is empty,
  leave the loop on shutdown with nothing queued, take a connection otherwise.
\<close>

definition worker_section :: "thread_pool \<Rightarrow> thread_pool \<times> worker_pc" where
  "worker_section p =
     (if qlen p = 0 \<and> \<not> shutting_down p then (p, W_Wait)
      else if qlen p = 0 \<and> shutting_down p then (p, W_Exited)
      else (case queue_pop p of (j, p') \<Rightarrow> (p', W_Handle j)))"

text \<open>
  \<^verbatim>\<open>thread_pool_submit\<close> under the mutex, both on entry and after a wake-up: reject
  when shutting down (the value -1), block while the queue is full, push otherwise (0).
\<close>

definition submit_section :: "thread_pool \<Rightarrow> conn \<Rightarrow> thread_pool \<times> submit_pc \<times> int option" where
  "submit_section p j =
     (if shutting_down p then (p, S_Idle, Some (- 1))
      else if qlen p = qcap p \<and> \<not> shutting_down p then (p, S_Wait j, None)
      else (queue_push p j, S_Idle, Some 0))"

fun wake_worker :: "worker_pc \<Rightarrow> worker_pc" where
  "wake_worker W_Wait = W_Ready"
| "wake_worker w = w"

fun wake_submitter :: "submit_pc \<Rightarrow> submit_pc" where
  "wake_submitter (S_Wait j) = S_Ready j"
| "wake_submitter s = s"

section \<open>The system\<close>

record pool_sys =
  pool :: thread_pool
  workers :: "worker_pc list"
  submitters :: "submit_pc list"
  accepted :: "conn list"
  taken :: "conn list"
  handled :: "conn list"
  rejected :: "conn list"

definition thread_pool_shutdown :: "pool_sys \<Rightarrow> pool_sys" where
  "thread_pool_shutdown s =
     s\<lparr>pool := (pool s)\<lparr>shutting_down := True\<rparr>,
       workers := map wake_worker (workers s),
       submitters := map wake_submitter (submitters s)\<rparr>"

text \<open>\<^verbatim>\<open>pthread_cond_signal\<close>: one waiting thread, if there is any, becomes ready.\<close>

inductive signalled :: "('a \<Rightarrow> 'a) \<Rightarrow> 'a list \<Rightarrow> 'a list \<Rightarrow> bool" for wake where
  signal_none: "(\<forall>x \<in> set xs. wake x = x) \<Longrightarrow> signalled wake xs xs"
| signal_one: "i < length xs \<Longrightarrow> wake (xs ! i) \<noteq> xs ! i \<Longrightarrow> signalled wake xs (xs[i := wake (xs ! i)])"

inductive pool_step :: "pool_sys \<Rightarrow> pool_sys \<Rightarrow> bool" where
  worker_waits:
    "i < length (workers s) \<Longrightarrow> workers s ! i = W_Ready \<Longrightarrow>
     worker_section (pool s) = (p, W_Wait) \<Longrightarrow>
     pool_step s (s\<lparr>pool := p, workers := (workers s)[i := W_Wait]\<rparr>)"
| worker_exits:
    "i < length (workers s) \<Longrightarrow> workers s ! i = W_Ready \<Longrightarrow>
     worker_section (pool s) = (p, W_Exited) \<Longrightarrow>
     pool_step s (s\<lparr>pool := p, workers := (workers s)[i := W_Exited]\<rparr>)"
| worker_takes:
    "i < length (workers s) \<Longrightarrow> workers s ! i = W_Ready \<Longrightarrow>
     worker_section (pool s) = (p, W_Handle j) \<Longrightarrow>
     signalled wake_submitter (submitters s) subs \<Longrightarrow>
     pool_step s (s\<lparr>pool := p, workers := (workers s)[i := W_Handle j], submitters := subs,
       taken := taken s @ [j]\<rparr>)"
| worker_handles:
    "i < length (workers s) \<Longrightarrow> workers s ! i = W_Handle j \<Longrightarrow>
     pool_step s (s\<lparr>workers := (workers s)[i := W_Ready], handled := handled s @ [j]\<rparr>)"
| worker_spurious:
    "i < length (workers s) \<Longrightarrow> workers s ! i = W_Wait \<Longrightarrow>
     pool_step s (s\<lparr>workers := (workers s)[i := W_Ready]\<rparr>)"
| submit_called:
    "i < length (submitters s) \<Longrightarrow> submitters s ! i = S_Idle \<Longrightarrow>
     pool_step s (s\<lparr>submitters := (submitters s)[i := S_Ready j]\<rparr>)"
| submit_rejects:
    "i < length (submitters s) \<Longrightarrow> submitters s ! i = S_Ready j \<Longrightarrow>
     submit_section (pool s) j = (p, pc, Some (- 1)) \<Longrightarrow>
     pool_step s (s\<lparr>pool := p, submitters := (submitters s)[i := pc], rejected := rejected s @ [j]\<rparr>)"
| submit_waits:
    "i < length (submitters s) \<Longrightarrow> submitters s ! i = S_Ready j \<Longrightarrow>
     submit_section (pool s) j = (p, pc, None) \<Longrightarrow>
     pool_step s (s\<lparr>pool := p, submitters := (submitters s)[i := pc]\<rparr>)"
| submit_pushes:
    "i < length (submitters s) \<Longrightarrow> submitters s ! i = S_Ready j \<Longrightarrow>
     submit_section (pool s) j = (p, pc, Some 0) \<Longrightarrow>
     signalled wake_worker (workers s) ws \<Longrightarrow>
     pool_step s (s\<lparr>pool := p, submitters := (submitters s)[i := pc], workers := ws,
       accepted := accepted s @ [j]\<rparr>)"
| submit_spurious:
    "i < length (submitters s) \<Longrightarrow> submitters s ! i = S_Wait j \<Longrightarrow>
     pool_step s (s\<lparr>submitters := (submitters s)[i := S_Ready j]\<rparr>)"
| pool_shuts_down: "pool_step s (thread_pool_shutdown s)"

text \<open>
  \<^verbatim>\<open>thread_pool_create\<close>. \<open>create_err i\<close> is the result of the \<open>i\<close>-th
  \<^verbatim>\<open>pthread_create\<close>; on the first failure the pool is shut down, the workers
  already created are joined (so their number is returned) and the error is left in
  \<^verbatim>\<open>errno\<close>. The argument \<open>nsub\<close> counts the threads that may submit.
\<close>

datatype pool_result =
    Pool pool_sys
  | Pool_Invalid
  | Pool_No_Memory
  | Pool_Thread_Error int nat

fun first_create_error :: "(nat \<Rightarrow> int) \<Rightarrow> nat \<Rightarrow> nat \<Rightarrow> nat option" where
  "first_create_error create_err i 0 = None"
| "first_create_error create_err i (Suc n) =
     (if create_err i \<noteq> 0 then Some i else first_create_error create_err (Suc i) n)"

definition thread_pool_create ::
  "bool \<Rightarrow> bool \<Rightarrow> bool \<Rightarrow> (nat \<Rightarrow> int) \<Rightarrow> nat \<Rightarrow> nat \<Rightarrow> bool \<Rightarrow> nat \<Rightarrow> pool_result" where
  "thread_pool_create pool_ok threads_ok queue_ok create_err nworkers cap has_server nsub =
     (if nworkers = 0 \<or> cap = 0 \<or> \<not> has_server then Pool_Invalid
      else if \<not> pool_ok then Pool_No_Memory
      else if \<not> threads_ok \<or> \<not> queue_ok then Pool_No_Memory
      else
        let p = \<lparr>tp_queue = replicate cap \<lparr>conn_fd = 0, conn_listener_index = 0\<rparr>, qcap = cap,
                 qhead = 0, qtail = 0, qlen = 0, shutting_down = False\<rparr>
        in case first_create_error create_err 0 nworkers of
             Some i \<Rightarrow> Pool_Thread_Error (create_err i) i
           | None \<Rightarrow> Pool \<lparr>pool = p, workers = replicate nworkers W_Ready,
                submitters = replicate nsub S_Idle,
                accepted = [], taken = [], handled = [], rejected = []\<rparr>)"

definition pool_init :: "pool_sys \<Rightarrow> bool" where
  "pool_init s \<longleftrightarrow> (\<exists>pok tok qok err n cap srv nsub.
     thread_pool_create pok tok qok err n cap srv nsub = Pool s)"

text \<open>
  \<^verbatim>\<open>thread_pool_destroy\<close> shuts the pool down and joins every worker: it returns
  in a state reached after the shutdown in which all workers have exited.
\<close>

definition thread_pool_destroyed :: "pool_sys \<Rightarrow> pool_sys \<Rightarrow> bool" where
  "thread_pool_destroyed s t \<longleftrightarrow>
     pool_step\<^sup>*\<^sup>* (thread_pool_shutdown s) t \<and> (\<forall>w \<in> set (workers t). w = W_Exited)"

section \<open>The ring buffer is a bounded queue\<close>

text \<open>The contents in the order they leave, and the shape of a valid ring.\<close>

definition queue_list :: "thread_pool \<Rightarrow> conn list" where
  "queue_list p = map (\<lambda>i. tp_queue p ! ((qhead p + i) mod qcap p)) [0..<qlen p]"

definition queue_inv :: "thread_pool \<Rightarrow> bool" where
  "queue_inv p \<longleftrightarrow> 0 < qcap p \<and> length (tp_queue p) = qcap p \<and> qhead p < qcap p \<and>
     qlen p \<le> qcap p \<and> qtail p = (qhead p + qlen p) mod qcap p"

locale bounded_queue =
  fixes push :: "'q \<Rightarrow> 'a \<Rightarrow> 'q"
    and pop :: "'q \<Rightarrow> 'a \<times> 'q"
    and contents :: "'q \<Rightarrow> 'a list"
    and cap :: "'q \<Rightarrow> nat"
    and invar :: "'q \<Rightarrow> bool"
  assumes push_contents: "invar q \<Longrightarrow> length (contents q) < cap q \<Longrightarrow> contents (push q x) = contents q @ [x]"
    and push_invar: "invar q \<Longrightarrow> length (contents q) < cap q \<Longrightarrow> invar (push q x)"
    and push_cap: "cap (push q x) = cap q"
    and pop_contents: "invar q \<Longrightarrow> contents q \<noteq> [] \<Longrightarrow> contents q = fst (pop q) # contents (snd (pop q))"
    and pop_invar: "invar q \<Longrightarrow> contents q \<noteq> [] \<Longrightarrow> invar (snd (pop q))"
    and pop_cap: "cap (snd (pop q)) = cap q"
    and within_cap: "invar q \<Longrightarrow> length (contents q) \<le> cap q"
begin

text \<open>A push followed by a pop on an empty queue gives the element back.\<close>

lemma push_pop_empty:
  assumes "invar q" and "contents q = []" and "0 < cap q"
  shows "fst (pop (push q x)) = x" and "contents (snd (pop (push q x))) = []"
  using assms push_contents [of q x] push_invar [of q x] pop_contents [of "push q x"] by auto

lemma pop_nth:
  assumes "invar q" and "Suc i < length (contents q)"
  shows "contents (snd (pop q)) ! i = contents q ! Suc i"
  using assms pop_contents [of q] by (metis length_0_conv not_less_zero nth_Cons_Suc)

lemma push_within: "invar q \<Longrightarrow> length (contents q) < cap q \<Longrightarrow> length (contents (push q x)) = Suc (length (contents q))"
  by (simp add: push_contents)

end

lemma length_queue_list [simp]: "length (queue_list p) = qlen p"
  by (simp add: queue_list_def)

lemma mod_add_distinct:
  fixes h :: nat
  assumes "i \<le> j" and "j < c" and "(h + i) mod c = (h + j) mod c"
  shows "i = j"
proof -
  have "c dvd (h + j) - (h + i)" using assms by (metis mod_eq_dvd_iff_nat add_le_cancel_left)
  then have "c dvd j - i" by simp
  with assms(1,2) show ?thesis by (auto dest: dvd_imp_le)
qed

lemma queue_push_list:
  assumes "queue_inv p" and "qlen p < qcap p"
  shows "queue_list (queue_push p j) = queue_list p @ [j]"
proof -
  have "(tp_queue p)[qtail p := j] ! ((qhead p + i) mod qcap p) = tp_queue p ! ((qhead p + i) mod qcap p)"
    if "i < qlen p" for i
    using assms that mod_add_distinct [of i "qlen p" "qcap p" "qhead p"]
    by (auto simp: queue_inv_def intro!: nth_list_update_neq)
  then show ?thesis using assms by (auto simp: queue_list_def queue_push_def queue_inv_def)
qed

lemma queue_pop_list:
  assumes "queue_inv p" and "qlen p \<noteq> 0"
  shows "queue_list p = fst (queue_pop p) # queue_list (snd (queue_pop p))"
proof -
  obtain n where n: "qlen p = Suc n" using assms(2) not0_implies_Suc by blast
  have "queue_list p = map (\<lambda>i. tp_queue p ! ((qhead p + i) mod qcap p)) (0 # map Suc [0..<n])"
    unfolding queue_list_def n by (simp add: upt_conv_Cons map_Suc_upt del: upt_Suc)
  also have "\<dots> = fst (queue_pop p) # queue_list (snd (queue_pop p))"
    using assms(1) n
    by (auto simp: queue_list_def queue_pop_def queue_inv_def mod_Suc_eq mod_add_left_eq mod_add_right_eq add.commute
        simp flip: add_Suc_right intro!: arg_cong [where f = "\<lambda>k. tp_queue p ! k"])
  finally show ?thesis .
qed

interpretation ring: bounded_queue queue_push queue_pop queue_list qcap queue_inv
proof unfold_locales
  show "queue_inv (queue_push q x)" if "queue_inv q" "length (queue_list q) < qcap q" for q x
    using that by (auto simp: queue_inv_def queue_push_def mod_Suc_eq)
  show "queue_inv (snd (queue_pop q))" if inv: "queue_inv q" and ne: "queue_list q \<noteq> []" for q
  proof -
    obtain n where "qlen q = Suc n"
      using ne by (metis length_queue_list length_0_conv not0_implies_Suc)
    with inv show ?thesis
      by (auto simp: queue_inv_def queue_pop_def mod_add_left_eq)
  qed
  show "queue_list (queue_push q x) = queue_list q @ [x]"
    if "queue_inv q" "length (queue_list q) < qcap q" for q x
    using that by (simp add: queue_push_list)
  show "queue_list q = fst (queue_pop q) # queue_list (snd (queue_pop q))"
    if "queue_inv q" "queue_list q \<noteq> []" for q
    using that queue_pop_list [of q] by (metis length_queue_list length_0_conv)
qed (auto simp: queue_push_def queue_pop_def queue_inv_def)

section \<open>The invariant of the pool\<close>

definition nready_workers :: "worker_pc list \<Rightarrow> nat" where
  "nready_workers ws = (\<Sum>w\<leftarrow>ws. of_bool (w = W_Ready))"

definition nready_submitters :: "submit_pc list \<Rightarrow> nat" where
  "nready_submitters ss = (\<Sum>s\<leftarrow>ss. case s of S_Ready j \<Rightarrow> 1 | _ \<Rightarrow> 0)"

definition in_flight :: "worker_pc list \<Rightarrow> conn multiset" where
  "in_flight ws = (\<Sum>w\<leftarrow>ws. case w of W_Handle j \<Rightarrow> {#j#} | _ \<Rightarrow> {#})"

abbreviation worker_waiting :: "pool_sys \<Rightarrow> bool" where
  "worker_waiting s \<equiv> W_Wait \<in> set (workers s)"

abbreviation submitter_waiting :: "pool_sys \<Rightarrow> bool" where
  "submitter_waiting s \<equiv> (\<exists>j. S_Wait j \<in> set (submitters s))"

text \<open>Nothing is lost or duplicated, and connections leave in the order they came.\<close>

definition inv_account :: "pool_sys \<Rightarrow> bool" where
  "inv_account s \<longleftrightarrow> queue_inv (pool s) \<and> accepted s = taken s @ queue_list (pool s) \<and>
     mset (taken s) = mset (handled s) + in_flight (workers s) \<and> workers s \<noteq> []"

text \<open>Whoever sleeps is right to sleep: enough awake threads exist for the work there is.\<close>

definition inv_wakeup :: "pool_sys \<Rightarrow> bool" where
  "inv_wakeup s \<longleftrightarrow>
     (worker_waiting s \<longrightarrow> \<not> shutting_down (pool s) \<and> qlen (pool s) \<le> nready_workers (workers s)) \<and>
     (submitter_waiting s \<longrightarrow> \<not> shutting_down (pool s) \<and>
        qcap (pool s) - qlen (pool s) \<le> nready_submitters (submitters s))"

definition inv_exit :: "pool_sys \<Rightarrow> bool" where
  "inv_exit s \<longleftrightarrow> (W_Exited \<in> set (workers s) \<longrightarrow> shutting_down (pool s) \<and> qlen (pool s) = 0)"

definition pool_inv :: "pool_sys \<Rightarrow> bool" where
  "pool_inv s \<longleftrightarrow> inv_account s \<and> inv_wakeup s \<and> inv_exit s"

lemmas count_defs = nready_workers_def nready_submitters_def in_flight_def

lemma nready_workers_update:
  "i < length ws \<Longrightarrow> nready_workers (ws[i := w]) + of_bool (ws ! i = W_Ready) = nready_workers ws + of_bool (w = W_Ready)"
  unfolding nready_workers_def by (rule sum_list_update_add)

lemma nready_submitters_update:
  "i < length ss \<Longrightarrow> nready_submitters (ss[i := s]) + (case ss ! i of S_Ready j \<Rightarrow> 1 | _ \<Rightarrow> 0) =
   nready_submitters ss + (case s of S_Ready j \<Rightarrow> 1 | _ \<Rightarrow> 0)"
  unfolding nready_submitters_def by (rule sum_list_update_add)

lemma in_flight_update:
  "i < length ws \<Longrightarrow> in_flight (ws[i := w]) + (case ws ! i of W_Handle j \<Rightarrow> {#j#} | _ \<Rightarrow> {#}) =
   in_flight ws + (case w of W_Handle j \<Rightarrow> {#j#} | _ \<Rightarrow> {#})"
  unfolding in_flight_def by (rule sum_list_update_add)

lemma wake_worker_changed: "wake_worker w \<noteq> w \<longleftrightarrow> w = W_Wait"
  by (cases w) auto

lemma wake_submitter_changed: "wake_submitter s \<noteq> s \<longleftrightarrow> (\<exists>j. s = S_Wait j)"
  by (cases s) auto

lemma in_flight_wake [simp]: "in_flight (map wake_worker ws) = in_flight ws"
  unfolding in_flight_def
  by (induction ws) (auto simp: wake_worker.simps split: worker_pc.split)

lemma wake_worker_not_wait [simp]: "W_Wait \<notin> set (map wake_worker ws)"
proof -
  have "wake_worker w \<noteq> W_Wait" for w by (cases w) auto
  then show ?thesis by (metis (no_types, lifting) ex_map_conv in_set_conv_nth list.set_map imageE)
qed

lemma wake_submitter_not_wait [simp]: "S_Wait j \<notin> set (map wake_submitter ss)"
proof -
  have "wake_submitter s \<noteq> S_Wait j" for s by (cases s) auto
  then show ?thesis by (metis imageE list.set_map)
qed

lemma wake_worker_exited: "wake_worker w = W_Exited \<longleftrightarrow> w = W_Exited" "W_Exited = wake_worker w \<longleftrightarrow> w = W_Exited"
  by (cases w; auto)+

text \<open>What one signal does to the counts.\<close>

lemma signalled_workerE:
  assumes "signalled wake_worker ws ws'"
  obtains (None) "W_Wait \<notin> set ws" "ws' = ws"
    | (One) i where "i < length ws" "ws ! i = W_Wait" "ws' = ws[i := W_Ready]"
  using assms
proof cases
  case signal_none
  with None show ?thesis by fastforce
next
  case (signal_one i)
  then have "ws ! i = W_Wait" by (simp add: wake_worker_changed)
  with signal_one One show ?thesis by simp
qed

lemma signalled_submitterE:
  assumes "signalled wake_submitter ss ss'"
  obtains (None) "\<And>j. S_Wait j \<notin> set ss" "ss' = ss"
    | (One) i j where "i < length ss" "ss ! i = S_Wait j" "ss' = ss[i := S_Ready j]"
  using assms
proof cases
  case signal_none
  with None show ?thesis by fastforce
next
  case (signal_one i)
  then obtain j where "ss ! i = S_Wait j" by (auto simp: wake_submitter_changed)
  with signal_one One show ?thesis by simp
qed

lemma signalled_workers:
  assumes "signalled wake_worker ws ws'"
  shows "length ws' = length ws" and "in_flight ws' = in_flight ws"
    and "W_Exited \<in> set ws' \<Longrightarrow> W_Exited \<in> set ws"
    and "W_Wait \<in> set ws' \<Longrightarrow> W_Wait \<in> set ws \<and> nready_workers ws' = Suc (nready_workers ws)"
proof -
  show "length ws' = length ws" using assms by (cases rule: signalled_workerE) auto
  show "in_flight ws' = in_flight ws" using assms
  proof (cases rule: signalled_workerE)
    case (One i)
    with in_flight_update [of i ws W_Ready] show ?thesis by simp
  qed simp
  show "W_Exited \<in> set ws" if "W_Exited \<in> set ws'"
    using assms that by (cases rule: signalled_workerE) (auto dest: set_update_iff)
  show "W_Wait \<in> set ws \<and> nready_workers ws' = Suc (nready_workers ws)" if "W_Wait \<in> set ws'"
    using assms
  proof (cases rule: signalled_workerE)
    case (One i)
    with that nready_workers_update [of i ws W_Ready] show ?thesis by (auto dest: set_update_iff)
  qed (use that in simp)
qed

lemma signalled_submitters:
  assumes "signalled wake_submitter ss ss'"
  shows "length ss' = length ss"
    and "S_Wait j \<in> set ss' \<Longrightarrow> S_Wait j \<in> set ss \<and> nready_submitters ss' = Suc (nready_submitters ss)"
proof -
  show "length ss' = length ss" using assms by (cases rule: signalled_submitterE) auto
  show "S_Wait j \<in> set ss \<and> nready_submitters ss' = Suc (nready_submitters ss)" if "S_Wait j \<in> set ss'"
    using assms
  proof (cases rule: signalled_submitterE)
    case (One i k)
    with that nready_submitters_update [of i ss "S_Ready k"] show ?thesis by (auto dest: set_update_iff)
  qed (use that in simp)
qed

lemma worker_sectionE:
  assumes "worker_section p = (p', pc)"
  obtains (waits) "qlen p = 0" "\<not> shutting_down p" "p' = p" "pc = W_Wait"
    | (exits) "qlen p = 0" "shutting_down p" "p' = p" "pc = W_Exited"
    | (takes) "qlen p \<noteq> 0" "p' = snd (queue_pop p)" "pc = W_Handle (fst (queue_pop p))"
  using assms by (auto simp: worker_section_def split_beta split: if_splits)

lemma submit_sectionE:
  assumes "submit_section p j = (p', pc, r)"
  obtains (rejects) "shutting_down p" "p' = p" "pc = S_Idle" "r = Some (- 1)"
    | (blocks) "\<not> shutting_down p" "qlen p = qcap p" "p' = p" "pc = S_Wait j" "r = None"
    | (pushes) "\<not> shutting_down p" "qlen p \<noteq> qcap p" "p' = queue_push p j" "pc = S_Idle" "r = Some 0"
  using assms by (auto simp: submit_section_def split: if_splits)

lemma queue_op_fields [simp]:
  "qcap (queue_push p j) = qcap p" "shutting_down (queue_push p j) = shutting_down p"
  "qlen (queue_push p j) = Suc (qlen p)"
  "qcap (snd (queue_pop p)) = qcap p" "shutting_down (snd (queue_pop p)) = shutting_down p"
  "qlen (snd (queue_pop p)) = qlen p - 1"
  by (simp_all add: queue_push_def queue_pop_def)

lemma queue_list_shutting [simp]:
  "queue_list (p\<lparr>shutting_down := b\<rparr>) = queue_list p" "queue_inv (p\<lparr>shutting_down := b\<rparr>) = queue_inv p"
  by (simp_all add: queue_list_def queue_inv_def)

lemma step_account:
  assumes "pool_step s t" and "inv_account s"
  shows "inv_account t"
  using assms
proof cases
  case (worker_takes i p j subs)
  from worker_takes(4) have ne: "qlen (pool s) \<noteq> 0" and p: "p = snd (queue_pop (pool s))"
    and j: "j = fst (queue_pop (pool s))" by (auto elim: worker_sectionE)
  have "queue_list (pool s) \<noteq> []" using ne by (metis length_queue_list length_0_conv)
  with worker_takes assms(2) in_flight_update [of i "workers s" "W_Handle j"] show ?thesis
    using ring.pop_contents [of "pool s"] ring.pop_invar [of "pool s"]
    by (simp add: inv_account_def p j)
next
  case (submit_pushes i j p pc ws)
  from submit_pushes(4) have ne: "qlen (pool s) \<noteq> qcap (pool s)" and p: "p = queue_push (pool s) j"
    by (auto elim: submit_sectionE)
  then have "qlen (pool s) < qcap (pool s)" using assms(2) by (simp add: inv_account_def queue_inv_def)
  with submit_pushes assms(2) show ?thesis
    using ring.push_contents [of "pool s"] ring.push_invar [of "pool s"] signalled_workers(1,2) [OF submit_pushes(5)]
    by (auto simp: inv_account_def p)
next
  case (worker_handles i j)
  with assms(2) in_flight_update [of i "workers s" W_Ready] show ?thesis
    by (simp add: inv_account_def ac_simps)
next
  case (worker_waits i p)
  with assms(2) in_flight_update [of i "workers s" W_Wait] show ?thesis
    by (auto simp: inv_account_def elim: worker_sectionE)
next
  case (worker_exits i p)
  with assms(2) in_flight_update [of i "workers s" W_Exited] show ?thesis
    by (auto simp: inv_account_def elim: worker_sectionE)
next
  case (worker_spurious i)
  with assms(2) in_flight_update [of i "workers s" W_Ready] show ?thesis
    by (simp add: inv_account_def)
qed (auto simp: inv_account_def thread_pool_shutdown_def elim!: submit_sectionE)

lemma step_exit:
  assumes "pool_step s t" and "inv_exit s"
  shows "inv_exit t"
  using assms
  by cases (auto simp: inv_exit_def thread_pool_shutdown_def wake_worker_exited
      elim!: worker_sectionE submit_sectionE dest!: set_update_iff signalled_workers(3))

lemma step_wakeup:
  assumes step: "pool_step s t" and inv: "inv_account s" "inv_wakeup s"
  shows "inv_wakeup t"
  using step
proof cases
  case (worker_waits i p)
  with inv show ?thesis by (auto simp: inv_wakeup_def elim!: worker_sectionE)
next
  case (worker_exits i p)
  then have "shutting_down (pool s)" by (auto elim: worker_sectionE)
  with worker_exits inv show ?thesis by (auto simp: inv_wakeup_def elim!: worker_sectionE dest!: set_update_iff)
next
  case (worker_takes i p j subs)
  then show ?thesis
    using inv nready_workers_update [of i "workers s" "W_Handle j"] signalled_submitters(2) [OF worker_takes(5)]
    by (fastforce simp: inv_wakeup_def elim!: worker_sectionE dest!: set_update_iff)
next
  case (worker_handles i j)
  with inv nready_workers_update [of i "workers s" W_Ready] show ?thesis
    by (auto simp: inv_wakeup_def dest!: set_update_iff)
next
  case (worker_spurious i)
  with inv nready_workers_update [of i "workers s" W_Ready] show ?thesis
    by (auto simp: inv_wakeup_def dest!: set_update_iff)
next
  case (submit_called i j)
  with inv nready_submitters_update [of i "submitters s" "S_Ready j"] show ?thesis
    by (fastforce simp: inv_wakeup_def dest!: set_update_iff)
next
  case (submit_rejects i j p pc)
  then have "shutting_down (pool s)" by (auto elim: submit_sectionE)
  with submit_rejects inv show ?thesis by (auto simp: inv_wakeup_def elim!: submit_sectionE dest!: set_update_iff)
next
  case (submit_waits i j p pc)
  with inv show ?thesis by (auto simp: inv_wakeup_def elim!: submit_sectionE)
next
  case (submit_pushes i j p pc ws)
  then show ?thesis
    using inv nready_submitters_update [of i "submitters s" S_Idle] signalled_workers(4) [OF submit_pushes(5)]
    by (fastforce simp: inv_wakeup_def inv_account_def queue_inv_def elim!: submit_sectionE dest!: set_update_iff)
next
  case (submit_spurious i j)
  with inv nready_submitters_update [of i "submitters s" "S_Ready j"] show ?thesis
    by (fastforce simp: inv_wakeup_def dest!: set_update_iff)
next
  case pool_shuts_down
  then show ?thesis by (simp add: inv_wakeup_def thread_pool_shutdown_def del: set_map)
qed

lemma create_inv: "pool_init s \<Longrightarrow> pool_inv s"
  unfolding pool_init_def thread_pool_create_def
  by (auto simp: pool_inv_def inv_account_def inv_wakeup_def inv_exit_def queue_inv_def queue_list_def
      in_flight_def Let_def split: if_splits option.splits)

interpretation pool_run: invariant_system pool_init pool_step pool_inv
  by unfold_locales (auto simp: pool_inv_def create_inv [unfolded pool_inv_def] intro: step_account step_wakeup step_exit)

section \<open>Draining after a shutdown\<close>

text \<open>
  The work left for the workers once the pool is shutting down: a queued connection has
  still to be taken, handled and followed by one more turn of the loop.
\<close>

fun turns_left :: "worker_pc \<Rightarrow> nat" where
  "turns_left W_Ready = 1"
| "turns_left (W_Handle j) = 2"
| "turns_left w = 0"

definition drain :: "pool_sys \<Rightarrow> nat" where
  "drain s = 3 * qlen (pool s) + sum_list (map turns_left (workers s))"

definition all_exited :: "pool_sys \<Rightarrow> bool" where
  "all_exited s \<longleftrightarrow> (\<forall>w \<in> set (workers s). w = W_Exited)"

lemma map_wake_id: "W_Wait \<notin> set ws \<Longrightarrow> map wake_worker ws = ws"
  by (rule map_idI) (metis wake_worker_changed)

lemma shutdown_step_drain:
  assumes step: "pool_step s t" and inv: "pool_inv s" and shut: "shutting_down (pool s)"
  shows "shutting_down (pool t)" and "accepted t = accepted s"
    and "drain t \<le> drain s" and "workers t \<noteq> workers s \<Longrightarrow> drain t < drain s"
proof -
  have nowait: "W_Wait \<notin> set (workers s)" using inv shut by (auto simp: pool_inv_def inv_wakeup_def)
  show "shutting_down (pool t)" "accepted t = accepted s"
    using step shut
    by (cases; auto simp: thread_pool_shutdown_def elim!: worker_sectionE submit_sectionE; fail)+
  have "drain t \<le> drain s \<and> (workers t \<noteq> workers s \<longrightarrow> drain t < drain s)"
    using step
  proof cases
    case (worker_takes i p j subs)
    with sum_list_update_add [of i "workers s" turns_left "W_Handle j"] show ?thesis
      by (auto simp: drain_def elim!: worker_sectionE)
  next
    case (worker_exits i p)
    with sum_list_update_add [of i "workers s" turns_left W_Exited] show ?thesis
      by (auto simp: drain_def elim!: worker_sectionE)
  next
    case (worker_handles i j)
    with sum_list_update_add [of i "workers s" turns_left W_Ready] show ?thesis by (auto simp: drain_def)
  next
    case (worker_spurious i)
    with nowait show ?thesis by (metis nth_mem)
  qed (use shut nowait in \<open>auto simp: drain_def thread_pool_shutdown_def map_wake_id
      elim!: worker_sectionE submit_sectionE\<close>)
  then show "drain t \<le> drain s" "workers t \<noteq> workers s \<Longrightarrow> drain t < drain s" by auto
qed

text \<open>A worker that is not asleep can always go on.\<close>

lemma worker_can_step:
  assumes i: "i < length (workers s)" and w: "workers s ! i \<noteq> W_Wait" "workers s ! i \<noteq> W_Exited"
  shows "\<exists>t. pool_step s t \<and> workers t ! i \<noteq> workers s ! i \<and> length (workers t) = length (workers s)"
proof (cases "workers s ! i")
  case (W_Handle j)
  with i worker_handles [OF i W_Handle] show ?thesis by fastforce
next
  case W_Ready
  obtain subs where subs: "signalled wake_submitter (submitters s) subs"
    by (metis in_set_conv_nth signal_none signal_one)
  obtain p pc where sec: "worker_section (pool s) = (p, pc)" by fastforce
  then consider "pc = W_Wait" | "pc = W_Exited" | j where "pc = W_Handle j"
    by (cases rule: worker_sectionE) auto
  then show ?thesis
  proof cases
    case 1
    with sec worker_waits [OF i W_Ready] i W_Ready show ?thesis by fastforce
  next
    case 2
    with sec worker_exits [OF i W_Ready] i W_Ready show ?thesis by fastforce
  next
    case 3
    with sec worker_takes [OF i W_Ready _ subs] i W_Ready show ?thesis by fastforce
  qed
qed (use w in auto)

lemma shutdown_progress:
  assumes inv: "pool_inv s" and shut: "shutting_down (pool s)" and "\<not> all_exited s"
  shows "\<exists>t. pool_step s t \<and> shutting_down (pool t) \<and> drain t < drain s"
proof -
  from assms(3) obtain i where i: "i < length (workers s)" "workers s ! i \<noteq> W_Exited"
    by (auto simp: all_exited_def in_set_conv_nth)
  have "workers s ! i \<noteq> W_Wait" using inv shut i by (metis pool_inv_def inv_wakeup_def nth_mem)
  with worker_can_step [OF i(1) _ i(2)] obtain t where "pool_step s t" "workers t \<noteq> workers s" by metis
  with shutdown_step_drain [OF _ inv shut] show ?thesis by blast
qed

lemma shutdown_drains:
  assumes "pool_inv s" and "shutting_down (pool s)"
  shows "\<exists>t. pool_step\<^sup>*\<^sup>* s t \<and> all_exited t"
  by (rule pool_run.eventually_goal [where steady = "\<lambda>s. shutting_down (pool s)" and variant = drain])
    (use assms shutdown_progress in auto)

lemma shutdown_star:
  assumes "pool_step\<^sup>*\<^sup>* s t" and "pool_inv s" and "shutting_down (pool s)"
  shows "accepted t = accepted s \<and> shutting_down (pool t) \<and> pool_inv t"
  using assms(1)
proof (induction rule: rtranclp_induct)
  case (step t u)
  then show ?case using shutdown_step_drain(1,2) [of t u] pool_run.step_inv [of t u] by auto
qed (use assms in auto)

lemma exited_in_flight: "\<forall>w \<in> set ws. w = W_Exited \<Longrightarrow> in_flight ws = {#}"
  unfolding in_flight_def by (induction ws) auto

section \<open>What the pool promises\<close>

text \<open>
  Property C28. The ring buffer with its head, tail and length is a bounded first-in
  first-out queue: below capacity a push appends to the contents, on a nonempty queue a
  pop returns the first element and removes it, and both keep the ring well formed.
\<close>

theorem ring_refines_queue:
  assumes "queue_inv p"
  shows "(qlen p < qcap p \<longrightarrow> queue_inv (queue_push p j) \<and> queue_list (queue_push p j) = queue_list p @ [j]) \<and>
         (qlen p \<noteq> 0 \<longrightarrow> queue_inv (snd (queue_pop p)) \<and>
           queue_list p = fst (queue_pop p) # queue_list (snd (queue_pop p)))"
proof -
  have "queue_list p \<noteq> []" if "qlen p \<noteq> 0" using that by (metis length_queue_list list.size(3))
  with assms show ?thesis
    by (simp add: queue_push_list queue_pop_list [symmetric] ring.push_invar ring.pop_invar)
qed

definition conn_of :: "int \<Rightarrow> conn" where
  "conn_of fd = \<lparr>conn_fd = fd, conn_listener_index = 0\<rparr>"

text \<open>A ring of capacity 2 whose contents wrap around its end.\<close>

definition ring_example :: thread_pool where
  "ring_example = \<lparr>tp_queue = [conn_of 8, conn_of 7], qcap = 2, qhead = 1, qtail = 0, qlen = 1, shutting_down = False\<rparr>"

theorem ring_refines_queue_witness:
  "queue_inv ring_example \<and> queue_list ring_example = [conn_of 7] \<and>
   queue_list (queue_push ring_example (conn_of 9)) = [conn_of 7, conn_of 9] \<and>
   queue_list (snd (queue_pop ring_example)) = []"
proof -
  have inv: "queue_inv ring_example" by (simp add: queue_inv_def ring_example_def)
  have list: "queue_list ring_example = [conn_of 7]" by (simp add: queue_list_def ring_example_def)
  from ring_refines_queue [OF inv, of "conn_of 9"] inv list show ?thesis by (simp add: ring_example_def)
qed

text \<open>
  Property C11. In every reachable state of the pool the queue stays within its capacity,
  connections are taken in exactly the order in which submits accepted them, and the
  connections taken so far are those handled plus those being handled: none is lost,
  duplicated or reordered.
\<close>

theorem pool_conservation:
  assumes "reach pool_init pool_step s"
  shows "qlen (pool s) \<le> qcap (pool s) \<and> accepted s = taken s @ queue_list (pool s) \<and>
         mset (taken s) = mset (handled s) + in_flight (workers s)"
  using pool_run.reach_inv [OF assms] by (simp add: pool_inv_def inv_account_def queue_inv_def)

text \<open>
  A pool with two workers and one submitting thread just after its creation, and the same
  pool when a first worker sleeps and a connection was submitted while the second was
  still awake: the sleeper has been signalled.
\<close>

definition pool_example :: pool_sys where
  "pool_example = \<lparr>pool = \<lparr>tp_queue = [conn_of 0], qcap = 1, qhead = 0, qtail = 0, qlen = 0, shutting_down = False\<rparr>,
     workers = [W_Ready, W_Ready], submitters = [S_Idle], accepted = [], taken = [], handled = [], rejected = []\<rparr>"

definition pool_example_sub :: pool_sys where
  "pool_example_sub = \<lparr>pool = \<lparr>tp_queue = [conn_of 5], qcap = 1, qhead = 0, qtail = 0, qlen = 1, shutting_down = False\<rparr>,
     workers = [W_Ready, W_Ready], submitters = [S_Idle], accepted = [conn_of 5], taken = [], handled = [], rejected = []\<rparr>"

lemma pool_example_reach: "reach pool_init pool_step pool_example"
proof (rule reach_init)
  have "thread_pool_create True True True (\<lambda>_. 0) 2 1 True 1 = Pool pool_example"
    by (simp add: thread_pool_create_def pool_example_def conn_of_def eval_nat_numeral)
  then show "pool_init pool_example" unfolding pool_init_def by blast
qed

lemma pool_example_sub_reach: "reach pool_init pool_step pool_example_sub"
proof -
  define a where "a = pool_example\<lparr>workers := [W_Wait, W_Ready]\<rparr>"
  define b where "b = a\<lparr>submitters := [S_Ready (conn_of 5)]\<rparr>"
  have "pool_step pool_example a"
    using worker_waits [of 0 pool_example "pool pool_example"]
    by (simp add: a_def pool_example_def worker_section_def)
  moreover have "pool_step a b"
    using submit_called [of 0 a "conn_of 5"] by (simp add: a_def b_def pool_example_def)
  moreover have "pool_step b pool_example_sub"
    using submit_pushes [of 0 b "conn_of 5" "queue_push (pool b) (conn_of 5)" S_Idle "[W_Ready, W_Ready]"]
      signal_one [of 0 "workers b" wake_worker]
    by (simp add: a_def b_def pool_example_def pool_example_sub_def submit_section_def queue_push_def)
  ultimately show ?thesis using pool_example_reach by (meson reach_step)
qed

theorem pool_conservation_witness:
  "qlen (pool pool_example_sub) \<le> 1 \<and> mset (taken pool_example_sub) = in_flight (workers pool_example_sub)"
  using pool_conservation [OF pool_example_sub_reach] by (simp add: pool_example_sub_def)

text \<open>
  Property C12. No wake-up is lost. In every reachable state: while a worker sleeps there
  are at least as many awake workers about to take a connection as connections queued;
  while a submitter sleeps there are at least as many awake submitters as free slots; and
  once the pool is shutting down nobody sleeps.
\<close>

theorem pool_no_lost_wakeup:
  assumes "reach pool_init pool_step s"
  shows "(worker_waiting s \<longrightarrow> qlen (pool s) \<le> nready_workers (workers s)) \<and>
         (submitter_waiting s \<longrightarrow> qcap (pool s) - qlen (pool s) \<le> nready_submitters (submitters s)) \<and>
         (shutting_down (pool s) \<longrightarrow> \<not> worker_waiting s \<and> \<not> submitter_waiting s)"
  using pool_run.reach_inv [OF assms] by (auto simp: pool_inv_def inv_wakeup_def)

theorem pool_no_lost_wakeup_witness:
  "\<not> worker_waiting (thread_pool_shutdown pool_example_sub) \<and> \<not> submitter_waiting (thread_pool_shutdown pool_example_sub)"
  using pool_no_lost_wakeup [OF reach_step [OF pool_example_sub_reach pool_shuts_down]]
  by (simp add: thread_pool_shutdown_def del: set_map)

text \<open>
  Property C39. A worker leaves its loop only when the pool is shutting down and the queue
  is empty, so as long as connections are queued or the pool is not shutting down, no
  worker is gone; and while a connection is queued some worker can take a step.
\<close>

theorem pool_workers_stay:
  assumes "reach pool_init pool_step s"
  shows "(W_Exited \<in> set (workers s) \<longrightarrow> shutting_down (pool s) \<and> queue_list (pool s) = []) \<and>
         (qlen (pool s) \<noteq> 0 \<longrightarrow>
           (\<exists>t i. pool_step s t \<and> i < length (workers s) \<and> workers s ! i \<noteq> W_Wait \<and> workers t ! i \<noteq> workers s ! i))"
proof -
  from pool_run.reach_inv [OF assms] have inv: "inv_wakeup s" "inv_exit s" "workers s \<noteq> []"
    by (auto simp: pool_inv_def inv_account_def)
  have "\<exists>t i. pool_step s t \<and> i < length (workers s) \<and> workers s ! i \<noteq> W_Wait \<and> workers t ! i \<noteq> workers s ! i"
    if ne: "qlen (pool s) \<noteq> 0"
  proof -
    have noexit: "W_Exited \<notin> set (workers s)" using inv(2) ne by (auto simp: inv_exit_def)
    have "\<exists>w \<in> set (workers s). w \<noteq> W_Wait"
    proof (rule ccontr)
      assume "\<not> (\<exists>w \<in> set (workers s). w \<noteq> W_Wait)"
      then have "worker_waiting s" "nready_workers (workers s) = 0"
        using inv(3) by (auto simp: nready_workers_def neq_Nil_conv)
      with inv(1) ne show False by (simp add: inv_wakeup_def)
    qed
    then obtain i where i: "i < length (workers s)" "workers s ! i \<noteq> W_Wait" by (auto simp: in_set_conv_nth)
    with noexit worker_can_step [of i s] show ?thesis by (metis nth_mem)
  qed
  moreover have "queue_list (pool s) = []" if "qlen (pool s) = 0" using that by (simp add: queue_list_def)
  ultimately show ?thesis using inv(2) by (auto simp: inv_exit_def)
qed

theorem pool_workers_stay_witness: "\<exists>t. pool_step pool_example_sub t"
  using pool_workers_stay [OF pool_example_sub_reach] by (auto simp: pool_example_sub_def)

text \<open>
  Property C13. \<^verbatim>\<open>thread_pool_destroy\<close> loses nothing: when it returns, no
  connection was accepted after the shutdown began, and the connections handled are
  exactly those ever accepted.
\<close>

theorem destroy_handles_everything:
  assumes "reach pool_init pool_step s" and "thread_pool_destroyed s t"
  shows "accepted t = accepted s \<and> mset (handled t) = mset (accepted s)"
proof -
  let ?s' = "thread_pool_shutdown s"
  have inv: "pool_inv ?s'" "shutting_down (pool ?s')" "accepted ?s' = accepted s"
    using pool_run.reach_inv [OF reach_step [OF assms(1) pool_shuts_down]]
    by (simp_all add: thread_pool_shutdown_def)
  from assms(2) shutdown_star [OF _ inv(1,2)] inv(3)
  have t: "accepted t = accepted s" "pool_inv t" "\<forall>w \<in> set (workers t). w = W_Exited"
    by (auto simp: thread_pool_destroyed_def)
  then have "qlen (pool t) = 0"
    by (auto simp: pool_inv_def inv_exit_def inv_account_def neq_Nil_conv)
  with t show ?thesis
    by (simp add: pool_inv_def inv_account_def exited_in_flight queue_list_def)
qed

text \<open>
  Property C14. \<^verbatim>\<open>thread_pool_destroy\<close> terminates: from every reachable state
  there is a run after the shutdown in which all workers exit, and no run can avoid it
  for ever, because from the shutdown on every step that moves a worker strictly
  decreases the work left and no step increases it.
\<close>

theorem destroy_terminates:
  assumes "reach pool_init pool_step s"
  shows "(\<exists>t. thread_pool_destroyed s t) \<and>
         (\<forall>t u. pool_step\<^sup>*\<^sup>* (thread_pool_shutdown s) t \<and> pool_step t u \<longrightarrow>
           drain u \<le> drain t \<and> (workers u \<noteq> workers t \<longrightarrow> drain u < drain t))"
proof -
  let ?s' = "thread_pool_shutdown s"
  have inv: "pool_inv ?s'" "shutting_down (pool ?s')"
    using pool_run.reach_inv [OF reach_step [OF assms pool_shuts_down]]
    by (simp_all add: thread_pool_shutdown_def)
  from shutdown_drains [OF inv] have "\<exists>t. pool_step\<^sup>*\<^sup>* ?s' t \<and> all_exited t" .
  moreover have "drain u \<le> drain t \<and> (workers u \<noteq> workers t \<longrightarrow> drain u < drain t)"
    if "pool_step\<^sup>*\<^sup>* ?s' t" "pool_step t u" for t u
    using shutdown_step_drain(3,4) [OF that(2)] shutdown_star [OF that(1) inv] by blast
  ultimately show ?thesis by (auto simp: thread_pool_destroyed_def all_exited_def)
qed

theorem destroy_terminates_witness: "\<exists>t. thread_pool_destroyed pool_example_sub t"
  using destroy_terminates [OF pool_example_sub_reach] by blast

text \<open>
  A destroyed instance of the example pool: its one connection was handled.
\<close>

lemma pool_example_destroyed:
  obtains t where "thread_pool_destroyed pool_example_sub t"
proof -
  have inv: "pool_inv (thread_pool_shutdown pool_example_sub)"
    using pool_run.reach_inv [OF reach_step [OF pool_example_sub_reach pool_shuts_down]] .
  have "shutting_down (pool (thread_pool_shutdown pool_example_sub))" by (simp add: thread_pool_shutdown_def)
  with shutdown_drains [OF inv] that show ?thesis by (auto simp: thread_pool_destroyed_def all_exited_def)
qed

theorem destroy_handles_everything_witness:
  "\<exists>t. thread_pool_destroyed pool_example_sub t \<and> mset (handled t) = {#conn_of 5#}"
proof -
  obtain t where t: "thread_pool_destroyed pool_example_sub t" by (rule pool_example_destroyed)
  with destroy_handles_everything [OF pool_example_sub_reach t] show ?thesis
    by (auto simp: pool_example_sub_def)
qed

lemma first_create_error_None:
  "first_create_error err i n = None \<longleftrightarrow> (\<forall>k < n. err (i + k) = 0)"
  by (induction n arbitrary: i) (auto simp: less_Suc_eq_0_disj)

lemma first_create_error_Some:
  "first_create_error err i n = Some k \<Longrightarrow> i \<le> k \<and> k < i + n \<and> err k \<noteq> 0 \<and> (\<forall>m. i \<le> m \<and> m < k \<longrightarrow> err m = 0)"
proof (induction n arbitrary: i)
  case (Suc n)
  show ?case
  proof (cases "err i = 0")
    case True
    with Suc.prems Suc.IH [of "Suc i"]
    have IH: "Suc i \<le> k" "k < Suc i + n" "err k \<noteq> 0" "\<And>m. Suc i \<le> m \<Longrightarrow> m < k \<Longrightarrow> err m = 0" by auto
    have "err m = 0" if "i \<le> m" "m < k" for m
      using that True IH(4) by (cases "m = i") auto
    with IH show ?thesis by auto
  qed (use Suc.prems in auto)
qed simp

text \<open>
  \<^verbatim>\<open>thread_pool_create\<close> succeeds exactly when its arguments are
  valid, all allocations succeed and every thread can be created; it then has an empty
  queue of the requested capacity and the requested number of workers. When creating
  thread \<open>i\<close> is the first to fail, the error of that call is reported and exactly the
  \<open>i\<close> threads before it are joined.
\<close>

theorem thread_pool_create_cases:
  "case thread_pool_create pok tok qok err n cap srv nsub of
     Pool_Invalid \<Rightarrow> n = 0 \<or> cap = 0 \<or> \<not> srv
   | Pool_No_Memory \<Rightarrow> 0 < n \<and> 0 < cap \<and> srv \<and> \<not> (pok \<and> tok \<and> qok)
   | Pool_Thread_Error e i \<Rightarrow> i < n \<and> e = err i \<and> e \<noteq> 0 \<and> (\<forall>m < i. err m = 0)
   | Pool s \<Rightarrow> 0 < n \<and> (\<forall>m < n. err m = 0) \<and> length (workers s) = n \<and> qcap (pool s) = cap \<and>
       queue_inv (pool s) \<and> queue_list (pool s) = []"
  unfolding thread_pool_create_def
  by (auto simp: Let_def first_create_error_None queue_inv_def queue_list_def
      dest: first_create_error_Some split: option.splits)

theorem thread_pool_create_cases_witness:
  "thread_pool_create True True True (\<lambda>i. if i = 1 then 11 else 0) 2 1 True 1 = Pool_Thread_Error 11 1 \<and>
   (\<lambda>i::nat. if i = 1 then 11 else 0 :: int) 0 = 0"
  using thread_pool_create_cases [where err = "\<lambda>i. if i = 1 then 11 else 0" and n = 2 and cap = 1 and srv = True
    and pok = True and tok = True and qok = True and nsub = 1]
  by (simp add: thread_pool_create_def eval_nat_numeral)

end
