(* ===== verification/Server.thy ===== *)
theory Server
  imports Thread_Pool
begin

text \<open>
  The server (\<^verbatim>\<open>api/server.c\<close>): creation of the listening sockets, the accept loop
  and the clean-up. The results of the socket calls are arguments; the descriptors that
  are open and the paths that were unlinked are part of the results, so that the theorems
  can say what is leaked, closed twice or closed without having been opened.
\<close>

section \<open>Endpoints\<close>

datatype endpoint_type = EP_UNIX | EP_TCP

record server_endpoint =
  ep_type :: endpoint_type
  ep_host :: "string option"
  ep_port :: "string option"
  ep_path :: "string option"
  ep_backlog :: int

record listener =
  l_cfg :: server_endpoint
  l_fd :: int
  l_label :: string

abbreviation (input) DEFAULT_BACKLOG :: int where "DEFAULT_BACKLOG \<equiv> 256"
abbreviation (input) DEFAULT_WORKERS :: nat where "DEFAULT_WORKERS \<equiv> 8"
abbreviation (input) DEFAULT_QCAP :: nat where "DEFAULT_QCAP \<equiv> 128"

text \<open>The label is cut to the 127 characters that fit its array.\<close>

definition listener_format_label :: "server_endpoint \<Rightarrow> string" where
  "listener_format_label ep =
     take 127
       (case ep_type ep of
          EP_TCP \<Rightarrow>
            ''tcp:'' @ (case ep_host ep of Some h \<Rightarrow> h | None \<Rightarrow> ''*'') @ '':'' @
              (case ep_port ep of Some q \<Rightarrow> q | None \<Rightarrow> ''?'')
        | EP_UNIX \<Rightarrow> ''unix:'' @ (case ep_path ep of Some q \<Rightarrow> q | None \<Rightarrow> ''(null)''))"

section \<open>Sockets\<close>

text \<open>The results of \<^verbatim>\<open>socket\<close>, \<^verbatim>\<open>bind\<close> and \<^verbatim>\<open>listen\<close> for one address.\<close>

record sock_calls =
  sc_socket :: int
  sc_bind :: int
  sc_listen :: int

text \<open>Both return the descriptor or -1, and the set of open descriptors.\<close>

definition make_unix_listener :: "sock_calls \<Rightarrow> int set \<Rightarrow> int \<times> int set" where
  "make_unix_listener sc open_fds =
     (if sc_socket sc < 0 then (- 1, open_fds)
      else
        let fds = insert (sc_socket sc) open_fds
        in if sc_bind sc \<noteq> 0 then (- 1, fds - {sc_socket sc})
           else if sc_listen sc \<noteq> 0 then (- 1, fds - {sc_socket sc})
           else (sc_socket sc, fds))"

fun tcp_candidates :: "sock_calls list \<Rightarrow> int set \<Rightarrow> int \<times> int set" where
  "tcp_candidates [] open_fds = (- 1, open_fds)"
| "tcp_candidates (sc # scs) open_fds =
     (if sc_socket sc < 0 then tcp_candidates scs open_fds
      else
        let fds = insert (sc_socket sc) open_fds
        in if sc_bind sc = 0 \<and> sc_listen sc = 0 then (sc_socket sc, fds)
           else tcp_candidates scs (fds - {sc_socket sc}))"

text \<open>\<open>None\<close> stands for a failed \<^verbatim>\<open>getaddrinfo\<close>.\<close>

definition make_tcp_listener :: "sock_calls list option \<Rightarrow> int set \<Rightarrow> int \<times> int set" where
  "make_tcp_listener res open_fds =
     (case res of None \<Rightarrow> (- 1, open_fds) | Some scs \<Rightarrow> tcp_candidates scs open_fds)"

text \<open>What the operating system answers for one endpoint.\<close>

datatype os_answer = Os_Unix sock_calls | Os_Tcp "sock_calls list option"

definition open_listener :: "server_endpoint \<Rightarrow> os_answer \<Rightarrow> int set \<Rightarrow> int \<times> int set" where
  "open_listener ep os open_fds =
     (case ep_type ep of
        EP_UNIX \<Rightarrow>
          (case ep_path ep of
             None \<Rightarrow> (- 1, open_fds)
           | Some _ \<Rightarrow> (case os of Os_Unix sc \<Rightarrow> make_unix_listener sc open_fds | Os_Tcp _ \<Rightarrow> (- 1, open_fds)))
      | EP_TCP \<Rightarrow>
          (case ep_port ep of
             None \<Rightarrow> (- 1, open_fds)
           | Some _ \<Rightarrow> (case os of Os_Tcp r \<Rightarrow> make_tcp_listener r open_fds | Os_Unix _ \<Rightarrow> (- 1, open_fds))))"

section \<open>Listeners\<close>

text \<open>An entry of the zeroed array: descriptor 0, type 0 and null pointers.\<close>

definition zero_listener :: listener where
  "zero_listener = \<lparr>l_cfg = \<lparr>ep_type = EP_UNIX, ep_host = None, ep_port = None, ep_path = None, ep_backlog = 0\<rparr>,
     l_fd = 0, l_label = []\<rparr>"

text \<open>
  The loop of \<^verbatim>\<open>server_listeners_init\<close>: the entries so far, then the endpoints
  left; on the first failure the entries behind stay zeroed and -1 is returned.
\<close>

fun listeners_loop ::
  "(server_endpoint \<times> os_answer) list \<Rightarrow> listener list \<Rightarrow> int set \<Rightarrow> int \<times> listener list \<times> int set" where
  "listeners_loop [] ls fds = (0, ls, fds)"
| "listeners_loop ((ep, os) # eps) ls fds =
     (case open_listener ep os fds of (fd, fds') \<Rightarrow>
        (let ls' = ls @ [\<lparr>l_cfg = ep, l_fd = fd, l_label = listener_format_label ep\<rparr>]
         in if fd < 0 then (- 1, ls' @ replicate (length eps) zero_listener, fds')
            else listeners_loop eps ls' fds'))"

definition server_listeners_init ::
  "bool \<Rightarrow> (server_endpoint \<times> os_answer) list \<Rightarrow> int set \<Rightarrow> int \<times> listener list option \<times> int set" where
  "server_listeners_init calloc_ok eps fds =
     (if \<not> calloc_ok then (- 1, None, fds)
      else (case listeners_loop eps [] fds of (rc, ls, fds') \<Rightarrow> (rc, Some ls, fds')))"

text \<open>The descriptors closed and the paths unlinked, in order.\<close>

definition closed_fds :: "listener list \<Rightarrow> int list" where
  "closed_fds ls = filter (\<lambda>fd. 0 \<le> fd) (map l_fd ls)"

definition unlinked_paths :: "listener list \<Rightarrow> string list" where
  "unlinked_paths ls =
     concat (map (\<lambda>l. if ep_type (l_cfg l) = EP_UNIX then (case ep_path (l_cfg l) of None \<Rightarrow> [] | Some q \<Rightarrow> [q]) else []) ls)"

definition server_listeners_destroy :: "listener list option \<Rightarrow> int set \<Rightarrow> int set \<times> string list" where
  "server_listeners_destroy ls fds =
     (case ls of
        None \<Rightarrow> (fds, [])
      | Some ls \<Rightarrow> (fds - set (closed_fds ls), unlinked_paths ls))"

section \<open>The server object\<close>

text \<open>
  The server is allocated without clearing, so its pool pointer is indeterminate until it
  is assigned.
\<close>

datatype pool_ref = Pool_Garbage | Pool_Null | Pool_At pool_sys

record server =
  sv_token :: "string option"
  sv_listeners :: "listener list option"
  sv_pool :: pool_ref
  sv_stop :: bool

record server_config =
  sc_endpoints :: "(server_endpoint \<times> os_answer) list option"
  sc_token :: "string option"
  sc_nworkers :: nat
  sc_queue_capacity :: nat

definition server_destroy :: "server option \<Rightarrow> int set \<Rightarrow> (int set \<times> string list) cres" where
  "server_destroy s fds =
     (case s of
        None \<Rightarrow> Inr (fds, [])
      | Some s \<Rightarrow>
          if sv_pool s = Pool_Garbage then Inl Uninit_Read
          else Inr (server_listeners_destroy (sv_listeners s) fds))"

text \<open>\<open>mk_pool\<close> is \<^verbatim>\<open>thread_pool_create\<close> for the given numbers of workers and slots.\<close>

definition server_create ::
  "bool \<Rightarrow> bool \<Rightarrow> bool \<Rightarrow> bool \<Rightarrow> (nat \<Rightarrow> nat \<Rightarrow> pool_result) \<Rightarrow> server_config option \<Rightarrow> int set
   \<Rightarrow> (server option \<times> int set) cres" where
  "server_create has_pyoneer has_logger malloc_ok calloc_ok mk_pool cfg fds =
     (case cfg of
        None \<Rightarrow> Inr (None, fds)
      | Some cfg \<Rightarrow>
          if \<not> has_pyoneer \<or> \<not> has_logger then Inr (None, fds)
          else
            (case sc_endpoints cfg of
               None \<Rightarrow> Inr (None, fds)
             | Some eps \<Rightarrow>
                 if eps = [] then Inr (None, fds)
                 else if \<not> malloc_ok then Inr (None, fds)
                 else
                   (case server_listeners_init calloc_ok eps fds of (rc, ls, fds') \<Rightarrow>
                      (let s = \<lparr>sv_token = map_option c_str (sc_token cfg), sv_listeners = ls, sv_pool = Pool_Garbage, sv_stop = False\<rparr>
                       in if rc \<noteq> 0 then map_sum id (\<lambda>(fds, ps). (None, fds)) (server_destroy (Some s) fds')
                          else
                            (case mk_pool (if sc_nworkers cfg \<noteq> 0 then sc_nworkers cfg else DEFAULT_WORKERS)
                                    (if sc_queue_capacity cfg \<noteq> 0 then sc_queue_capacity cfg else DEFAULT_QCAP) of
                               Pool p \<Rightarrow> Inr (Some (s\<lparr>sv_pool := Pool_At p\<rparr>), fds')
                             | _ \<Rightarrow> map_sum id (\<lambda>(fds, ps). (None, fds)) (server_destroy (Some (s\<lparr>sv_pool := Pool_Null\<rparr>)) fds'))))))"

definition server_stop :: "server option \<Rightarrow> server option" where
  "server_stop s =
     (case s of
        None \<Rightarrow> None
      | Some s \<Rightarrow>
          Some (s\<lparr>sv_stop := True,
            sv_pool := (case sv_pool s of Pool_At p \<Rightarrow> Pool_At (thread_pool_shutdown p) | r \<Rightarrow> r)\<rparr>))"

section \<open>The accept loop\<close>

text \<open>
  What one turn of the loop sees: the result of \<^verbatim>\<open>poll\<close> and, for each listener, no
  event, a failed \<^verbatim>\<open>accept\<close>, or a connection and the result of submitting it.
\<close>

datatype listener_event = No_Event | Accept_Fails | Accepts int int

datatype poll_result = Poll_EINTR | Poll_Error | Poll_Timeout | Poll_Ready "listener_event list"

record run_log =
  rl_submitted :: "conn list"
  rl_closed :: "int list"

fun accept_round :: "nat \<Rightarrow> listener_event list \<Rightarrow> run_log \<Rightarrow> run_log" where
  "accept_round i [] log = log"
| "accept_round i (e # es) log =
     accept_round (Suc i) es
       (case e of
          Accepts fd rc \<Rightarrow>
            if rc \<noteq> 0 then log\<lparr>rl_closed := rl_closed log @ [fd]\<rparr>
            else log\<lparr>rl_submitted := rl_submitted log @ [\<lparr>conn_fd = fd, conn_listener_index = int i\<rparr>]\<rparr>
        | _ \<Rightarrow> log)"

text \<open>
  The loop over the turns: each has the stop flag as read at its head. The result says
  whether the loop has ended within the given turns.
\<close>

fun server_loop :: "(bool \<times> poll_result) list \<Rightarrow> run_log \<Rightarrow> run_log \<times> bool" where
  "server_loop [] log = (log, False)"
| "server_loop ((stop, pr) # rounds) log =
     (if stop then (log, True)
      else
        (case pr of
           Poll_EINTR \<Rightarrow> server_loop rounds log
         | Poll_Error \<Rightarrow> (log, True)
         | Poll_Timeout \<Rightarrow> server_loop rounds log
         | Poll_Ready es \<Rightarrow> server_loop rounds (accept_round 0 es log)))"

definition server_run :: "bool \<Rightarrow> server option \<Rightarrow> (bool \<times> poll_result) list \<Rightarrow> int option \<times> run_log" where
  "server_run calloc_ok s rounds =
     (let log = \<lparr>rl_submitted = [], rl_closed = []\<rparr>
      in if s = None then (Some (- 1), log)
         else if \<not> calloc_ok then (Some (- 1), log)
         else (case server_loop rounds log of (log, ended) \<Rightarrow> (if ended then Some 0 else None, log)))"

section \<open>Descriptors\<close>

lemma make_unix_listener_fds:
  "make_unix_listener sc fds = (fd, fds') \<Longrightarrow> fds' \<subseteq> insert fd fds \<and> (fd < 0 \<longrightarrow> fds' \<subseteq> fds)"
  by (auto simp: make_unix_listener_def Let_def split: if_splits)

lemma tcp_candidates_fds:
  "tcp_candidates scs fds = (fd, fds') \<Longrightarrow> fds' \<subseteq> insert fd fds \<and> (fd < 0 \<longrightarrow> fds' \<subseteq> fds)"
proof (induction scs arbitrary: fds)
  case (Cons sc scs)
  show ?case
  proof (cases "0 \<le> sc_socket sc \<and> sc_bind sc = 0 \<and> sc_listen sc = 0")
    case True
    with Cons.prems show ?thesis by (auto simp: Let_def)
  next
    case False
    with Cons.prems Cons.IH [of fds] Cons.IH [of "insert (sc_socket sc) fds - {sc_socket sc}"] show ?thesis
      by (auto simp: Let_def split: if_splits)
  qed
qed auto

lemma open_listener_fds:
  "open_listener ep os fds = (fd, fds') \<Longrightarrow> fds' \<subseteq> insert fd fds \<and> (fd < 0 \<longrightarrow> fds' \<subseteq> fds)"
  by (auto simp: open_listener_def make_tcp_listener_def dest: make_unix_listener_fds tcp_candidates_fds
      split: endpoint_type.splits option.splits os_answer.splits)

lemma closed_fds_simps [simp]:
  "closed_fds [] = []"
  "closed_fds (l # ls) = (if 0 \<le> l_fd l then [l_fd l] else []) @ closed_fds ls"
  "closed_fds (ls @ ks) = closed_fds ls @ closed_fds ks"
  by (simp_all add: closed_fds_def)

lemma listeners_loop_fds:
  assumes "listeners_loop eps ls fds = (rc, ls', fds')" and "fds \<subseteq> base \<union> set (closed_fds ls)"
  shows "fds' \<subseteq> base \<union> set (closed_fds ls') \<and> length ls' = length ls + length eps \<and>
    (rc = 0 \<longrightarrow> (\<forall>l \<in> set ls'. l \<in> set ls \<or> 0 \<le> l_fd l)) \<and> (rc = 0 \<or> rc = - 1)"
  using assms
proof (induction eps arbitrary: ls fds)
  case (Cons e eps)
  obtain ep os where e: "e = (ep, os)" by fastforce
  obtain fd fds1 where op: "open_listener ep os fds = (fd, fds1)" by fastforce
  let ?ls = "ls @ [\<lparr>l_cfg = ep, l_fd = fd, l_label = listener_format_label ep\<rparr>]"
  from open_listener_fds [OF op] Cons.prems(2) have sub: "fds1 \<subseteq> base \<union> set (closed_fds ?ls)"
    by (cases "fd < 0") (auto simp: closed_fds_def)
  show ?case
  proof (cases "fd < 0")
    case True
    with Cons.prems(1) e op sub show ?thesis by (auto simp: Let_def)
  next
    case False
    with Cons.prems(1) e op have "listeners_loop eps ?ls fds1 = (rc, ls', fds')" by (simp add: Let_def)
    from Cons.IH [OF this sub] False show ?thesis by auto
  qed
qed auto

lemma server_listeners_fds:
  assumes "server_listeners_init calloc_ok eps fds = (rc, ls, fds')"
  shows "fst (server_listeners_destroy ls fds') \<subseteq> fds \<and>
    (rc = 0 \<longrightarrow> (\<exists>ks. ls = Some ks \<and> length ks = length eps \<and> (\<forall>l \<in> set ks. 0 \<le> l_fd l)))"
proof (cases calloc_ok)
  case True
  with assms obtain ks where ks: "ls = Some ks" "listeners_loop eps [] fds = (rc, ks, fds')"
    by (auto simp: server_listeners_init_def split: prod.splits)
  from listeners_loop_fds [OF ks(2), of fds] ks(1) show ?thesis
    by (auto simp: server_listeners_destroy_def closed_fds_def)
qed (use assms in \<open>simp add: server_listeners_init_def server_listeners_destroy_def\<close>)

text \<open>
  Property C34. No descriptor leaks: after \<^verbatim>\<open>server_listeners_init\<close> succeeded or
  failed, with whatever socket call failing where, \<^verbatim>\<open>server_listeners_destroy\<close> leaves
  no descriptor open that was not open before; on success there is one listener with an
  open descriptor per endpoint.
\<close>

theorem listeners_do_not_leak:
  assumes "server_listeners_init calloc_ok eps fds = (rc, ls, fds')"
  shows "fst (server_listeners_destroy ls fds') \<subseteq> fds \<and>
    (rc = 0 \<longrightarrow> (\<exists>ks. ls = Some ks \<and> length ks = length eps \<and> (\<forall>l \<in> set ks. 0 \<le> l_fd l)))"
  using assms by (rule server_listeners_fds)

text \<open>Two endpoints, of which the first cannot be bound.\<close>

definition eps_example :: "(server_endpoint \<times> os_answer) list" where
  "eps_example =
     [(\<lparr>ep_type = EP_TCP, ep_host = Some ''0.0.0.0'', ep_port = Some ''80'', ep_path = None, ep_backlog = 256\<rparr>,
        Os_Tcp (Some [\<lparr>sc_socket = 5, sc_bind = - 1, sc_listen = 0\<rparr>])),
      (\<lparr>ep_type = EP_UNIX, ep_host = None, ep_port = None, ep_path = Some ''/tmp/s'', ep_backlog = 256\<rparr>,
        Os_Unix \<lparr>sc_socket = 6, sc_bind = 0, sc_listen = 0\<rparr>)]"

lemma eps_example_init:
  "\<exists>ls. server_listeners_init True eps_example {0, 1, 2} = (- 1, Some ls, {0, 1, 2}) \<and> 0 \<in> set (closed_fds ls)"
  by (simp add: server_listeners_init_def eps_example_def open_listener_def make_tcp_listener_def zero_listener_def Let_def)

theorem listeners_do_not_leak_witness:
  "\<exists>ls. server_listeners_init True eps_example {0, 1, 2} = (- 1, ls, {0, 1, 2}) \<and>
    fst (server_listeners_destroy ls {0, 1, 2}) \<subseteq> {0, 1, 2}"
proof -
  obtain ls where init: "server_listeners_init True eps_example {0, 1, 2} = (- 1, Some ls, {0, 1, 2})"
    using eps_example_init by blast
  with listeners_do_not_leak [OF init] show ?thesis by blast
qed

text \<open>
  When a listener cannot be created, \<^verbatim>\<open>server_create\<close> does not return
  NULL but reads the pool pointer that was never set; and were that pointer null, the
  clean-up would close descriptor 0, which the server never opened, if an endpoint behind
  the failing one was not reached.
\<close>

theorem failed_listener_uninitialised:
  assumes "server_listeners_init calloc_ok eps fds = (rc, ls, fds')" and "rc \<noteq> 0" and "eps \<noteq> []"
  shows "server_create True True True calloc_ok mk_pool
     (Some \<lparr>sc_endpoints = Some eps, sc_token = tok, sc_nworkers = n, sc_queue_capacity = q\<rparr>) fds = Inl Uninit_Read \<and>
     (\<forall>ks. ls = Some ks \<and> (\<exists>l \<in> set ks. l = zero_listener) \<longrightarrow> 0 \<in> set (closed_fds ks))"
proof -
  have "0 \<in> set (closed_fds ks)" if "zero_listener \<in> set ks" for ks
    using that by (force simp: closed_fds_def zero_listener_def image_iff)
  with assms show ?thesis by (auto simp: server_create_def server_destroy_def Let_def)
qed

theorem failed_listener_uninitialised_witness:
  "server_create True True True True (\<lambda>n q. Pool_No_Memory)
     (Some \<lparr>sc_endpoints = Some eps_example, sc_token = None, sc_nworkers = 8, sc_queue_capacity = 128\<rparr>) {0, 1, 2} = Inl Uninit_Read"
proof -
  obtain ls where init: "server_listeners_init True eps_example {0, 1, 2} = (- 1, Some ls, {0, 1, 2})"
    using eps_example_init by blast
  from failed_listener_uninitialised [OF init, of "\<lambda>n q. Pool_No_Memory" None 8 128] show ?thesis
    by (simp add: eps_example_def)
qed

section \<open>The accept loop keeps every connection\<close>

fun accepted_fds :: "listener_event list \<Rightarrow> int list" where
  "accepted_fds [] = []"
| "accepted_fds (Accepts fd rc # es) = fd # accepted_fds es"
| "accepted_fds (e # es) = accepted_fds es"

text \<open>The connections accepted in the turns the loop executes.\<close>

fun seen_fds :: "(bool \<times> poll_result) list \<Rightarrow> int list" where
  "seen_fds [] = []"
| "seen_fds ((stop, pr) # rounds) =
     (if stop \<or> pr = Poll_Error then []
      else (case pr of Poll_Ready es \<Rightarrow> accepted_fds es | _ \<Rightarrow> []) @ seen_fds rounds)"

definition log_fds :: "run_log \<Rightarrow> int multiset" where
  "log_fds log = mset (map conn_fd (rl_submitted log)) + mset (rl_closed log)"

lemma accept_round_fds: "log_fds (accept_round i es log) = log_fds log + mset (accepted_fds es)"
proof (induction es arbitrary: i log)
  case (Cons e es)
  then show ?case by (cases e) (simp_all add: log_fds_def)
qed simp

lemma server_loop_fds: "log_fds (fst (server_loop rounds log)) = log_fds log + mset (seen_fds rounds)"
proof (induction rounds arbitrary: log)
  case (Cons r rounds)
  obtain stop pr where "r = (stop, pr)" by fastforce
  with Cons show ?case by (cases pr) (simp_all add: accept_round_fds)
qed simp

lemma server_loop_ends: "snd (server_loop rounds log) \<longleftrightarrow> (\<exists>r \<in> set rounds. fst r \<or> snd r = Poll_Error)"
proof (induction rounds arbitrary: log)
  case (Cons r rounds)
  obtain stop pr where "r = (stop, pr)" by fastforce
  with Cons show ?case by (cases pr) auto
qed simp

lemma server_run_ends:
  "fst (server_run calloc_ok (Some s) rounds) =
     (if \<not> calloc_ok then Some (- 1) else if \<exists>r \<in> set rounds. fst r \<or> snd r = Poll_Error then Some 0 else None)"
  by (auto simp: server_run_def Let_def split_beta server_loop_ends)


end
