(* ===== verification/Json_Value.thy ===== *)
theory Json_Value
  imports Prelude
begin

unbundle bit_operations_syntax

text \<open>
  JSON values as \<^verbatim>\<open>shared/json.h\<close> declares them, the construction functions of
  \<^verbatim>\<open>shared/json-builder.c\<close> and the helpers of \<^verbatim>\<open>shared/json-helpers.c\<close>.
  A value is the tree below a pointer; the parent links and iteration counters that the
  library keeps inside the nodes are the walker state of the serializer theory. A
  function that mutates a container returns the updated container.

  An allocation whose result the code tests is a boolean argument (\<open>True\<close>: it
  succeeded), so that the early return is a branch of the definition; an allocation whose
  result is used untested is taken to succeed.
\<close>

section \<open>Values\<close>

text \<open>
  A double is its IEEE 754 bit pattern; \<^verbatim>\<open>u.boolean\<close> is a C \<^verbatim>\<open>int\<close>;
  the bytes of a string or of a name may contain NUL (see \<^const>\<open>c_str\<close>).
\<close>

datatype json_value =
    JNone
  | JObject "(string \<times> json_value) list"
  | JArray "json_value list"
  | JInteger json_int
  | JDouble "64 word"
  | JString string
  | JBoolean int
  | JNull

text \<open>The codes of the enumeration \<^verbatim>\<open>json_type\<close>, in its order.\<close>

fun json_type :: "json_value \<Rightarrow> int" where
  "json_type JNone = 0"
| "json_type (JObject _) = 1"
| "json_type (JArray _) = 2"
| "json_type (JInteger _) = 3"
| "json_type (JDouble _) = 4"
| "json_type (JString _) = 5"
| "json_type (JBoolean _) = 6"
| "json_type JNull = 7"

section \<open>Lookup\<close>

text \<open>The loop of \<^verbatim>\<open>json_object_get_value\<close>: the first entry whose name compares equal.\<close>

fun json_lookup :: "(string \<times> json_value) list \<Rightarrow> string \<Rightarrow> json_value option" where
  "json_lookup [] name = None"
| "json_lookup ((k, v) # kvs) name = (if streq k name then Some v else json_lookup kvs name)"

definition json_object_get_value :: "json_value option \<Rightarrow> string option \<Rightarrow> json_value option" where
  "json_object_get_value obj name =
     (case obj of
        None \<Rightarrow> None
      | Some v \<Rightarrow>
          (case name of
             None \<Rightarrow> None
           | Some n \<Rightarrow> (case v of JObject kvs \<Rightarrow> json_lookup kvs n | _ \<Rightarrow> None)))"

abbreviation get_value :: "json_value \<Rightarrow> string \<Rightarrow> json_value option" where
  "get_value v name \<equiv> json_object_get_value (Some v) (Some name)"

section \<open>Construction\<close>

definition json_array_new :: "bool \<Rightarrow> bool \<Rightarrow> nat \<Rightarrow> json_value option" where
  "json_array_new calloc_ok malloc_ok len =
     (if \<not> calloc_ok then None
      else if \<not> malloc_ok then None
      else Some (JArray []))"

definition json_object_new :: "bool \<Rightarrow> bool \<Rightarrow> nat \<Rightarrow> json_value option" where
  "json_object_new calloc_ok values_ok len =
     (if \<not> calloc_ok then None
      else if \<not> values_ok then None
      else Some (JObject []))"

definition json_string_new_nocopy :: "bool \<Rightarrow> nat \<Rightarrow> string \<Rightarrow> json_value option" where
  "json_string_new_nocopy calloc_ok len buf =
     (if \<not> calloc_ok then None else Some (JString (take len buf)))"

definition json_string_new_length :: "bool \<Rightarrow> bool \<Rightarrow> nat \<Rightarrow> string \<Rightarrow> json_value option" where
  "json_string_new_length malloc_ok calloc_ok len buf =
     (if \<not> malloc_ok then None
      else json_string_new_nocopy calloc_ok len (take len buf))"

definition json_string_new :: "bool \<Rightarrow> bool \<Rightarrow> string \<Rightarrow> json_value option" where
  "json_string_new malloc_ok calloc_ok buf =
     json_string_new_length malloc_ok calloc_ok (strlen buf) buf"

definition json_integer_new :: "bool \<Rightarrow> json_int \<Rightarrow> json_value option" where
  "json_integer_new calloc_ok integer = (if \<not> calloc_ok then None else Some (JInteger integer))"

definition json_double_new :: "bool \<Rightarrow> 64 word \<Rightarrow> json_value option" where
  "json_double_new calloc_ok dbl = (if \<not> calloc_ok then None else Some (JDouble dbl))"

definition json_boolean_new :: "bool \<Rightarrow> int \<Rightarrow> json_value option" where
  "json_boolean_new calloc_ok b = (if \<not> calloc_ok then None else Some (JBoolean b))"

definition json_null_new :: "bool \<Rightarrow> json_value option" where
  "json_null_new calloc_ok = (if \<not> calloc_ok then None else Some JNull)"

text \<open>
  Pushing returns \<open>Inr (Some c)\<close> with the updated container \<open>c\<close>, \<open>Inr None\<close>
  where the source returns NULL and leaves the container as it was, and \<open>Inl\<close> where
  the source fails: \<^verbatim>\<open>assert\<close> on the container's type, and
  \<^verbatim>\<open>builderize\<close>, which reads a field of the pushed value and so dereferences a
  NULL value. \<open>builder_ok\<close> stands for the allocations of \<^verbatim>\<open>builderize\<close>,
  \<open>realloc_ok\<close> for growing the array of entries.
\<close>

definition builderize :: "bool \<Rightarrow> json_value option \<Rightarrow> bool cres" where
  "builderize names_ok value = (case value of None \<Rightarrow> Inl Null_Deref | Some _ \<Rightarrow> Inr names_ok)"

definition json_array_push ::
  "bool \<Rightarrow> bool \<Rightarrow> json_value option \<Rightarrow> json_value option \<Rightarrow> json_value option cres" where
  "json_array_push builder_ok realloc_ok array value =
     (case array of
        None \<Rightarrow> Inl Null_Deref
      | Some (JArray vs) \<Rightarrow>
          (case builderize builder_ok value of
             Inl e \<Rightarrow> Inl e
           | Inr False \<Rightarrow> Inr None
           | Inr True \<Rightarrow>
               if \<not> realloc_ok then Inr None else Inr (Some (JArray (vs @ [the value]))))
      | Some _ \<Rightarrow> Inl Assert_Fail)"

definition json_object_push_nocopy ::
  "bool \<Rightarrow> bool \<Rightarrow> json_value option \<Rightarrow> nat \<Rightarrow> string \<Rightarrow> json_value option
   \<Rightarrow> json_value option cres" where
  "json_object_push_nocopy builder_ok realloc_ok object name_length name value =
     (case object of
        None \<Rightarrow> Inl Null_Deref
      | Some (JObject kvs) \<Rightarrow>
          (case builderize builder_ok value of
             Inl e \<Rightarrow> Inl e
           | Inr False \<Rightarrow> Inr None
           | Inr True \<Rightarrow>
               if \<not> realloc_ok then Inr None
               else Inr (Some (JObject (kvs @ [(take name_length name, the value)]))))
      | Some _ \<Rightarrow> Inl Assert_Fail)"

definition json_object_push_length ::
  "bool \<Rightarrow> bool \<Rightarrow> bool \<Rightarrow> json_value option \<Rightarrow> nat \<Rightarrow> string \<Rightarrow> json_value option
   \<Rightarrow> json_value option cres" where
  "json_object_push_length malloc_ok builder_ok realloc_ok object name_length name value =
     (case object of
        None \<Rightarrow> Inl Null_Deref
      | Some (JObject kvs) \<Rightarrow>
          if \<not> malloc_ok then Inr None
          else json_object_push_nocopy builder_ok realloc_ok object name_length
                 (take name_length name) value
      | Some _ \<Rightarrow> Inl Assert_Fail)"

definition json_object_push ::
  "bool \<Rightarrow> bool \<Rightarrow> bool \<Rightarrow> json_value option \<Rightarrow> string \<Rightarrow> json_value option
   \<Rightarrow> json_value option cres" where
  "json_object_push malloc_ok builder_ok realloc_ok object name value =
     json_object_push_length malloc_ok builder_ok realloc_ok object (strlen name) name value"

text \<open>
  \<^verbatim>\<open>json_object_merge\<close> moves every entry of the second object behind those of
  the first and frees the second; its third \<^verbatim>\<open>assert\<close> compares the two
  pointers, given here as \<open>same\<close>.
\<close>

definition json_object_merge ::
  "bool \<Rightarrow> bool \<Rightarrow> bool \<Rightarrow> json_value option \<Rightarrow> json_value option \<Rightarrow> json_value option cres" where
  "json_object_merge builder_ok realloc_ok same objectA objectB =
     (case objectA of
        None \<Rightarrow> Inl Null_Deref
      | Some (JObject as) \<Rightarrow>
          (case objectB of
             None \<Rightarrow> Inl Null_Deref
           | Some (JObject bs) \<Rightarrow>
               if same then Inl Assert_Fail
               else if \<not> builder_ok then Inr None
               else if \<not> realloc_ok then Inr None
               else Inr (Some (JObject (as @ bs)))
           | Some _ \<Rightarrow> Inl Assert_Fail)
      | Some _ \<Rightarrow> Inl Assert_Fail)"

section \<open>Sorting by a prototype\<close>

text \<open>
  \<^verbatim>\<open>json_object_sort\<close>: for each entry of the prototype, every entry of the object
  with the same name is swapped to the next output position; the source does not check
  that position against the length. Names are compared by length and
  \<^verbatim>\<open>memcmp\<close>, so bytes after a NUL count here.
\<close>

function sort_inner ::
  "string \<Rightarrow> nat \<Rightarrow> nat \<Rightarrow> (string \<times> json_value) list
   \<Rightarrow> (nat \<times> (string \<times> json_value) list) cres" where
  "sort_inner name j out_index es =
     (if j < length es then
        if fst (es ! j) = name then
          if out_index < length es
          then sort_inner name (Suc j) (Suc out_index) (es[j := es ! out_index, out_index := es ! j])
          else Inl Out_Of_Bounds
        else sort_inner name (Suc j) out_index es
      else Inr (out_index, es))"
  by pat_completeness auto
termination
  by (relation "measure (\<lambda>(name, j, out_index, es). length es - j)") auto

declare sort_inner.simps [simp del]

fun sort_outer ::
  "(string \<times> json_value) list \<Rightarrow> nat \<Rightarrow> (string \<times> json_value) list
   \<Rightarrow> (string \<times> json_value) list cres" where
  "sort_outer [] out_index es = Inr es"
| "sort_outer (p # ps) out_index es =
     (case sort_inner (fst p) 0 out_index es of
        Inl e \<Rightarrow> Inl e
      | Inr (out', es') \<Rightarrow> sort_outer ps out' es')"

definition json_object_sort :: "bool \<Rightarrow> json_value \<Rightarrow> json_value \<Rightarrow> json_value cres" where
  "json_object_sort builder_ok object proto =
     (if \<not> builder_ok then Inr object
      else case (object, proto) of
             (JObject es, JObject ps) \<Rightarrow>
               (case sort_outer ps 0 es of Inl e \<Rightarrow> Inl e | Inr es' \<Rightarrow> Inr (JObject es'))
           | _ \<Rightarrow> Inl Assert_Fail)"

section \<open>Helpers\<close>

text \<open>
  The helpers return 0 or -1 beside the object. \<open>push_ok\<close> bundles the allocations of
  \<^verbatim>\<open>json_object_push\<close>.
\<close>

definition json_object_push_value ::
  "bool \<Rightarrow> json_value option \<Rightarrow> string option \<Rightarrow> json_value option
   \<Rightarrow> (int \<times> json_value option) cres" where
  "json_object_push_value push_ok obj key value =
     (case (obj, key, value) of
        (Some ob, Some k, Some v) \<Rightarrow>
          if json_type ob \<noteq> 1 then Inr (- 1, obj)
          else (case json_object_push push_ok push_ok push_ok obj k value of
                  Inl e \<Rightarrow> Inl e
                | Inr None \<Rightarrow> Inr (- 1, obj)
                | Inr (Some ob') \<Rightarrow> Inr (0, Some ob'))
      | _ \<Rightarrow> Inr (- 1, obj))"

definition json_object_push_string ::
  "bool \<Rightarrow> bool \<Rightarrow> json_value option \<Rightarrow> string option \<Rightarrow> string option
   \<Rightarrow> (int \<times> json_value option) cres" where
  "json_object_push_string new_ok push_ok obj key str =
     (case (obj, key, str) of
        (Some _, Some _, Some s) \<Rightarrow>
          (case json_string_new new_ok new_ok s of
             None \<Rightarrow> Inr (- 1, obj)
           | Some val \<Rightarrow> json_object_push_value push_ok obj key (Some val))
      | _ \<Rightarrow> Inr (- 1, obj))"

definition json_object_push_integer ::
  "bool \<Rightarrow> bool \<Rightarrow> json_value option \<Rightarrow> string option \<Rightarrow> c_int
   \<Rightarrow> (int \<times> json_value option) cres" where
  "json_object_push_integer new_ok push_ok obj key integer =
     (case (obj, key) of
        (Some _, Some _) \<Rightarrow>
          (case json_integer_new new_ok (json_of_int integer) of
             None \<Rightarrow> Inr (- 1, obj)
           | Some val \<Rightarrow> json_object_push_value push_ok obj key (Some val))
      | _ \<Rightarrow> Inr (- 1, obj))"

definition json_object_push_double ::
  "bool \<Rightarrow> bool \<Rightarrow> json_value option \<Rightarrow> string option \<Rightarrow> 64 word
   \<Rightarrow> (int \<times> json_value option) cres" where
  "json_object_push_double new_ok push_ok obj key dbl =
     (case (obj, key) of
        (Some _, Some _) \<Rightarrow>
          (case json_double_new new_ok dbl of
             None \<Rightarrow> Inr (- 1, obj)
           | Some val \<Rightarrow> json_object_push_value push_ok obj key (Some val))
      | _ \<Rightarrow> Inr (- 1, obj))"

definition json_object_push_boolean ::
  "bool \<Rightarrow> bool \<Rightarrow> json_value option \<Rightarrow> string option \<Rightarrow> bool
   \<Rightarrow> (int \<times> json_value option) cres" where
  "json_object_push_boolean new_ok push_ok obj key boolean =
     (case (obj, key) of
        (Some _, Some _) \<Rightarrow>
          (case json_boolean_new new_ok (if boolean then 1 else 0) of
             None \<Rightarrow> Inr (- 1, obj)
           | Some val \<Rightarrow> json_object_push_value push_ok obj key (Some val))
      | _ \<Rightarrow> Inr (- 1, obj))"

definition json_object_push_null ::
  "bool \<Rightarrow> bool \<Rightarrow> json_value option \<Rightarrow> string option \<Rightarrow> (int \<times> json_value option) cres" where
  "json_object_push_null new_ok push_ok obj key =
     (case (obj, key) of
        (Some _, Some _) \<Rightarrow>
          (case json_null_new new_ok of
             None \<Rightarrow> Inr (- 1, obj)
           | Some val \<Rightarrow> json_object_push_value push_ok obj key (Some val))
      | _ \<Rightarrow> Inr (- 1, obj))"

section \<open>Comparison\<close>

text \<open>The C operator \<^verbatim>\<open>==\<close> on doubles, by bit pattern: NaN equals nothing, the two zeros are equal.\<close>

definition dbl_nan :: "64 word \<Rightarrow> bool" where
  "dbl_nan d \<longleftrightarrow> d AND 0x7FF0000000000000 = 0x7FF0000000000000 \<and> d AND 0x000FFFFFFFFFFFFF \<noteq> 0"

definition dbl_zero :: "64 word \<Rightarrow> bool" where
  "dbl_zero d \<longleftrightarrow> d AND 0x7FFFFFFFFFFFFFFF = 0"

definition dbl_eq :: "64 word \<Rightarrow> 64 word \<Rightarrow> bool" where
  "dbl_eq a b \<longleftrightarrow> \<not> dbl_nan a \<and> \<not> dbl_nan b \<and> (a = b \<or> dbl_zero a \<and> dbl_zero b)"

fun json_value_cmp :: "json_value \<Rightarrow> json_value \<Rightarrow> int"
  and json_cmp_elems :: "json_value list \<Rightarrow> json_value list \<Rightarrow> int"
  and json_cmp_entries :: "(string \<times> json_value) list \<Rightarrow> json_value \<Rightarrow> int" where
  "json_value_cmp v1 v2 =
     (if json_type v1 \<noteq> json_type v2 then json_type v1
      else case (v1, v2) of
             (JNone, _) \<Rightarrow> 0
           | (JNull, _) \<Rightarrow> 0
           | (JInteger i, JInteger j) \<Rightarrow> if i = j then 0 else 3
           | (JDouble c, JDouble d) \<Rightarrow> if dbl_eq c d then 0 else 4
           | (JBoolean a, JBoolean b) \<Rightarrow> if a = b then 0 else 6
           | (JString s, JString t) \<Rightarrow> if streq s t then 0 else 5
           | (JArray xs, JArray ys) \<Rightarrow>
               if length xs \<noteq> length ys then 2 else json_cmp_elems xs ys
           | (JObject kvs, JObject kvs') \<Rightarrow>
               if length kvs \<noteq> length kvs' then 1 else json_cmp_entries kvs v2
           | _ \<Rightarrow> - 1)"
| "json_cmp_elems (x # xs) (y # ys) =
     (if json_value_cmp x y \<noteq> 0 then 2 else json_cmp_elems xs ys)"
| "json_cmp_elems _ _ = 0"
| "json_cmp_entries [] v2 = 0"
| "json_cmp_entries ((k, v) # kvs) v2 =
     (case get_value v2 k of
        None \<Rightarrow> 1
      | Some w \<Rightarrow> if json_value_cmp v w \<noteq> 0 then 1 else json_cmp_entries kvs v2)"

definition json_value_compare :: "json_value option \<Rightarrow> json_value option \<Rightarrow> int" where
  "json_value_compare value1 value2 =
     (case (value1, value2) of
        (Some v1, Some v2) \<Rightarrow> json_value_cmp v1 v2
      | _ \<Rightarrow> - 1)"


section \<open>Lookup and construction\<close>

lemma json_lookup_append:
  "json_lookup (kvs @ kvs') n =
     (case json_lookup kvs n of Some v \<Rightarrow> Some v | None \<Rightarrow> json_lookup kvs' n)"
  by (induction kvs) auto

lemma json_lookup_in_set: "json_lookup kvs n = Some v \<Longrightarrow> \<exists>k. (k, v) \<in> set kvs \<and> streq k n"
  by (induction kvs) (auto split: if_splits)

lemma json_lookup_None_iff: "json_lookup kvs n = None \<longleftrightarrow> (\<forall>(k, v) \<in> set kvs. \<not> streq k n)"
  by (induction kvs) (auto split: if_splits)

lemma json_lookup_streq: "streq n m \<Longrightarrow> json_lookup kvs n = json_lookup kvs m"
  by (induction kvs) (auto simp: streq_def)

lemma json_lookup_distinct:
  "distinct (map (c_str \<circ> fst) kvs) \<Longrightarrow> (k, v) \<in> set kvs \<Longrightarrow> json_lookup kvs k = Some v"
  by (induction kvs) (force simp: streq_def image_iff)+

lemma get_value_simps [simp]:
  "get_value (JObject kvs) n = json_lookup kvs n"
  by (simp add: json_object_get_value_def)

lemma json_string_new_ok [simp]: "json_string_new True True s = Some (JString (c_str s))"
  by (simp add: json_string_new_def json_string_new_length_def json_string_new_nocopy_def
      strlen_def)

lemma json_object_push_ok [simp]:
  "json_object_push True True True (Some (JObject kvs)) k (Some v)
     = Inr (Some (JObject (kvs @ [(c_str k, v)])))"
  by (simp add: json_object_push_def json_object_push_length_def json_object_push_nocopy_def
      builderize_def strlen_def)

lemma json_array_push_ok [simp]:
  "json_array_push True True (Some (JArray vs)) (Some v) = Inr (Some (JArray (vs @ [v])))"
  by (simp add: json_array_push_def builderize_def)

lemma json_object_new_ok [simp]: "json_object_new True True n = Some (JObject [])"
  by (simp add: json_object_new_def)

lemma json_object_push_helpers_ok [simp]:
  "json_object_push_value True (Some (JObject kvs)) (Some k) (Some v)
     = Inr (0, Some (JObject (kvs @ [(c_str k, v)])))"
  "json_object_push_string True True (Some (JObject kvs)) (Some k) (Some s)
     = Inr (0, Some (JObject (kvs @ [(c_str k, JString (c_str s))])))"
  "json_object_push_integer True True (Some (JObject kvs)) (Some k) i
     = Inr (0, Some (JObject (kvs @ [(c_str k, JInteger (json_of_int i))])))"
  by (simp_all add: json_object_push_value_def json_object_push_string_def
      json_object_push_integer_def json_integer_new_def)

section \<open>What comparison decides\<close>

text \<open>
  The reference notion: two values are equivalent when they have the same shape, equal
  leaves (strings as C strings, doubles by the C comparison) and their objects are the
  same finite map from names to values, in any order.
\<close>

inductive json_equiv :: "json_value \<Rightarrow> json_value \<Rightarrow> bool" where
  equiv_null: "json_equiv JNull JNull"
| equiv_integer: "json_equiv (JInteger i) (JInteger i)"
| equiv_double: "dbl_eq c d \<Longrightarrow> json_equiv (JDouble c) (JDouble d)"
| equiv_boolean: "json_equiv (JBoolean b) (JBoolean b)"
| equiv_string: "streq s t \<Longrightarrow> json_equiv (JString s) (JString t)"
| equiv_array: "list_all2 json_equiv xs ys \<Longrightarrow> json_equiv (JArray xs) (JArray ys)"
| equiv_object:
    "(\<And>n. rel_option json_equiv (json_lookup kvs n) (json_lookup kvs' n))
     \<Longrightarrow> json_equiv (JObject kvs) (JObject kvs')"

inductive_simps json_equiv_simps [simp]:
  "json_equiv JNone v"
  "json_equiv JNull v"
  "json_equiv (JInteger i) v"
  "json_equiv (JDouble c) v"
  "json_equiv (JBoolean b) v"
  "json_equiv (JString s) v"
  "json_equiv (JArray xs) v"
  "json_equiv (JObject kvs) v"

text \<open>Well-formed values: no \<^verbatim>\<open>json_none\<close> and no duplicate names in an object.\<close>

fun json_wf :: "json_value \<Rightarrow> bool" where
  "json_wf JNone = False"
| "json_wf (JObject kvs) \<longleftrightarrow> distinct (map (c_str \<circ> fst) kvs) \<and> (\<forall>(k, v) \<in> set kvs. json_wf v)"
| "json_wf (JArray vs) \<longleftrightarrow> (\<forall>v \<in> set vs. json_wf v)"
| "json_wf _ = True"

declare json_value_cmp.simps [simp del]

lemma json_lookup_dom:
  "(\<exists>v. json_lookup kvs n = Some v) \<longleftrightarrow> c_str n \<in> set (map (c_str \<circ> fst) kvs)"
  by (induction kvs) (auto simp: streq_def)

lemma same_dom_same_length:
  assumes "distinct (map (c_str \<circ> fst) kvs)" and "distinct (map (c_str \<circ> fst) kvs')"
    and "set (map (c_str \<circ> fst) kvs) = set (map (c_str \<circ> fst) kvs')"
  shows "length kvs = length kvs'"
  using distinct_card [OF assms(1)] distinct_card [OF assms(2)] assms(3) by simp

lemma sub_dom_same_dom:
  assumes "distinct (map (c_str \<circ> fst) kvs)" and "length kvs = length kvs'"
    and "set (map (c_str \<circ> fst) kvs) \<subseteq> set (map (c_str \<circ> fst) kvs')"
  shows "set (map (c_str \<circ> fst) kvs) = set (map (c_str \<circ> fst) kvs')"
proof (rule card_seteq)
  have "card (set (map (c_str \<circ> fst) kvs')) \<le> length kvs'"
    by (metis card_length length_map)
  then show "card (set (map (c_str \<circ> fst) kvs')) \<le> card (set (map (c_str \<circ> fst) kvs))"
    using distinct_card [OF assms(1)] assms(2) by simp
qed (use assms in auto)

lemma json_cmp_elems_0:
  assumes "\<And>x y. x \<in> set xs \<Longrightarrow> y \<in> set ys \<Longrightarrow> json_value_cmp x y = 0 \<longleftrightarrow> json_equiv x y"
    and "length xs = length ys"
  shows "json_cmp_elems xs ys = 0 \<longleftrightarrow> list_all2 json_equiv xs ys"
  using assms(2,1) by (induction xs ys rule: list_induct2) auto

lemma json_cmp_entries_0:
  "json_cmp_entries kvs v2 = 0 \<longleftrightarrow>
     (\<forall>(k, v) \<in> set kvs. \<exists>w. get_value v2 k = Some w \<and> json_value_cmp v w = 0)"
  by (induction kvs) (auto split: option.splits if_splits)

lemma json_equiv_object_iff:
  assumes "distinct (map (c_str \<circ> fst) kvs)" and "distinct (map (c_str \<circ> fst) kvs')"
  shows "json_equiv (JObject kvs) (JObject kvs') \<longleftrightarrow>
    length kvs = length kvs' \<and>
    (\<forall>(k, v) \<in> set kvs. \<exists>w. json_lookup kvs' k = Some w \<and> json_equiv v w)"
    (is "?l \<longleftrightarrow> ?r")
proof
  assume ?l
  then have rel: "\<And>n. rel_option json_equiv (json_lookup kvs n) (json_lookup kvs' n)"
    by simp
  then have "(\<exists>v. json_lookup kvs n = Some v) \<longleftrightarrow> (\<exists>v. json_lookup kvs' n = Some v)" for n
    by (metis not_None_eq option.rel_distinct)
  then have dom: "c_str n \<in> set (map (c_str \<circ> fst) kvs) \<longleftrightarrow> c_str n \<in> set (map (c_str \<circ> fst) kvs')" for n
    by (simp only: json_lookup_dom)
  have "set (map (c_str \<circ> fst) kvs) = set (map (c_str \<circ> fst) kvs')"
    using dom by (auto simp: image_iff)
  then have "length kvs = length kvs'"
    using same_dom_same_length assms by blast
  moreover have "\<exists>w. json_lookup kvs' k = Some w \<and> json_equiv v w" if "(k, v) \<in> set kvs" for k v
    using rel [of k] json_lookup_distinct [OF assms(1) that] by (auto simp: option_rel_Some1)
  ultimately show ?r by auto
next
  assume r: ?r
  have "set (map (c_str \<circ> fst) kvs) \<subseteq> set (map (c_str \<circ> fst) kvs')"
    using r json_lookup_dom [of kvs'] by fastforce
  then have dom: "set (map (c_str \<circ> fst) kvs) = set (map (c_str \<circ> fst) kvs')"
    using sub_dom_same_dom [OF assms(1)] r by blast
  have "rel_option json_equiv (json_lookup kvs n) (json_lookup kvs' n)" for n
  proof (cases "json_lookup kvs n")
    case None
    with dom have "json_lookup kvs' n = None"
      using json_lookup_dom [of kvs n] json_lookup_dom [of kvs' n] by auto
    with None show ?thesis by simp
  next
    case (Some v)
    then obtain k where k: "(k, v) \<in> set kvs" "streq k n"
      using json_lookup_in_set by blast
    with r obtain w where "json_lookup kvs' k = Some w" "json_equiv v w" by auto
    with k Some show ?thesis by (metis json_lookup_streq option.rel_inject(2))
  qed
  then show ?l by simp
qed

lemma json_value_cmp_iff:
  "json_wf v1 \<Longrightarrow> json_wf v2 \<Longrightarrow> json_value_cmp v1 v2 = 0 \<longleftrightarrow> json_equiv v1 v2"
proof (induction v1 arbitrary: v2)
  case (JObject kvs)
  show ?case
  proof (cases v2)
    case v2: (JObject kvs')
    have IH: "json_value_cmp v w = 0 \<longleftrightarrow> json_equiv v w"
      if "(k, v) \<in> set kvs" "json_lookup kvs' k = Some w" for k v w
    proof -
      have "json_wf v" "json_wf w"
        using JObject.prems that json_lookup_in_set [OF that(2)] by (auto simp: v2)
      then show ?thesis using JObject.IH [OF that(1)] by auto
    qed
    have "json_cmp_entries kvs v2 = 0 \<longleftrightarrow>
        (\<forall>(k, v) \<in> set kvs. \<exists>w. json_lookup kvs' k = Some w \<and> json_equiv v w)"
      unfolding json_cmp_entries_0 v2 using IH by fastforce
    then show ?thesis
      using JObject.prems json_equiv_object_iff [of kvs kvs']
      by (auto simp: v2 json_value_cmp.simps [of "JObject kvs" "JObject kvs'"])
  qed (auto simp: json_value_cmp.simps)
next
  case (JArray xs)
  show ?case
  proof (cases v2)
    case v2: (JArray ys)
    have "json_cmp_elems xs ys = 0 \<longleftrightarrow> list_all2 json_equiv xs ys" if "length xs = length ys"
      using JArray that by (intro json_cmp_elems_0) (auto simp: v2)
    then show ?thesis
      by (auto simp: v2 json_value_cmp.simps [of "JArray xs" "JArray ys"] list_all2_lengthD)
  qed (auto simp: json_value_cmp.simps)
qed (case_tac v2; auto simp: json_value_cmp.simps)+

lemma json_cmp_elems_range: "json_cmp_elems xs ys \<in> {0, 2}"
  by (induction xs ys rule: list_induct2') auto

lemma json_cmp_entries_range: "json_cmp_entries kvs v \<in> {0, 1}"
  by (induction kvs) (force split: option.splits)+

lemma json_value_cmp_range: "json_value_cmp v1 v2 \<in> {0, json_type v1}"
  using json_cmp_elems_range json_cmp_entries_range
  by (cases v1; cases v2) (auto simp: json_value_cmp.simps)

section \<open>Sorting permutes and follows the prototype\<close>

lemma swap_facts:
  assumes "j < length es" and "k < length es"
  shows "mset (es[j := es ! k, k := es ! j]) = mset es"
  using assms by (simp add: mset_swap)

lemma sort_inner_correct:
  assumes "out \<le> j" and "\<And>i. out \<le> i \<Longrightarrow> i < j \<Longrightarrow> i < length es \<Longrightarrow> fst (es ! i) \<noteq> name"
  shows "\<exists>out' es'. sort_inner name j out es = Inr (out', es') \<and>
    mset es' = mset es \<and> take out es' = take out es \<and>
    out' = out + length (filter (\<lambda>e. fst e = name) (drop j es)) \<and>
    (\<forall>i. out \<le> i \<and> i < out' \<longrightarrow> fst (es' ! i) = name) \<and>
    (\<forall>i. out' \<le> i \<and> i < length es \<longrightarrow> fst (es' ! i) \<noteq> name)"
  using assms
proof (induction name j out es rule: sort_inner.induct)
  case (1 name j out es)
  consider (stop) "\<not> j < length es" | (hit) "j < length es" "fst (es ! j) = name"
    | (miss) "j < length es" "fst (es ! j) \<noteq> name" by blast
  then show ?case
  proof cases
    case stop
    with "1.prems" show ?thesis by (auto simp: sort_inner.simps [of name j out es])
  next
    case hit
    let ?es = "es[j := es ! out, out := es ! j]"
    from hit "1.prems" have out: "out < length es" by simp
    have pre: "fst (?es ! i) \<noteq> name" if "Suc out \<le> i" "i < Suc j" "i < length ?es" for i
      using that hit "1.prems" out by (auto simp: nth_list_update)
    from "1.IH"(1) [OF hit out] pre "1.prems"(1) obtain out' es' where
      r: "sort_inner name (Suc j) (Suc out) ?es = Inr (out', es')"
        "mset es' = mset ?es" "take (Suc out) es' = take (Suc out) ?es"
        "out' = Suc out + length (filter (\<lambda>e. fst e = name) (drop (Suc j) ?es))"
        "\<forall>i. Suc out \<le> i \<and> i < out' \<longrightarrow> fst (es' ! i) = name"
        "\<forall>i. out' \<le> i \<and> i < length ?es \<longrightarrow> fst (es' ! i) \<noteq> name"
      by auto
    have len: "length es' = length es"
      using r(2) by (metis length_list_update size_mset)
    have "es' ! out = ?es ! out"
      using r(3) out len by (metis lessI nth_take)
    then have at: "fst (es' ! out) = name" using hit out by simp
    have tk: "take out es' = take out es"
      using arg_cong [OF r(3), of "take out"] "1.prems"(1) by (simp add: take_update_cancel)
    have cnt: "length (filter (\<lambda>e. fst e = name) (drop j es))
        = Suc (length (filter (\<lambda>e. fst e = name) (drop (Suc j) ?es)))"
      using hit "1.prems"(1) out by (simp add: Cons_nth_drop_Suc [symmetric] drop_update_cancel)
    have "sort_inner name j out es = Inr (out', es')"
      using hit out r(1) by (simp add: sort_inner.simps [of name j out es])
    moreover have "\<forall>i. out \<le> i \<and> i < out' \<longrightarrow> fst (es' ! i) = name"
      using r(5) at by (metis le_eq_less_or_eq not_less_eq_eq Suc_leI)
    ultimately show ?thesis
      using r tk cnt swap_facts [OF hit(1) out] by auto
  next
    case miss
    then have pre: "\<And>i. out \<le> i \<Longrightarrow> i < Suc j \<Longrightarrow> i < length es \<Longrightarrow> fst (es ! i) \<noteq> name"
      using "1.prems" by (metis less_SucE)
    have "drop j es = es ! j # drop (Suc j) es" using miss by (simp add: Cons_nth_drop_Suc)
    then show ?thesis
      using "1.IH"(2) [OF miss] "1.prems"(1) pre miss
      by (auto simp: sort_inner.simps [of name j out es])
  qed
qed

lemma sort_inner_skip:
  assumes "j \<le> out" and "out \<le> length es" and "\<And>i. j \<le> i \<Longrightarrow> i < out \<Longrightarrow> fst (es ! i) \<noteq> name"
  shows "sort_inner name j out es = sort_inner name out out es"
  using assms
proof (induction "out - j" arbitrary: j)
  case (Suc d)
  then have "j < length es" "fst (es ! j) \<noteq> name" "d = out - Suc j" "Suc j \<le> out" by auto
  then show ?case
    using Suc by (simp add: sort_inner.simps [of name j out es])
qed simp

lemma filter_eq_replicate: "filter (\<lambda>n. n = q) xs = replicate (count (mset xs) q) q"
  by (induction xs) auto

lemma count_map_fst: "count (mset (map fst xs)) n = length (filter (\<lambda>e. fst e = n) xs)"
  by (induction xs) auto

lemma filter_mset_eq_if:
  assumes "mset xs = mset ys" and "xs = as @ xs'" and "ys = bs @ ys'" and "count (mset as) q = count (mset bs) q"
  shows "filter (\<lambda>n. n = q) xs' = filter (\<lambda>n. n = q) ys'"
  using assms unfolding filter_eq_replicate
  by (metis add_left_cancel count_union mset_append)

text \<open>
  The names of the sorted object: for each prototype name in turn all entries with that
  name, then the entries the prototype does not name.
\<close>

lemma sort_outer_correct:
  assumes "distinct (map fst ps)" and "out \<le> length es"
    and "\<And>i. i < out \<Longrightarrow> fst (es ! i) \<notin> fst ` set ps"
  shows "\<exists>es' rest. sort_outer ps out es = Inr es' \<and> mset es' = mset es \<and>
    map fst es' = map fst (take out es) @
      concat (map (\<lambda>p. filter (\<lambda>n. n = fst p) (map fst (drop out es))) ps) @ rest \<and>
    set rest \<inter> fst ` set ps = {}"
  using assms
proof (induction ps arbitrary: out es)
  case Nil
  then show ?case
    by (auto intro!: exI [of _ "map fst (drop out es)"] simp flip: map_append)
next
  case (Cons p ps)
  let ?n = "fst p"
  have "sort_inner ?n 0 out es = sort_inner ?n out out es"
    using Cons.prems by (intro sort_inner_skip) auto
  moreover obtain out' es' where r:
    "sort_inner ?n out out es = Inr (out', es')" "mset es' = mset es"
    "take out es' = take out es"
    "out' = out + length (filter (\<lambda>e. fst e = ?n) (drop out es))"
    "\<forall>i. out \<le> i \<and> i < out' \<longrightarrow> fst (es' ! i) = ?n"
    "\<forall>i. out' \<le> i \<and> i < length es \<longrightarrow> fst (es' ! i) \<noteq> ?n"
    using sort_inner_correct [of out out es ?n] by auto
  ultimately have inner: "sort_inner ?n 0 out es = Inr (out', es')" by simp
  have len: "length es' = length es" using r(2) by (metis size_mset)
  have out': "out' \<le> length es'"
    using r(4) Cons.prems(2) length_filter_le [of _ "drop out es"] len
    by (metis add_le_mono1 le_add_diff_inverse length_drop nat_add_left_cancel_le)
  have mid: "map fst (take out' es') = map fst (take out es) @ filter (\<lambda>n. n = ?n) (map fst (drop out es))"
  proof -
    have "take out' es' = take out es @ take (out' - out) (drop out es')"
      using r(3,4) by (metis le_add1 le_add_diff_inverse take_add)
    moreover have "map fst (take (out' - out) (drop out es')) = replicate (out' - out) ?n"
      using r(5) out' by (intro nth_equalityI) (auto simp: r(4))
    moreover have "filter (\<lambda>n. n = ?n) (map fst (drop out es)) = replicate (out' - out) ?n"
      by (simp only: r(4) filter_eq_replicate count_map_fst add_diff_cancel_left')
    ultimately show ?thesis by simp
  qed
  have pre: "fst (es' ! i) \<notin> fst ` set ps" if "i < out'" for i
  proof (cases "i < out")
    case True
    then show ?thesis using Cons.prems(3) r(3) by (metis image_insert insertCI list.simps(15) nth_take)
  next
    case False
    then show ?thesis using Cons.prems(1) r(5) that by auto
  qed
  have "distinct (map fst ps)" using Cons.prems(1) by simp
  from Cons.IH [OF this out' pre] obtain es'' rest where s:
    "sort_outer ps out' es' = Inr es''" "mset es'' = mset es'"
    "map fst es'' = map fst (take out' es') @
      concat (map (\<lambda>p. filter (\<lambda>n. n = fst p) (map fst (drop out' es'))) ps) @ rest"
    "set rest \<inter> fst ` set ps = {}" by auto
  have "filter (\<lambda>n. n = fst q) (map fst (drop out' es')) = filter (\<lambda>n. n = fst q) (map fst (drop out es))"
    if "q \<in> set ps" for q
  proof (rule filter_mset_eq_if)
    show "mset (map fst es') = mset (map fst es)" using r(2) by simp
    show "map fst es' = map fst (take out' es') @ map fst (drop out' es')"
      "map fst es = map fst (take out es) @ map fst (drop out es)"
      by (simp_all flip: map_append)
    show "count (mset (map fst (take out' es'))) (fst q) = count (mset (map fst (take out es))) (fst q)"
      unfolding mid using Cons.prems(1) that by (auto simp: filter_eq_replicate) (metis imageI)
  qed
  then have cc: "map (\<lambda>p. filter (\<lambda>n. n = fst p) (map fst (drop out' es'))) ps
      = map (\<lambda>p. filter (\<lambda>n. n = fst p) (map fst (drop out es))) ps" by simp
  have "mset (map fst es'') = mset (map fst es)" using s(2) r(2) by simp
  also have "\<dots> = mset (map fst (take out es)) + mset (map fst (drop out es))"
    by (metis append_take_drop_id map_append mset_append)
  finally have "count (mset (map fst es'')) ?n
      = count (mset (map fst (take out es))) ?n + count (mset (map fst (drop out es))) ?n"
    by simp
  then have "count (mset rest) ?n = 0"
    unfolding s(3) mid by (simp add: filter_eq_replicate)
  then have "?n \<notin> set rest" by simp
  then show ?case using inner s r(2) by (auto simp: mid cc)
qed

section \<open>Properties\<close>

section \<open>Codecs\<close>

text \<open>
  The contract of an encoder and a decoder of one kind of object: a valid object can be
  encoded, decoding the result gives it back, and the decoder makes valid objects only.
\<close>

locale json_codec =
  fixes enc :: "'a \<Rightarrow> json_value option cres"
    and dec :: "json_value option \<Rightarrow> 'a option"
    and valid :: "'a \<Rightarrow> bool"
  assumes dec_enc: "valid x \<Longrightarrow> \<exists>j. enc x = Inr (Some j) \<and> dec (Some j) = Some x"
    and dec_valid: "dec v = Some x \<Longrightarrow> valid x"
begin

lemma enc_inj: "valid x \<Longrightarrow> valid y \<Longrightarrow> enc x = enc y \<Longrightarrow> x = y"
  by (metis dec_enc option.inject sum.inject(2))

lemma dec_enc_dec:
  assumes "dec v = Some x"
  shows "\<exists>j. enc x = Inr (Some j) \<and> dec (Some j) = Some x"
  using dec_enc [OF dec_valid [OF assms]] .

end



text \<open>
  Without the well-formedness of the values the answer 0 does not mean
  equivalence: a \<^verbatim>\<open>json_none\<close> value compares as 0 with every value, since its
  own type code is 0, and on objects with a repeated name the answer depends on the order
  of the arguments.
\<close>

theorem json_value_compare_not_symmetric:
  "json_value_compare (Some JNone) (Some v) = 0 \<and>
   json_value_compare (Some (JObject [(''a'', JNull), (''a'', JNull)]))
     (Some (JObject [(''a'', JNull), (''b'', JNull)])) = 0 \<and>
   json_value_compare (Some (JObject [(''a'', JNull), (''b'', JNull)]))
     (Some (JObject [(''a'', JNull), (''a'', JNull)])) = 1"
  by (cases v) (simp_all add: json_value_compare_def json_value_cmp.simps streq_def)

text \<open>
  Property C27. Sorting an object by a prototype with distinct names never leaves the array
  bounds, keeps exactly the object's entries, and puts the entries in the order of the
  prototype's names, those it does not name last.
\<close>

theorem json_object_sort_correct:
  assumes "distinct (map fst ps)"
  shows "\<exists>es' rest. json_object_sort True (JObject es) (JObject ps) = Inr (JObject es') \<and>
    mset es' = mset es \<and>
    map fst es' = concat (map (\<lambda>p. filter (\<lambda>n. n = fst p) (map fst es)) ps) @ rest \<and>
    set rest \<inter> fst ` set ps = {}"
  using sort_outer_correct [OF assms, of 0 es] by (auto simp: json_object_sort_def)

theorem json_object_sort_correct_witness:
  "\<exists>es'. json_object_sort True (JObject [(''b'', JNull), (''a'', JNull)])
      (JObject [(''a'', JNull), (''b'', JNull)]) = Inr (JObject es') \<and>
    map fst es' = [''a'', ''b'']"
proof -
  from json_object_sort_correct
    [of "[(''a'', JNull), (''b'', JNull)]" "[(''b'', JNull), (''a'', JNull)]"]
  obtain es' rest where r: "json_object_sort True (JObject [(''b'', JNull), (''a'', JNull)])
      (JObject [(''a'', JNull), (''b'', JNull)]) = Inr (JObject es')"
    "map fst es' = [''a'', ''b''] @ rest" "mset es' = mset [(''b'', JNull), (''a'', JNull)]"
    by auto
  then have "length es' = 2" by (metis size_mset length_Cons list.size(3) numeral_2_eq_2)
  with r(2) have "rest = []" by (metis add_cancel_right_right length_0_conv length_Cons length_append length_map list.size(3) numeral_2_eq_2)
  with r show ?thesis by auto
qed

end
