(* ===== verification/Task.thy ===== *)
theory Task
  imports Json_Value
begin

text \<open>
  Sites (\<^verbatim>\<open>shared/site.c\<close>), tasks and task runners (\<^verbatim>\<open>blueprint/task.c\<close>).
  A task runner is a thread that spawns the task's process and waits for it. Its run is a
  transition system of three parties: the controlling thread that called
  \<^verbatim>\<open>task_run\<close>, the runner's thread and the process. The theorems say what status
  and exit information a finished run leaves behind, that the process is reaped on every
  path, cancellation included, and which interleavings go wrong.
\<close>

section \<open>Sites\<close>

record site =
  site_python :: string
  site_task_dir :: string
  site_working_dir :: string

definition site_create ::
  "bool \<Rightarrow> string option \<Rightarrow> string option \<Rightarrow> string option \<Rightarrow> block list \<Rightarrow> site option \<times> block list" where
  "site_create malloc_ok python task_dir working_dir live =
     (case (python, task_dir, working_dir) of
        (Some p, Some t, Some w) \<Rightarrow>
          if \<not> malloc_ok then (None, live)
          else (Some \<lparr>site_python = c_str p, site_task_dir = c_str t, site_working_dir = c_str w\<rparr>,
                [Site_Working_Dir, Site_Task_Dir, Site_Python, Site_Struct] @ live)
      | _ \<Rightarrow> (None, live))"

definition site_destroy :: "site option \<Rightarrow> block list \<Rightarrow> block list cres" where
  "site_destroy s live =
     (case s of
        None \<Rightarrow> Inr live
      | Some _ \<Rightarrow> free_blocks [Site_Python, Site_Task_Dir, Site_Working_Dir, Site_Struct] live)"

section \<open>Tasks\<close>

abbreviation (input) TASK_NOT_READY :: int where "TASK_NOT_READY \<equiv> 0"
abbreviation (input) TASK_READY :: int where "TASK_READY \<equiv> 1"
abbreviation (input) TASK_RUNNING :: int where "TASK_RUNNING \<equiv> 2"
abbreviation (input) TASK_COMPLETED :: int where "TASK_COMPLETED \<equiv> 3"
abbreviation (input) TASK_INCOMPLETE :: int where "TASK_INCOMPLETE \<equiv> 4"

record task =
  task_status :: int
  task_name :: string

definition task_create :: "bool \<Rightarrow> string \<Rightarrow> task option" where
  "task_create malloc_ok name =
     (if strlen name = 0 then None
      else if \<not> malloc_ok then None
      else Some \<lparr>task_status = TASK_READY, task_name = c_str name\<rparr>)"

definition task_get_name :: "task option \<Rightarrow> string" where
  "task_get_name t = (case t of None \<Rightarrow> '''' | Some t \<Rightarrow> task_name t)"

definition task_get_status :: "task \<Rightarrow> int" where
  "task_get_status t = task_status t"

definition task_set_status :: "task \<Rightarrow> int \<Rightarrow> task" where
  "task_set_status t st = t\<lparr>task_status := st\<rparr>"

section \<open>JSON\<close>

definition task_encode :: "bool \<Rightarrow> bool \<Rightarrow> task \<Rightarrow> json_value option cres" where
  "task_encode new_ok push_ok t =
     (case json_object_new new_ok new_ok 0 of
        None \<Rightarrow> Inr None
      | Some obj \<Rightarrow>
          (case json_object_push_string push_ok push_ok (Some obj) (Some ''name'') (Some (task_name t)) of
             Inl e \<Rightarrow> Inl e
           | Inr (r, obj') \<Rightarrow> Inr obj'))"

definition task_status_map :: "bool \<Rightarrow> int \<Rightarrow> json_value option" where
  "task_status_map new_ok st =
     (if st = TASK_NOT_READY then json_string_new new_ok new_ok ''not_ready''
      else if st = TASK_READY then json_string_new new_ok new_ok ''ready''
      else if st = TASK_RUNNING then json_string_new new_ok new_ok ''running''
      else if st = TASK_COMPLETED then json_string_new new_ok new_ok ''completed''
      else if st = TASK_INCOMPLETE then json_string_new new_ok new_ok ''incomplete''
      else json_null_new new_ok)"

definition task_encode_status :: "bool \<Rightarrow> bool \<Rightarrow> bool \<Rightarrow> task \<Rightarrow> json_value option cres" where
  "task_encode_status new_ok map_ok push_ok t =
     (case json_object_new new_ok new_ok 0 of
        None \<Rightarrow> Inr None
      | Some obj \<Rightarrow>
          (case json_object_push push_ok push_ok push_ok (Some obj) ''status'' (task_status_map map_ok (task_get_status t)) of
             Inl e \<Rightarrow> Inl e
           | Inr None \<Rightarrow> Inr (Some obj)
           | Inr (Some obj') \<Rightarrow> Inr (Some obj')))"

definition task_decode :: "bool \<Rightarrow> json_value option \<Rightarrow> task option" where
  "task_decode malloc_ok obj =
     (case obj of
        None \<Rightarrow> None
      | Some v \<Rightarrow>
          if json_type v \<noteq> 1 then None
          else (case get_value v ''name'' of
                  None \<Rightarrow> None
                | Some (JString s) \<Rightarrow> task_create malloc_ok s
                | Some _ \<Rightarrow> None))"

section \<open>Wait statuses\<close>

text \<open>
  The status \<^verbatim>\<open>waitpid\<close> stores and the macros that take it apart, with the
  encoding of the C library on Linux.
\<close>

definition WTERMSIG :: "c_int \<Rightarrow> int" where
  "WTERMSIG st = uint (st AND 0x7F)"

definition WEXITSTATUS :: "c_int \<Rightarrow> int" where
  "WEXITSTATUS st = uint (drop_bit 8 (st AND 0xFF00))"

definition WIFEXITED :: "c_int \<Rightarrow> bool" where
  "WIFEXITED st \<longleftrightarrow> WTERMSIG st = 0"

definition WIFSIGNALED :: "c_int \<Rightarrow> bool" where
  "WIFSIGNALED st \<longleftrightarrow> 0 < WTERMSIG st \<and> WTERMSIG st < 0x7F"

definition w_exited :: "nat \<Rightarrow> c_int" where
  "w_exited code = push_bit 8 (of_nat code)"

definition w_signaled :: "nat \<Rightarrow> c_int" where
  "w_signaled sig = of_nat sig"

abbreviation (input) SIGINT :: int where "SIGINT \<equiv> 2"
abbreviation (input) EXIT_SENTINAL :: int where "EXIT_SENTINAL \<equiv> 256"
abbreviation (input) SIGSENT :: int where "SIGSENT \<equiv> 64"

record task_runner_info =
  exit_code :: int
  signo :: int

definition update_status :: "task_runner_info \<times> task \<Rightarrow> c_int \<Rightarrow> task_runner_info \<times> task" where
  "update_status = (\<lambda>(info, t) st.
     if WIFEXITED st then
       (let info = info\<lparr>exit_code := WEXITSTATUS st\<rparr>
        in (info, task_set_status t (if exit_code info = 0 then TASK_COMPLETED else TASK_NOT_READY)))
     else if WIFSIGNALED st then
       (let info = info\<lparr>signo := WTERMSIG st\<rparr>
        in (info, task_set_status t (if signo info = SIGINT then TASK_INCOMPLETE else TASK_READY)))
     else (info, t))"

section \<open>The path handed to the interpreter\<close>

text \<open>The size of the buffer \<^verbatim>\<open>task_path\<close> and the text \<^verbatim>\<open>sprintf\<close> puts there.\<close>

definition task_path_size :: "site \<Rightarrow> task \<Rightarrow> nat" where
  "task_path_size s t = (strlen (site_task_dir s) + strlen (task_name t) + 1) + 1"

definition task_path :: "site \<Rightarrow> task \<Rightarrow> string" where
  "task_path s t = c_str (site_task_dir s) @ ''/'' @ c_str (task_name t)"

definition task_argv :: "site \<Rightarrow> task \<Rightarrow> string list" where
  "task_argv s t = [site_python s, task_path s t]"

lemma w_exited_simps [simp]:
  assumes "code < 256"
  shows "WTERMSIG (w_exited code) = 0" and "WEXITSTATUS (w_exited code) = int code"
proof -
  have m: "(0x7F :: c_int) = mask 7" by (simp add: mask_eq_exp_minus_1)
  show "WTERMSIG (w_exited code) = 0"
    unfolding WTERMSIG_def w_exited_def m take_bit_eq_mask [symmetric] by (simp add: take_bit_push_bit)
  have ff: "(0xFF00 :: c_int) = push_bit 8 (mask 8)" by (simp add: mask_eq_exp_minus_1)
  have "drop_bit 8 (w_exited code AND 0xFF00) = take_bit 8 (of_nat code :: c_int)"
    unfolding ff w_exited_def
    by (rule bit_word_eqI) (auto simp: bit_simps)
  also have "\<dots> = of_nat code" using assms by (simp add: take_bit_of_nat take_bit_nat_eq_self)
  finally show "WEXITSTATUS (w_exited code) = int code"
    using assms by (simp add: WEXITSTATUS_def uint_nat unat_of_nat)
qed

lemma w_signaled_simps [simp]:
  assumes "sig < 128"
  shows "WTERMSIG (w_signaled sig) = int sig"
proof -
  have "(0x7F :: c_int) = mask 7" by (simp add: mask_eq_exp_minus_1)
  then have "w_signaled sig AND 0x7F = take_bit 7 (of_nat sig :: c_int)"
    by (simp add: w_signaled_def take_bit_eq_mask)
  also have "\<dots> = of_nat sig" using assms by (simp add: take_bit_of_nat take_bit_nat_eq_self)
  finally show ?thesis using assms by (simp add: WTERMSIG_def uint_nat unat_of_nat)
qed

section \<open>Task runners\<close>

datatype process =
    P_None
  | P_Running
  | P_Dead c_int
  | P_Reaped c_int

text \<open>
  Where the runner's thread stands: before the spawn, between the spawn and its store of
  the status, in \<^verbatim>\<open>waitpid\<close>, about to call \<^verbatim>\<open>update_status\<close>; the
  same for the cleanup handler, which first sends the signal; finished; joined.
\<close>

datatype thread_pc =
    T_Start
  | T_Spawned
  | T_Wait
  | T_Update c_int
  | H_Kill
  | H_Wait
  | H_Update c_int
  | T_Done
  | T_Joined

text \<open>The controlling thread's calls on the thread handle, as the source issues them.\<close>

datatype ctl_op =
    Op_Set_Running
  | Op_Cancel
  | Op_Join
  | Op_Create int
  | Op_Free

definition task_runner_stop :: "ctl_op list" where
  "task_runner_stop = [Op_Cancel, Op_Join]"

definition task_runner_wait :: "ctl_op list" where
  "task_runner_wait = [Op_Join]"

text \<open>The argument is the result of the second \<^verbatim>\<open>pthread_create\<close>.\<close>

definition task_runner_restart :: "int \<Rightarrow> ctl_op list" where
  "task_runner_restart err = [Op_Cancel, Op_Join, Op_Create err]"

definition task_runner_destroy :: "ctl_op list" where
  "task_runner_destroy = task_runner_stop @ [Op_Free]"

text \<open>
  \<open>r_spawn\<close> is what \<^verbatim>\<open>posix_spawn\<close> returned in the current run and
  \<open>r_late\<close> records, for the theorems, that the controller's store of
  \<^verbatim>\<open>TASK_RUNNING\<close> came after the thread had finished.
\<close>

record task_runner =
  r_task :: task
  r_info :: task_runner_info
  r_thread :: thread_pc
  r_cancel :: bool
  r_proc :: process
  r_spawn :: int
  r_ctl :: "ctl_op list"
  r_freed :: bool
  r_late :: bool
  r_fault :: "fault option"

definition task_run :: "bool \<Rightarrow> int \<Rightarrow> task option \<Rightarrow> site option \<Rightarrow> task_runner option" where
  "task_run malloc_ok create_err t s =
     (case (t, s) of
        (Some t, Some s) \<Rightarrow>
          if \<not> malloc_ok then None
          else if create_err \<noteq> 0 then None
          else Some \<lparr>r_task = t, r_info = \<lparr>exit_code = EXIT_SENTINAL, signo = SIGSENT\<rparr>,
                 r_thread = T_Start, r_cancel = False, r_proc = P_None, r_spawn = 0,
                 r_ctl = [Op_Set_Running], r_freed = False, r_late = False, r_fault = None\<rparr>
      | _ \<Rightarrow> None)"

definition task_runner_get_info :: "task_runner \<Rightarrow> task_runner_info" where
  "task_runner_get_info r = r_info r"

text \<open>
  The spawn. Only the result -1 leaves through the error branch; for any other nonzero
  result no process exists and \<^verbatim>\<open>task_tid\<close> was not set.
\<close>

definition runner_spawn :: "int \<Rightarrow> task_runner \<Rightarrow> task_runner" where
  "runner_spawn res r =
     (if res = - 1 then r\<lparr>r_spawn := res, r_thread := T_Done\<rparr>
      else r\<lparr>r_spawn := res, r_thread := T_Spawned, r_proc := (if res = 0 then P_Running else P_None)\<rparr>)"

definition runner_update :: "c_int \<Rightarrow> task_runner \<Rightarrow> task_runner" where
  "runner_update st r =
     (case update_status (r_info r, r_task r) st of (info, t) \<Rightarrow>
        r\<lparr>r_info := info, r_task := t, r_thread := T_Done\<rparr>)"

text \<open>
  One call of the controller on the thread handle. Cancelling or joining a thread that
  was joined before is a fault; joining blocks until the thread is done.
\<close>

fun ctl_exec :: "ctl_op \<Rightarrow> task_runner \<Rightarrow> task_runner option" where
  "ctl_exec Op_Set_Running r =
     Some (r\<lparr>r_task := task_set_status (r_task r) TASK_RUNNING,
             r_late := (r_late r \<or> r_thread r = T_Done \<or> r_thread r = T_Joined)\<rparr>)"
| "ctl_exec Op_Cancel r =
     (if r_thread r = T_Joined then Some (r\<lparr>r_fault := Some Double_Join\<rparr>)
      else Some (r\<lparr>r_cancel := True\<rparr>))"
| "ctl_exec Op_Join r =
     (if r_thread r = T_Joined then Some (r\<lparr>r_fault := Some Double_Join\<rparr>)
      else if r_thread r = T_Done then Some (r\<lparr>r_thread := T_Joined\<rparr>)
      else None)"
| "ctl_exec (Op_Create err) r =
     (if err \<noteq> 0 then Some r
      else Some (r\<lparr>r_thread := T_Start, r_cancel := False, r_proc := P_None, r_spawn := 0, r_late := False\<rparr>))"
| "ctl_exec Op_Free r = Some (r\<lparr>r_freed := True\<rparr>)"

inductive runner_step :: "task_runner \<Rightarrow> task_runner \<Rightarrow> bool" where
  thread_spawns: "r_thread r = T_Start \<Longrightarrow> runner_step r (runner_spawn res r)"
| thread_stores: "r_thread r = T_Spawned \<Longrightarrow>
    runner_step r (r\<lparr>r_task := task_set_status (r_task r) TASK_RUNNING, r_thread := T_Wait\<rparr>)"
| thread_reaps: "r_thread r = T_Wait \<Longrightarrow> r_proc r = P_Dead st \<Longrightarrow>
    runner_step r (r\<lparr>r_proc := P_Reaped st, r_thread := T_Update st\<rparr>)"
| thread_wait_fails: "r_thread r = T_Wait \<Longrightarrow> r_proc r = P_None \<Longrightarrow>
    runner_step r (r\<lparr>r_thread := T_Update st, r_fault := Some Uninit_Read\<rparr>)"
| thread_updates: "r_thread r = T_Update st \<Longrightarrow> runner_step r (runner_update st r)"
| thread_cancelled: "r_thread r = T_Wait \<Longrightarrow> r_cancel r \<Longrightarrow>
    runner_step r (r\<lparr>r_thread := H_Kill, r_cancel := False\<rparr>)"
| handler_kills: "r_thread r = H_Kill \<Longrightarrow> runner_step r (r\<lparr>r_thread := H_Wait\<rparr>)"
| handler_reaps: "r_thread r = H_Wait \<Longrightarrow> r_proc r = P_Dead st \<Longrightarrow>
    runner_step r (r\<lparr>r_proc := P_Reaped st, r_thread := H_Update st\<rparr>)"
| handler_wait_fails: "r_thread r = H_Wait \<Longrightarrow> r_proc r = P_None \<Longrightarrow>
    runner_step r (r\<lparr>r_thread := H_Update st, r_fault := Some Uninit_Read\<rparr>)"
| handler_updates: "r_thread r = H_Update st \<Longrightarrow> runner_step r (runner_update st r)"
| process_exits: "r_proc r = P_Running \<Longrightarrow> code < 256 \<Longrightarrow>
    runner_step r (r\<lparr>r_proc := P_Dead (w_exited code)\<rparr>)"
| process_killed: "r_proc r = P_Running \<Longrightarrow> 0 < sig \<Longrightarrow> sig \<le> 64 \<Longrightarrow>
    runner_step r (r\<lparr>r_proc := P_Dead (w_signaled sig)\<rparr>)"
| controller_does: "r_ctl r = op # ops \<Longrightarrow> ctl_exec op r = Some r' \<Longrightarrow>
    runner_step r (r'\<lparr>r_ctl := ops\<rparr>)"
| controller_calls: "r_ctl r = [] \<Longrightarrow> \<not> r_freed r \<Longrightarrow>
    ops \<in> {task_runner_stop, task_runner_wait, task_runner_restart err, task_runner_destroy} \<Longrightarrow>
    runner_step r (r\<lparr>r_ctl := ops\<rparr>)"

text \<open>Steps up to the first fault.\<close>

definition runner_sound_step :: "task_runner \<Rightarrow> task_runner \<Rightarrow> bool" where
  "runner_sound_step r r' \<longleftrightarrow> r_fault r = None \<and> runner_step r r'"

definition runner_init :: "task_runner \<Rightarrow> bool" where
  "runner_init r \<longleftrightarrow> (\<exists>ok err t s. task_run ok err (Some t) (Some s) = Some r)"

section \<open>The invariant of a run\<close>

text \<open>The ways a process ends, and what a run must have recorded of it.\<close>

definition ended :: "c_int \<Rightarrow> bool" where
  "ended st \<longleftrightarrow> (\<exists>code < 256. st = w_exited code) \<or> (\<exists>sig. 0 < sig \<and> sig \<le> 64 \<and> st = w_signaled sig)"

definition recorded :: "task_runner \<Rightarrow> c_int \<Rightarrow> bool" where
  "recorded r st \<longleftrightarrow>
     (\<exists>code < 256. st = w_exited code \<and> exit_code (r_info r) = int code \<and>
        (r_late r \<or> task_status (r_task r) = (if code = 0 then TASK_COMPLETED else TASK_NOT_READY))) \<or>
     (\<exists>sig. 0 < sig \<and> sig \<le> 64 \<and> st = w_signaled sig \<and> signo (r_info r) = int sig \<and>
        (r_late r \<or> task_status (r_task r) = (if int sig = SIGINT then TASK_INCOMPLETE else TASK_READY)))"

fun proc_inv :: "thread_pc \<Rightarrow> task_runner \<Rightarrow> bool" where
  "proc_inv T_Start r \<longleftrightarrow> r_proc r = P_None \<and> \<not> r_late r"
| "proc_inv T_Done r \<longleftrightarrow> (\<exists>st. r_proc r = P_Reaped st \<and> recorded r st)"
| "proc_inv T_Joined r \<longleftrightarrow> (\<exists>st. r_proc r = P_Reaped st \<and> recorded r st)"
| "proc_inv (T_Update st) r \<longleftrightarrow> r_proc r = P_Reaped st \<and> ended st \<and> \<not> r_late r"
| "proc_inv (H_Update st) r \<longleftrightarrow> r_proc r = P_Reaped st \<and> ended st \<and> \<not> r_late r"
| "proc_inv pc r \<longleftrightarrow> (r_proc r = P_Running \<or> (\<exists>st. r_proc r = P_Dead st \<and> ended st)) \<and> \<not> r_late r"

text \<open>
  A run whose spawn failed has no process; it gets past \<^verbatim>\<open>waitpid\<close> only by reading
  an uninitialised status, and finishes without that only through the branch for -1.
\<close>

definition failed_inv :: "task_runner \<Rightarrow> bool" where
  "failed_inv r \<longleftrightarrow> r_proc r = P_None \<and> r_thread r \<noteq> T_Start \<and>
     (r_spawn r \<noteq> - 1 \<longrightarrow> r_thread r \<in> {T_Spawned, T_Wait, H_Kill, H_Wait} \<or> r_fault r = Some Uninit_Read) \<and>
     (r_spawn r = - 1 \<longrightarrow> r_thread r = T_Done \<or> r_thread r = T_Joined)"

definition runner_inv :: "task_runner \<Rightarrow> bool" where
  "runner_inv r \<longleftrightarrow>
     (if r_spawn r = 0 then proc_inv (r_thread r) r \<and> r_fault r \<noteq> Some Uninit_Read else failed_inv r)"

lemma update_status_exited:
  assumes "code < 256"
  shows "update_status (info, t) (w_exited code) =
    (info\<lparr>exit_code := int code\<rparr>, t\<lparr>task_status := (if code = 0 then TASK_COMPLETED else TASK_NOT_READY)\<rparr>)"
  using assms by (simp add: update_status_def WIFEXITED_def task_set_status_def Let_def)

lemma update_status_signaled:
  assumes "0 < sig" and "sig \<le> 64"
  shows "update_status (info, t) (w_signaled sig) =
    (info\<lparr>signo := int sig\<rparr>, t\<lparr>task_status := (if int sig = SIGINT then TASK_INCOMPLETE else TASK_READY)\<rparr>)"
  using assms by (simp add: update_status_def WIFEXITED_def WIFSIGNALED_def task_set_status_def Let_def)

lemma update_recorded:
  assumes "ended st"
  shows "recorded (runner_update st r) st"
  using assms unfolding ended_def
proof (elim disjE exE conjE)
  fix code assume "code < 256" "st = w_exited code"
  then show ?thesis unfolding recorded_def runner_update_def
    by (intro disjI1 exI [of _ code]) (simp add: update_status_exited)
next
  fix sig :: nat assume "0 < sig" "sig \<le> 64" "st = w_signaled sig"
  then show ?thesis unfolding recorded_def runner_update_def
    by (intro disjI2 exI [of _ sig]) (simp add: update_status_signaled)
qed

lemma runner_update_fields [simp]:
  "r_thread (runner_update st r) = T_Done" "r_proc (runner_update st r) = r_proc r"
  "r_spawn (runner_update st r) = r_spawn r" "r_fault (runner_update st r) = r_fault r"
  "r_late (runner_update st r) = r_late r"
  by (simp_all add: runner_update_def split: prod.splits)

lemma recorded_late: "recorded r st \<Longrightarrow> r_info r' = r_info r \<Longrightarrow> r_late r' \<Longrightarrow> recorded r' st"
  by (auto simp: recorded_def)

lemma recorded_upd [simp]:
  "recorded (r\<lparr>r_ctl := ops\<rparr>) = recorded r" "recorded (r\<lparr>r_cancel := c\<rparr>) = recorded r"
  "recorded (r\<lparr>r_thread := pc\<rparr>) = recorded r" "recorded (r\<lparr>r_fault := e\<rparr>) = recorded r"
  "recorded (r\<lparr>r_freed := f\<rparr>) = recorded r" "recorded (r\<lparr>r_proc := p\<rparr>) = recorded r"
  by (simp_all add: recorded_def fun_eq_iff)

lemma proc_inv_upd [simp]:
  "proc_inv pc (r\<lparr>r_ctl := ops\<rparr>) = proc_inv pc r" "proc_inv pc (r\<lparr>r_cancel := c\<rparr>) = proc_inv pc r"
  "proc_inv pc (r\<lparr>r_thread := pc'\<rparr>) = proc_inv pc r" "proc_inv pc (r\<lparr>r_fault := e\<rparr>) = proc_inv pc r"
  "proc_inv pc (r\<lparr>r_freed := f\<rparr>) = proc_inv pc r"
  by (cases pc; simp)+

lemma ctl_inv:
  assumes "runner_inv r" and "r_fault r = None" and "ctl_exec op r = Some r'"
  shows "runner_inv (r'\<lparr>r_ctl := ops\<rparr>)"
proof (cases op)
  case Op_Set_Running
  with assms show ?thesis
    by (cases "r_thread r") (auto simp: runner_inv_def failed_inv_def elim!: recorded_late)
qed (use assms in \<open>auto simp: runner_inv_def failed_inv_def split: if_splits\<close>)

lemma process_dies:
  assumes "runner_inv r" and "r_proc r = P_Running" and "ended st"
  shows "runner_inv (r\<lparr>r_proc := P_Dead st\<rparr>)"
proof -
  have spawned: "r_spawn r = 0" using assms(1,2) by (auto simp: runner_inv_def failed_inv_def split: if_splits)
  with assms show ?thesis by (cases "r_thread r") (simp_all add: runner_inv_def)
qed

lemma step_runner_inv:
  assumes "runner_inv r" and "runner_sound_step r r'"
  shows "runner_inv r'"
proof -
  from assms(2) have "runner_step r r'" and nf: "r_fault r = None" by (auto simp: runner_sound_step_def)
  then show ?thesis using assms(1)
  proof cases
    case (controller_does op ops r'')
    with assms(1) nf ctl_inv show ?thesis by simp
  next
    case (controller_calls ops err)
    with assms(1) show ?thesis by (auto simp: runner_inv_def failed_inv_def)
  next
    case (thread_updates st)
    with assms(1) nf update_recorded [of st r] show ?thesis by (auto simp: runner_inv_def failed_inv_def)
  next
    case (handler_updates st)
    with assms(1) nf update_recorded [of st r] show ?thesis by (auto simp: runner_inv_def failed_inv_def)
  next
    case (process_exits code)
    then have "ended (w_exited code)" by (auto simp: ended_def)
    with process_exits assms(1) process_dies show ?thesis by simp
  next
    case (process_killed sig)
    then have "ended (w_signaled sig)" by (auto simp: ended_def)
    with process_killed assms(1) process_dies show ?thesis by simp
  qed (use nf in \<open>auto simp: runner_inv_def failed_inv_def runner_spawn_def split: if_splits\<close>)
qed

interpretation runner_run: invariant_system runner_init runner_sound_step runner_inv
proof unfold_locales
  show "runner_inv r" if "runner_init r" for r
    using that by (auto simp: runner_init_def task_run_def runner_inv_def split: if_splits)
qed (rule step_runner_inv)

section \<open>What a run leaves behind\<close>


text \<open>A task of the examples, its runner just started, and a run of the runner as a list of states.\<close>

definition task_example :: task where
  "task_example = \<lparr>task_status = TASK_READY, task_name = ''t.py''\<rparr>"

definition runner_example :: task_runner where
  "runner_example = \<lparr>r_task = task_example, r_info = \<lparr>exit_code = 256, signo = 64\<rparr>,
     r_thread = T_Start, r_cancel = False, r_proc = P_None, r_spawn = 0,
     r_ctl = [Op_Set_Running], r_freed = False, r_late = False, r_fault = None\<rparr>"

definition runner_example_done :: "ctl_op list \<Rightarrow> bool \<Rightarrow> int \<Rightarrow> task_runner" where
  "runner_example_done ctl late st = runner_example\<lparr>r_task := task_example\<lparr>task_status := st\<rparr>,
     r_info := \<lparr>exit_code = 0, signo = 64\<rparr>, r_thread := T_Done, r_proc := P_Reaped (w_exited 0), r_ctl := ctl, r_late := late\<rparr>"

lemma runner_example_init: "runner_init runner_example"
  unfolding runner_init_def runner_example_def
  by (rule exI [of _ True], rule exI [of _ 0], rule exI [of _ task_example], rule exI [of _ undefined])
    (simp add: task_run_def)

lemma runner_example_reach: "reach runner_init runner_sound_step runner_example"
  using runner_example_init by (rule reach_init)

lemma runner_stepI: "reach runner_init runner_sound_step r \<Longrightarrow> r_fault r = None \<Longrightarrow> runner_step r r' \<Longrightarrow>
    reach runner_init runner_sound_step r'"
  by (rule reach_step) (simp_all add: runner_sound_step_def)

lemma runner_example_done_reach:
  "reach runner_init runner_sound_step (runner_example_done [Op_Set_Running] False TASK_COMPLETED)"
proof -
  let ?r1 = "runner_spawn 0 runner_example"
  let ?r2 = "?r1\<lparr>r_task := task_set_status (r_task ?r1) TASK_RUNNING, r_thread := T_Wait\<rparr>"
  let ?r3 = "?r2\<lparr>r_proc := P_Dead (w_exited 0)\<rparr>"
  let ?r4 = "?r3\<lparr>r_proc := P_Reaped (w_exited 0), r_thread := T_Update (w_exited 0)\<rparr>"
  have "reach runner_init runner_sound_step ?r1"
    by (rule runner_stepI [OF runner_example_reach _ thread_spawns]) (simp_all add: runner_example_def)
  then have "reach runner_init runner_sound_step ?r2"
    by (rule runner_stepI [OF _ _ thread_stores]) (simp_all add: runner_example_def runner_spawn_def)
  then have "reach runner_init runner_sound_step ?r3"
    by (rule runner_stepI [OF _ _ process_exits]) (simp_all add: runner_example_def runner_spawn_def)
  then have "reach runner_init runner_sound_step ?r4"
    by (rule runner_stepI [OF _ _ thread_reaps]) (simp_all add: runner_example_def runner_spawn_def)
  then have "reach runner_init runner_sound_step (runner_update (w_exited 0) ?r4)"
    by (rule runner_stepI [OF _ _ thread_updates]) (simp_all add: runner_example_def runner_spawn_def)
  then show ?thesis
    by (simp add: runner_update_def update_status_exited runner_example_def runner_spawn_def runner_example_done_def
        task_set_status_def)
qed


text \<open>
  The status can be wrong for ever: \<^verbatim>\<open>task_run\<close> stores
  \<^verbatim>\<open>TASK_RUNNING\<close> after it created the thread, so a short task that ends first is
  reported as running although its process exited with code 0 and was reaped, and nothing
  is left to be done for it.
\<close>

theorem late_running_store:
  "\<exists>r. reach runner_init runner_sound_step r \<and> r_fault r = None \<and> r_ctl r = [] \<and> r_thread r = T_Done \<and>
       r_proc r = P_Reaped (w_exited 0) \<and> task_status (r_task r) = TASK_RUNNING"
proof (intro exI conjI)
  let ?r = "runner_example_done [Op_Set_Running] False TASK_COMPLETED"
  let ?r' = "runner_example_done [] True TASK_RUNNING"
  have "runner_step ?r ?r'"
    using controller_does [of ?r Op_Set_Running "[]"]
    by (simp add: runner_example_done_def runner_example_def task_set_status_def)
  then show "reach runner_init runner_sound_step ?r'"
    by (rule runner_stepI [OF runner_example_done_reach, rotated]) (simp add: runner_example_done_def runner_example_def)
qed (simp_all add: runner_example_done_def runner_example_def)

text \<open>
  A spawn that fails goes unnoticed: \<^verbatim>\<open>posix_spawn\<close> returns a positive
  error number, the test for -1 does not see it, and the thread waits for a process that
  was never created, so the only way the run finishes is by reading an uninitialised
  status.
\<close>

theorem failed_spawn_reads_garbage:
  assumes "reach runner_init runner_sound_step r" and "0 < r_spawn r"
  shows "r_proc r = P_None \<and> (r_thread r \<in> {T_Spawned, T_Wait, H_Kill, H_Wait} \<or> r_fault r = Some Uninit_Read)"
  using runner_run.reach_inv [OF assms(1)] assms(2) by (simp add: runner_inv_def failed_inv_def)

theorem failed_spawn_reads_garbage_witness:
  "reach runner_init runner_sound_step (runner_spawn 2 runner_example) \<and> r_proc (runner_spawn 2 runner_example) = P_None"
proof -
  have "reach runner_init runner_sound_step (runner_spawn 2 runner_example)"
    by (rule runner_stepI [OF runner_example_reach _ thread_spawns]) (simp_all add: runner_example_def)
  with failed_spawn_reads_garbage [OF this] show ?thesis by (simp add: runner_spawn_def)
qed

text \<open>
  \<^verbatim>\<open>task_runner_wait\<close> followed by \<^verbatim>\<open>task_runner_destroy\<close>,
  the sequence the job threads use, cancels and joins a thread that was joined already.
\<close>

theorem wait_then_destroy_double_join:
  assumes "r_thread r = T_Joined" and "r_ctl r = []" and "\<not> r_freed r" and "r_fault r = None"
  shows "\<exists>r'. runner_sound_step\<^sup>*\<^sup>* r r' \<and> r_fault r' = Some Double_Join"
proof -
  let ?r1 = "r\<lparr>r_ctl := task_runner_destroy\<rparr>"
  have "runner_sound_step r ?r1"
    using assms controller_calls [of r task_runner_destroy] by (simp add: runner_sound_step_def)
  moreover have "runner_sound_step ?r1 (?r1\<lparr>r_fault := Some Double_Join, r_ctl := [Op_Join, Op_Free]\<rparr>)"
    using assms controller_does [of ?r1 Op_Cancel "[Op_Join, Op_Free]" "?r1\<lparr>r_fault := Some Double_Join\<rparr>"]
    by (simp add: runner_sound_step_def task_runner_destroy_def task_runner_stop_def)
  ultimately show ?thesis 
    by (intro exI [of _ "?r1\<lparr>r_fault := Some Double_Join, r_ctl := [Op_Join, Op_Free]\<rparr>"])
      (auto intro: converse_rtranclp_into_rtranclp)
qed

theorem wait_then_destroy_double_join_witness:
  "\<exists>r'. runner_sound_step\<^sup>*\<^sup>* ((runner_example_done [] False TASK_COMPLETED)\<lparr>r_thread := T_Joined\<rparr>) r' \<and>
     r_fault r' = Some Double_Join"
  by (rule wait_then_destroy_double_join) (simp_all add: runner_example_done_def runner_example_def)

text \<open>
  The path buffer of the runner's thread is exactly large enough for the path
  and its terminator, and the path names the task below the task directory.
\<close>

theorem task_path_fits:
  "strlen (task_path s t) + 1 = task_path_size s t \<and>
   c_str (task_path s t) = c_str (site_task_dir s) @ ''/'' @ c_str (task_name t)"
  by (simp add: task_path_def task_path_size_def strlen_def)

lemma task_encode_eq: "task_encode True True t = Inr (Some (JObject [(''name'', JString (c_str (task_name t)))]))"
  by (simp add: task_encode_def c_simps)

definition task_valid :: "task \<Rightarrow> bool" where
  "task_valid t \<longleftrightarrow> task_status t = TASK_READY \<and> task_name t \<noteq> [] \<and> nul_free (task_name t)"

lemma task_decode_valid: "task_decode ok v = Some t \<Longrightarrow> task_valid t"
  by (auto simp: task_decode_def task_create_def task_valid_def strlen_def
      split: option.splits json_value.splits if_splits)

lemma task_decode_name:
  "task_valid t \<Longrightarrow> task_decode True (Some (JObject [(''name'', JString (task_name t))])) = Some t"
  by (simp add: task_decode_def task_create_def task_valid_def strlen_def)

interpretation task_codec: json_codec "task_encode True True" "task_decode True" task_valid
proof unfold_locales
  show "\<exists>j. task_encode True True t = Inr (Some j) \<and> task_decode True (Some j) = Some t" if "task_valid t" for t
    using that task_decode_name [OF that] by (simp add: task_encode_eq task_valid_def)
qed (rule task_decode_valid)

text \<open>
  Every task that came out of the decoder can be encoded, and decoding the
  result gives the same task; two tasks with the same encoding are equal.
\<close>

theorem task_round_trip:
  assumes "task_decode True v = Some t"
  shows "(\<exists>j. task_encode True True t = Inr (Some j) \<and> task_decode True (Some j) = Some t) \<and>
         (\<forall>v' t'. task_decode True v' = Some t' \<and> task_encode True True t' = task_encode True True t \<longrightarrow> t' = t)"
  using task_codec.dec_enc_dec [OF assms] task_codec.enc_inj task_codec.dec_valid assms by blast

theorem task_round_trip_witness:
  "\<exists>j. task_encode True True task_example = Inr (Some j) \<and> task_decode True (Some j) = Some task_example"
proof -
  have "task_decode True (Some (JObject [(''name'', JString ''t.py'')])) = Some task_example"
    by (simp add: task_decode_def task_create_def task_example_def strlen_def)
  from task_round_trip [OF this] show ?thesis by blast
qed

end
