(* ===== verification/Job.thy ===== *)
theory Job
  imports Task
begin

unbundle bit_operations_syntax

text \<open>
  Jobs (first half of \<^verbatim>\<open>blueprint/job.c\<close>): an identifier, options and a list of
  tasks, with the status derived from the tasks, and the JSON encoding. The linked list
  of \<^verbatim>\<open>job_node\<close> is the list of its tasks from head to tail; the last section
  frees it node by node.
\<close>

section \<open>Options\<close>

abbreviation (input) JOB_EXEC_SEQUENTIAL :: c_int where "JOB_EXEC_SEQUENTIAL \<equiv> 0"
abbreviation (input) JOB_EXEC_PARALLEL :: c_int where "JOB_EXEC_PARALLEL \<equiv> 1"
abbreviation (input) JOB_RUN_ONCE :: c_int where "JOB_RUN_ONCE \<equiv> 0"
abbreviation (input) JOB_RUN_REPEAT :: c_int where "JOB_RUN_REPEAT \<equiv> 1"

text \<open>
  \<^verbatim>\<open>job_opts_t\<close> is 16 bytes: an 8-byte size and two 4-byte enumerations, stored
  with the low byte first.
\<close>

record job_opts =
  opts_size :: "64 word"
  exec_mode :: c_int
  run_mode :: c_int

definition sizeof_job_opts :: nat where
  "sizeof_job_opts = 16"

definition job_opts_default :: job_opts where
  "job_opts_default = \<lparr>opts_size = of_nat sizeof_job_opts, exec_mode = JOB_EXEC_SEQUENTIAL, run_mode = JOB_RUN_ONCE\<rparr>"

text \<open>The first \<open>k\<close> bytes of \<open>new\<close>, the other bytes of \<open>old\<close>.\<close>

definition copy_bytes :: "nat \<Rightarrow> c_int \<Rightarrow> c_int \<Rightarrow> c_int" where
  "copy_bytes k new old = (new AND mask (8 * k)) OR (old AND NOT (mask (8 * k)))"

definition memcpy_opts :: "nat \<Rightarrow> job_opts \<Rightarrow> job_opts \<Rightarrow> job_opts" where
  "memcpy_opts n src dst =
     dst\<lparr>opts_size := (if 8 \<le> n then opts_size src
            else (opts_size src AND mask (8 * n)) OR (opts_size dst AND NOT (mask (8 * n)))),
         exec_mode := copy_bytes (min 4 (n - 8)) (exec_mode src) (exec_mode dst),
         run_mode := copy_bytes (min 4 (n - 12)) (run_mode src) (run_mode dst)\<rparr>"

section \<open>Jobs\<close>

abbreviation (input) JOB_NOT_READY :: int where "JOB_NOT_READY \<equiv> 0"
abbreviation (input) JOB_READY :: int where "JOB_READY \<equiv> 1"
abbreviation (input) JOB_RUNNING :: int where "JOB_RUNNING \<equiv> 2"
abbreviation (input) JOB_COMPLETED :: int where "JOB_COMPLETED \<equiv> 3"
abbreviation (input) JOB_INCOMPLETE :: int where "JOB_INCOMPLETE \<equiv> 4"

record job =
  job_id :: c_int
  job_status :: int
  job_size :: nat
  job_opts :: job_opts
  job_tasks :: "task list"

definition job_create :: "bool \<Rightarrow> c_int \<Rightarrow> job option" where
  "job_create malloc_ok i =
     (if sint i \<le> 0 then None
      else if \<not> malloc_ok then None
      else Some \<lparr>job_id = i, job_status = JOB_READY, job_size = 0, job_opts = job_opts_default, job_tasks = []\<rparr>)"

definition job_set_opts :: "job \<Rightarrow> job_opts option \<Rightarrow> job" where
  "job_set_opts j opts =
     (case opts of
        None \<Rightarrow> j\<lparr>job_opts := job_opts_default\<rparr>
      | Some src \<Rightarrow>
          (let n = min (unat (opts_size src)) sizeof_job_opts;
               d = memcpy_opts n src job_opts_default
           in j\<lparr>job_opts := d\<lparr>opts_size := of_nat sizeof_job_opts\<rparr>\<rparr>))"

definition job_add_task :: "bool \<Rightarrow> job \<Rightarrow> task \<Rightarrow> int \<times> job" where
  "job_add_task malloc_ok j t =
     (if \<not> malloc_ok then (- 1, j)
      else (0, j\<lparr>job_size := job_size j + 1, job_tasks := job_tasks j @ [t]\<rparr>))"

text \<open>The array of counters of \<^verbatim>\<open>update_status\<close>; a status outside the enumeration is not counted.\<close>

fun count_statuses :: "task list \<Rightarrow> nat list \<Rightarrow> nat list" where
  "count_statuses [] cs = cs"
| "count_statuses (t # ts) cs =
     count_statuses ts
       (let st = task_get_status t
        in if 0 \<le> st \<and> st \<le> 4 then cs[nat st := cs ! nat st + 1] else cs)"

definition job_update_status :: "job \<Rightarrow> job" where
  "job_update_status j =
     (if job_size j = 0 then j
      else
        let cs = count_statuses (job_tasks j) [0, 0, 0, 0, 0]
        in j\<lparr>job_status :=
             (if cs ! 2 > 0 then JOB_RUNNING
              else if cs ! 0 > 0 then JOB_NOT_READY
              else if cs ! 4 > 0 then JOB_INCOMPLETE
              else if cs ! 1 > 0 then JOB_READY
              else JOB_COMPLETED)\<rparr>)"

definition job_get_status :: "job \<Rightarrow> int \<times> job" where
  "job_get_status j = (let j' = job_update_status j in (job_status j', j'))"

definition reset_status :: "job \<Rightarrow> job" where
  "reset_status j = j\<lparr>job_tasks := map (\<lambda>t. task_set_status t TASK_READY) (job_tasks j)\<rparr>"

section \<open>JSON\<close>

definition job_status_map :: "bool \<Rightarrow> int \<Rightarrow> json_value option" where
  "job_status_map new_ok st =
     (if st = JOB_NOT_READY then json_string_new new_ok new_ok ''not_ready''
      else if st = JOB_READY then json_string_new new_ok new_ok ''ready''
      else if st = JOB_RUNNING then json_string_new new_ok new_ok ''running''
      else if st = JOB_COMPLETED then json_string_new new_ok new_ok ''completed''
      else if st = JOB_INCOMPLETE then json_string_new new_ok new_ok ''incomplete''
      else json_null_new new_ok)"

definition job_exec_mode_map :: "c_int \<Rightarrow> string" where
  "job_exec_mode_map mode =
     (if mode = JOB_EXEC_PARALLEL then ''parallel''
      else if mode = JOB_EXEC_SEQUENTIAL then ''sequential''
      else '''')"

definition job_run_mode_map :: "c_int \<Rightarrow> string" where
  "job_run_mode_map mode =
     (if mode = JOB_RUN_ONCE then ''once''
      else if mode = JOB_RUN_REPEAT then ''repeat''
      else '''')"

text \<open>
  The encoders check only the first allocation (\<open>new_ok\<close>); the source passes the result
  of the others on, so these are taken to succeed. \<open>encode_list\<close> is the loop over the
  tasks that pushes each encoded task to the array.
\<close>

fun encode_list :: "('a \<Rightarrow> json_value option cres) \<Rightarrow> 'a list \<Rightarrow> json_value option \<Rightarrow> json_value option cres" where
  "encode_list enc [] arr = Inr arr"
| "encode_list enc (t # ts) arr =
     (case enc t of
        Inl e \<Rightarrow> Inl e
      | Inr val \<Rightarrow>
          (case json_array_push True True arr val of
             Inl e \<Rightarrow> Inl e
           | Inr None \<Rightarrow> encode_list enc ts arr
           | Inr (Some arr') \<Rightarrow> encode_list enc ts (Some arr')))"

definition encode_task_entry :: "task \<Rightarrow> json_value option cres" where
  "encode_task_entry t =
     (case task_encode_status True True True t of
        Inl e \<Rightarrow> Inl e
      | Inr v \<Rightarrow>
          (case json_object_push_string True True v (Some ''name'') (Some (task_get_name (Some t))) of
             Inl e \<Rightarrow> Inl e
           | Inr (r, v') \<Rightarrow> Inr v'))"

definition job_encode_status :: "bool \<Rightarrow> job \<Rightarrow> json_value option cres \<times> job" where
  "job_encode_status new_ok j =
     (case json_object_new new_ok new_ok 0 of
        None \<Rightarrow> (Inr None, j)
      | Some obj \<Rightarrow>
          (case job_get_status j of (st, j') \<Rightarrow>
             (case json_object_push True True True (Some obj) ''status'' (job_status_map True st) of
                Inl e \<Rightarrow> Inl e
              | Inr v \<Rightarrow>
                  (case encode_list encode_task_entry (job_tasks j') (json_array_new True True (job_size j')) of
                     Inl e \<Rightarrow> Inl e
                   | Inr arr \<Rightarrow> json_object_push True True True v ''tasks'' arr), j')))"

definition job_encode :: "bool \<Rightarrow> job \<Rightarrow> json_value option cres" where
  "job_encode new_ok j =
     (case json_object_new new_ok new_ok 0 of
        None \<Rightarrow> Inr None
      | Some obj \<Rightarrow>
          (case json_object_push_integer True True (Some obj) (Some ''id'') (job_id j) of
             Inl e \<Rightarrow> Inl e
           | Inr (r, v) \<Rightarrow>
          (case json_object_push_string True True v (Some ''execMode'') (Some (job_exec_mode_map (exec_mode (job_opts j)))) of
             Inl e \<Rightarrow> Inl e
           | Inr (r, v) \<Rightarrow>
          (case json_object_push_string True True v (Some ''runMode'') (Some (job_run_mode_map (run_mode (job_opts j)))) of
             Inl e \<Rightarrow> Inl e
           | Inr (r, v) \<Rightarrow>
          (case encode_list (task_encode True True) (job_tasks j) (json_array_new True True 0) of
             Inl e \<Rightarrow> Inl e
           | Inr arr \<Rightarrow> json_object_push True True True v ''tasks'' arr)))))"

text \<open>\<open>task_ok i\<close> and \<open>node_ok i\<close> are the two allocations for the task at position \<open>i\<close>.\<close>

fun decode_tasks :: "(nat \<Rightarrow> bool) \<Rightarrow> (nat \<Rightarrow> bool) \<Rightarrow> nat \<Rightarrow> json_value list \<Rightarrow> job \<Rightarrow> job option" where
  "decode_tasks task_ok node_ok i [] j = Some j"
| "decode_tasks task_ok node_ok i (v # vs) j =
     (case task_decode (task_ok i) (Some v) of
        None \<Rightarrow> None
      | Some t \<Rightarrow>
          (case job_add_task (node_ok i) j t of (r, j') \<Rightarrow>
             if r = - 1 then None else decode_tasks task_ok node_ok (Suc i) vs j'))"

definition decode_exec_mode :: "json_value option \<Rightarrow> job_opts \<Rightarrow> job_opts" where
  "decode_exec_mode v opts =
     (case v of
        Some (JString s) \<Rightarrow>
          if streq s ''parallel'' then opts\<lparr>exec_mode := JOB_EXEC_PARALLEL\<rparr>
          else if streq s ''sequential'' then opts\<lparr>exec_mode := JOB_EXEC_SEQUENTIAL\<rparr>
          else opts
      | _ \<Rightarrow> opts)"

definition decode_run_mode :: "json_value option \<Rightarrow> job_opts \<Rightarrow> job_opts" where
  "decode_run_mode v opts =
     (case v of
        Some (JString s) \<Rightarrow>
          if streq s ''repeat'' then opts\<lparr>run_mode := JOB_RUN_REPEAT\<rparr>
          else if streq s ''once'' then opts\<lparr>run_mode := JOB_RUN_ONCE\<rparr>
          else opts
      | _ \<Rightarrow> opts)"

definition job_decode :: "bool \<Rightarrow> (nat \<Rightarrow> bool) \<Rightarrow> (nat \<Rightarrow> bool) \<Rightarrow> json_value option \<Rightarrow> job option" where
  "job_decode create_ok task_ok node_ok obj =
     (case obj of
        None \<Rightarrow> None
      | Some v \<Rightarrow>
          if json_type v \<noteq> 1 then None
          else
            (case (get_value v ''id'', get_value v ''tasks'') of
               (Some (JInteger i), Some (JArray vs)) \<Rightarrow>
                 (case job_create create_ok (int_of_json i) of
                    None \<Rightarrow> None
                  | Some j \<Rightarrow>
                      (let opts = decode_run_mode (get_value v ''runMode'')
                             (decode_exec_mode (get_value v ''execMode'') job_opts_default)
                       in decode_tasks task_ok node_ok 0 vs (job_set_opts j (Some opts))))
             | _ \<Rightarrow> None))"

abbreviation job_decode_ok :: "json_value option \<Rightarrow> job option" where
  "job_decode_ok \<equiv> job_decode True (\<lambda>_. True) (\<lambda>_. True)"

section \<open>Well-formed jobs\<close>

definition opts_valid :: "job_opts \<Rightarrow> bool" where
  "opts_valid opt \<longleftrightarrow> opts_size opt = 16 \<and> exec_mode opt \<in> {0, 1} \<and> run_mode opt \<in> {0, 1}"

definition job_wf :: "job \<Rightarrow> bool" where
  "job_wf j \<longleftrightarrow> 0 < sint (job_id j) \<and> job_size j = length (job_tasks j) \<and> opts_valid (job_opts j) \<and>
     (\<forall>t \<in> set (job_tasks j). task_name t \<noteq> [] \<and> nul_free (task_name t))"

text \<open>A job nobody has run yet: the jobs the decoder makes.\<close>

definition job_fresh :: "job \<Rightarrow> bool" where
  "job_fresh j \<longleftrightarrow> job_wf j \<and> job_status j = JOB_READY \<and> (\<forall>t \<in> set (job_tasks j). task_status t = TASK_READY)"

lemma copy_bytes_simps [simp]: "copy_bytes 0 new old = old" "copy_bytes 4 new old = new"
proof -
  have "(mask 32 :: c_int) = - 1" by (rule bit_word_eqI) (simp add: bit_simps)
  then show "copy_bytes 4 new old = new" by (simp add: copy_bytes_def)
qed (simp add: copy_bytes_def)

lemma opts_default_valid: "opts_valid job_opts_default"
  by (simp add: opts_valid_def job_opts_default_def sizeof_job_opts_def)

lemma job_set_opts_full:
  assumes "16 \<le> unat (opts_size src)"
  shows "job_set_opts j (Some src) = j\<lparr>job_opts := src\<lparr>opts_size := 16\<rparr>\<rparr>"
  using assms by (simp add: job_set_opts_def memcpy_opts_def sizeof_job_opts_def Let_def)

lemma decode_modes_valid:
  "opts_valid opt \<Longrightarrow> opts_valid (decode_exec_mode v opt)" "opts_valid opt \<Longrightarrow> opts_valid (decode_run_mode v opt)"
  by (auto simp: decode_exec_mode_def decode_run_mode_def opts_valid_def split: option.splits json_value.splits)

lemma job_create_fresh: "job_create ok i = Some j \<Longrightarrow> job_fresh j \<and> job_id j = i \<and> job_tasks j = []"
  by (auto simp: job_create_def job_fresh_def job_wf_def opts_default_valid split: if_splits)

lemma job_set_opts_fresh:
  "job_fresh j \<Longrightarrow> opts_valid opt \<Longrightarrow> job_set_opts j (Some opt) = j\<lparr>job_opts := opt\<rparr> \<and> job_fresh (job_set_opts j (Some opt))"
  by (simp add: job_set_opts_full opts_valid_def job_fresh_def job_wf_def)

lemma job_add_task_fresh:
  "job_fresh j \<Longrightarrow> task_valid t \<Longrightarrow> job_fresh (snd (job_add_task ok j t))"
  by (auto simp: job_add_task_def job_fresh_def job_wf_def task_valid_def)

lemma decode_tasks_fresh:
  "decode_tasks tok nok i vs j = Some j' \<Longrightarrow> job_fresh j \<Longrightarrow>
   job_fresh j' \<and> job_id j' = job_id j \<and> job_opts j' = job_opts j \<and> length (job_tasks j') = length (job_tasks j) + length vs"
proof (induction vs arbitrary: i j)
  case (Cons v vs)
  from Cons.prems obtain t where t: "task_decode (tok i) (Some v) = Some t" "nok i"
    and rest: "decode_tasks tok nok (Suc i) vs (snd (job_add_task True j t)) = Some j'"
    by (auto simp: job_add_task_def split: option.splits prod.splits if_splits)
  from Cons.IH [OF rest job_add_task_fresh [OF Cons.prems(2) task_decode_valid [OF t(1)]]]
  show ?case by (simp add: job_add_task_def)
qed simp

lemma decode_tasks_encoded:
  assumes "\<forall>t \<in> set ts. task_valid t"
  shows "decode_tasks (\<lambda>_. True) (\<lambda>_. True) i (map (\<lambda>t. JObject [(''name'', JString (task_name t))]) ts) j =
     Some (j\<lparr>job_size := job_size j + length ts, job_tasks := job_tasks j @ ts\<rparr>)"
  using assms by (induction ts arbitrary: i j) (simp_all add: task_decode_name job_add_task_def)

lemma encode_list_eq:
  assumes "\<forall>t \<in> set ts. enc t = Inr (Some (f t))"
  shows "encode_list enc ts (Some (JArray vs)) = Inr (Some (JArray (vs @ map f ts)))"
  using assms by (induction ts arbitrary: vs) simp_all

lemma job_encode_eq:
  "job_encode True j = Inr (Some (JObject
     [(''id'', JInteger (json_of_int (job_id j))),
      (''execMode'', JString (job_exec_mode_map (exec_mode (job_opts j)))),
      (''runMode'', JString (job_run_mode_map (run_mode (job_opts j)))),
      (''tasks'', JArray (map (\<lambda>t. JObject [(''name'', JString (c_str (task_name t)))]) (job_tasks j)))]))"
proof -
  have "c_str (job_exec_mode_map m) = job_exec_mode_map m" "c_str (job_run_mode_map m) = job_run_mode_map m" for m
    by (simp_all add: job_exec_mode_map_def job_run_mode_map_def)
  then show ?thesis
    by (simp add: job_encode_def json_array_new_def task_encode_eq
        encode_list_eq [where f = "\<lambda>t. JObject [(''name'', JString (c_str (task_name t)))]"])
qed

lemma job_decodeE:
  assumes "job_decode cok tok nok v = Some j"
  obtains v' i vs j0 where "v = Some v'" "get_value v' ''id'' = Some (JInteger i)" "get_value v' ''tasks'' = Some (JArray vs)"
    "job_create cok (int_of_json i) = Some j0"
    "decode_tasks tok nok 0 vs (job_set_opts j0 (Some (decode_run_mode (get_value v' ''runMode'')
       (decode_exec_mode (get_value v' ''execMode'') job_opts_default)))) = Some j"
  using assms by (auto simp: job_decode_def Let_def split: option.splits json_value.splits if_splits)

lemma job_decode_fresh:
  assumes "job_decode cok tok nok v = Some j"
  shows "job_fresh j \<and> (\<exists>v' i vs. v = Some v' \<and> get_value v' ''id'' = Some (JInteger i) \<and>
    get_value v' ''tasks'' = Some (JArray vs) \<and> job_id j = int_of_json i \<and> length (job_tasks j) = length vs)"
proof (rule job_decodeE [OF assms])
  fix v' i vs j0
  let ?opts = "decode_run_mode (get_value v' ''runMode'') (decode_exec_mode (get_value v' ''execMode'') job_opts_default)"
  assume v: "v = Some v'" "get_value v' ''id'' = Some (JInteger i)" "get_value v' ''tasks'' = Some (JArray vs)"
    and j0: "job_create cok (int_of_json i) = Some j0"
    and dec: "decode_tasks tok nok 0 vs (job_set_opts j0 (Some ?opts)) = Some j"
  have "job_set_opts j0 (Some ?opts) = j0\<lparr>job_opts := ?opts\<rparr> \<and> job_fresh (job_set_opts j0 (Some ?opts))"
    using job_create_fresh [OF j0] by (intro job_set_opts_fresh decode_modes_valid opts_default_valid) auto
  with decode_tasks_fresh [OF dec] job_create_fresh [OF j0] v show ?thesis by auto
qed

lemma job_round_trip_fresh:
  assumes "job_fresh j"
  shows "\<exists>v. job_encode True j = Inr (Some v) \<and> job_decode_ok (Some v) = Some j"
proof -
  from assms have valid: "\<forall>t \<in> set (job_tasks j). task_valid t"
    and names: "map (\<lambda>t. JObject [(''name'', JString (c_str (task_name t)))]) (job_tasks j) =
      map (\<lambda>t. JObject [(''name'', JString (task_name t))]) (job_tasks j)"
    by (auto simp: job_fresh_def job_wf_def task_valid_def)
  from assms have opts: "decode_run_mode (Some (JString (job_run_mode_map (run_mode (job_opts j)))))
      (decode_exec_mode (Some (JString (job_exec_mode_map (exec_mode (job_opts j))))) job_opts_default) = job_opts j"
    by (cases "job_opts j") (auto simp: job_fresh_def job_wf_def opts_valid_def decode_run_mode_def decode_exec_mode_def
        job_run_mode_map_def job_exec_mode_map_def job_opts_default_def sizeof_job_opts_def streq_def)
  let ?j0 = "\<lparr>job_id = job_id j, job_status = JOB_READY, job_size = 0, job_opts = job_opts_default, job_tasks = []\<rparr>"
  from assms have "job_create True (job_id j) = Some ?j0" by (simp add: job_create_def job_fresh_def job_wf_def)
  moreover from assms have "job_set_opts ?j0 (Some (job_opts j)) = ?j0\<lparr>job_opts := job_opts j\<rparr>"
    by (simp add: job_set_opts_full job_fresh_def job_wf_def opts_valid_def)
  moreover from assms have "?j0\<lparr>job_opts := job_opts j, job_size := length (job_tasks j), job_tasks := job_tasks j\<rparr> = j"
    by (simp add: job_fresh_def job_wf_def)
  ultimately show ?thesis
    by (simp add: job_encode_eq job_decode_def names opts streq_def decode_tasks_encoded [OF valid])
qed

interpretation job_codec: json_codec "job_encode True" job_decode_ok job_fresh
  by unfold_locales (use job_round_trip_fresh job_decode_fresh in blast)+

section \<open>What jobs promise\<close>

text \<open>
  Property C19. Every job the decoder makes can be encoded, and decoding the result gives
  the same job: identifier, options, and the tasks in their order.
\<close>

theorem job_round_trip:
  assumes "job_decode_ok v = Some j"
  shows "\<exists>v'. job_encode True j = Inr (Some v') \<and> job_decode_ok (Some v') = Some j"
  using assms by (rule job_codec.dec_enc_dec)

definition job_json_example :: json_value where
  "job_json_example = JObject [(''runMode'', JString ''repeat''), (''id'', JInteger 7),
     (''tasks'', JArray [JObject [(''name'', JString ''t.py'')]])]"

definition job_example :: job where
  "job_example = \<lparr>job_id = 7, job_status = JOB_READY, job_size = 1,
     job_opts = \<lparr>opts_size = 16, exec_mode = JOB_EXEC_SEQUENTIAL, run_mode = JOB_RUN_REPEAT\<rparr>, job_tasks = [task_example]\<rparr>"

lemma job_json_example_decode: "job_decode_ok (Some job_json_example) = Some job_example"
  by (simp add: job_decode_def job_json_example_def job_example_def streq_def int_of_json_def job_create_def
      decode_run_mode_def decode_exec_mode_def job_opts_default_def sizeof_job_opts_def job_set_opts_full
      task_decode_def task_create_def strlen_def job_add_task_def task_example_def)

theorem job_round_trip_witness:
  "\<exists>v'. job_encode True job_example = Inr (Some v') \<and> job_decode_ok (Some v') = Some job_example"
  using job_round_trip [OF job_json_example_decode] .

text \<open>
  Property C20. Whatever JSON value a job is decoded from, the job is well formed: its
  identifier is positive, its size is the number of its tasks, its modes are those of the
  enumerations, and it has one READY task with a nonempty name per element of the array.
\<close>

theorem job_decode_sound:
  assumes "job_decode cok tok nok v = Some j"
  shows "0 < sint (job_id j) \<and> job_size j = length (job_tasks j) \<and>
         exec_mode (job_opts j) \<in> {0, 1} \<and> run_mode (job_opts j) \<in> {0, 1} \<and>
         (\<forall>t \<in> set (job_tasks j). task_status t = TASK_READY \<and> task_name t \<noteq> []) \<and>
         (\<exists>v' i vs. v = Some v' \<and> get_value v' ''id'' = Some (JInteger i) \<and> get_value v' ''tasks'' = Some (JArray vs) \<and>
            job_id j = int_of_json i \<and> length (job_tasks j) = length vs)"
  using job_decode_fresh [OF assms] by (auto simp: job_fresh_def job_wf_def opts_valid_def)

theorem job_decode_sound_witness: "0 < sint (job_id job_example) \<and> job_size job_example = 1"
  using job_decode_sound [OF job_json_example_decode] by (simp add: job_example_def)

text \<open>
  The identifier of a JSON job has 64 bits and that of a job 32: decoding
  keeps the low half, so identifiers that differ by a multiple of \<open>2 ^ 32\<close> become the
  same job.
\<close>

theorem job_decode_truncates_id:
  "job_decode cok tok nok (Some (JObject [(''id'', JInteger (i + k * 2 ^ 32)), (''tasks'', JArray vs)])) =
   job_decode cok tok nok (Some (JObject [(''id'', JInteger i), (''tasks'', JArray vs)]))"
proof -
  have "int_of_json (i + k * 2 ^ 32) = int_of_json i"
    unfolding int_of_json_def by transfer (simp add: take_bit_eq_mod mod_mod_cancel)
  then show ?thesis
    by (cases "job_create cok (int_of_json i)") (simp_all add: job_decode_def streq_def)
qed

lemma count_statuses_nth:
  assumes "length cs = 5" and "i < 5"
  shows "count_statuses ts cs ! i = cs ! i + length (filter (\<lambda>t. task_status t = int i) ts)"
  using assms
proof (induction ts arbitrary: cs)
  case (Cons t ts)
  then show ?case by (auto simp: Let_def task_get_status_def nth_list_update)
qed simp

lemma count_statuses_pos:
  "i < 5 \<Longrightarrow> 0 < count_statuses ts [0, 0, 0, 0, 0] ! i \<longleftrightarrow> (\<exists>t \<in> set ts. task_status t = int i)"
proof -
  assume i: "i < 5"
  then have "[0, 0, 0, 0, 0 :: nat] ! i = 0" by (auto simp: less_Suc_eq numeral_eq_Suc)
  with i show ?thesis by (auto simp: count_statuses_nth filter_empty_conv)
qed

lemma job_status_derived:
  assumes "job_size j = length (job_tasks j)" and "job_tasks j \<noteq> []"
    and "\<forall>t \<in> set (job_tasks j). task_status t \<in> {0..4}"
  shows "fst (job_get_status j) =
     (if \<exists>t \<in> set (job_tasks j). task_status t = TASK_RUNNING then JOB_RUNNING
      else if \<exists>t \<in> set (job_tasks j). task_status t = TASK_NOT_READY then JOB_NOT_READY
      else if \<exists>t \<in> set (job_tasks j). task_status t = TASK_INCOMPLETE then JOB_INCOMPLETE
      else if \<exists>t \<in> set (job_tasks j). task_status t = TASK_READY then JOB_READY
      else JOB_COMPLETED) \<and>
     (fst (job_get_status j) = JOB_COMPLETED \<longleftrightarrow> (\<forall>t \<in> set (job_tasks j). task_status t = TASK_COMPLETED))"
proof -
  have range: "task_status t = 0 \<or> task_status t = 1 \<or> task_status t = 2 \<or> task_status t = 3 \<or> task_status t = 4"
    if "t \<in> set (job_tasks j)" for t
    using assms(3) that by fastforce
  have size: "job_size j \<noteq> 0" using assms(1,2) by simp
  have prio: "fst (job_get_status j) =
     (if \<exists>t \<in> set (job_tasks j). task_status t = TASK_RUNNING then JOB_RUNNING
      else if \<exists>t \<in> set (job_tasks j). task_status t = TASK_NOT_READY then JOB_NOT_READY
      else if \<exists>t \<in> set (job_tasks j). task_status t = TASK_INCOMPLETE then JOB_INCOMPLETE
      else if \<exists>t \<in> set (job_tasks j). task_status t = TASK_READY then JOB_READY
      else JOB_COMPLETED)"
    using size by (simp add: job_get_status_def job_update_status_def Let_def count_statuses_pos)
  moreover have "(fst (job_get_status j) = JOB_COMPLETED) = (\<forall>t \<in> set (job_tasks j). task_status t = TASK_COMPLETED)"
  proof
    assume "fst (job_get_status j) = JOB_COMPLETED"
    then show "\<forall>t \<in> set (job_tasks j). task_status t = TASK_COMPLETED"
      unfolding prio using range by (auto split: if_splits)
  qed (simp add: prio)
  ultimately show ?thesis by blast
qed

lemma job_get_status_completed:
  assumes "job_size j = length (job_tasks j)" and "job_tasks j \<noteq> []"
    and "\<forall>t \<in> set (job_tasks j). task_status t \<in> {0..4}"
  shows "fst (job_get_status j) = JOB_COMPLETED \<longleftrightarrow> (\<forall>t \<in> set (job_tasks j). task_status t = TASK_COMPLETED)"
  using job_status_derived [OF assms] by blast

text \<open>
  Property C21. The derived status follows the documented priority: RUNNING if a task is
  running, otherwise NOT_READY if a task is not ready, otherwise INCOMPLETE if a task is
  incomplete, otherwise READY if a task is ready, and COMPLETED exactly when every task
  is completed.
\<close>

theorem job_status_priority:
  assumes "job_size j = length (job_tasks j)" and "job_tasks j \<noteq> []"
    and "\<forall>t \<in> set (job_tasks j). task_status t \<in> {0..4}"
  shows "fst (job_get_status j) =
     (if \<exists>t \<in> set (job_tasks j). task_status t = TASK_RUNNING then JOB_RUNNING
      else if \<exists>t \<in> set (job_tasks j). task_status t = TASK_NOT_READY then JOB_NOT_READY
      else if \<exists>t \<in> set (job_tasks j). task_status t = TASK_INCOMPLETE then JOB_INCOMPLETE
      else if \<exists>t \<in> set (job_tasks j). task_status t = TASK_READY then JOB_READY
      else JOB_COMPLETED) \<and>
     (fst (job_get_status j) = JOB_COMPLETED \<longleftrightarrow> (\<forall>t \<in> set (job_tasks j). task_status t = TASK_COMPLETED))"
  using assms by (rule job_status_derived)

theorem job_status_priority_witness: "fst (job_get_status job_example) = JOB_READY"
  using job_status_priority [of job_example] by (simp add: job_example_def task_example_def)

section \<open>Freeing a job\<close>

text \<open>
  The blocks of a job with \<open>n\<close> tasks: the structure, and for each task its node of the
  list, its structure and its name. \<^verbatim>\<open>job_destroy\<close> walks the list and reads the
  successor of a node before it frees the node; reading a node that was freed is a fault.
\<close>

datatype job_block = Job_Struct | Job_Node nat | Task_Struct nat | Task_Name nat

definition task_destroy :: "nat option \<Rightarrow> job_block list \<Rightarrow> job_block list cres" where
  "task_destroy t live =
     (case t of None \<Rightarrow> Inr live | Some i \<Rightarrow> free_blocks [Task_Name i, Task_Struct i] live)"

function destroy_nodes :: "nat \<Rightarrow> nat \<Rightarrow> job_block list \<Rightarrow> job_block list cres" where
  "destroy_nodes cur n live =
     (if cur < n then
        if Job_Node cur \<notin> set live then Inl Use_After_Free
        else
          (case task_destroy (Some cur) live of
             Inl f \<Rightarrow> Inl f
           | Inr live \<Rightarrow>
               (case free_blocks [Job_Node cur] live of
                  Inl f \<Rightarrow> Inl f
                | Inr live \<Rightarrow> destroy_nodes (Suc cur) n live))
      else Inr live)"
  by pat_completeness auto
termination
  by (relation "measure (\<lambda>(cur, n, live). n - cur)") auto

declare destroy_nodes.simps [simp del]

definition free_job :: "job option \<Rightarrow> job_block list \<Rightarrow> job_block list cres" where
  "free_job j live =
     (case j of
        None \<Rightarrow> Inr live
      | Some j \<Rightarrow>
          (case destroy_nodes 0 (length (job_tasks j)) live of
             Inl f \<Rightarrow> Inl f
           | Inr live \<Rightarrow> free_blocks [Job_Struct] live))"

definition node_blocks :: "nat \<Rightarrow> job_block list" where
  "node_blocks i = [Task_Name i, Task_Struct i, Job_Node i]"

definition job_blocks :: "job \<Rightarrow> job_block list" where
  "job_blocks j = Job_Struct # concat (map node_blocks [0..<length (job_tasks j)])"

lemma destroy_nodes_spec:
  "mset (concat (map node_blocks [cur..<n])) \<subseteq># mset live
   \<Longrightarrow> \<exists>live'. destroy_nodes cur n live = Inr live'
        \<and> mset live = mset (concat (map node_blocks [cur..<n])) + mset live'"
proof (induction "n - cur" arbitrary: cur live)
  case (Suc k)
  then have lt: "cur < n" by simp
  then have upt: "[cur..<n] = cur # [Suc cur..<n]" by (rule upt_conv_Cons)
  obtain rest where rest: "mset live = mset (node_blocks cur) + mset (concat (map node_blocks [Suc cur..<n])) + rest"
    using Suc.prems unfolding upt by (auto simp: mset_subset_eq_exists_conv)
  obtain live1 where live1: "task_destroy (Some cur) live = Inr live1"
      "mset live = mset [Task_Name cur, Task_Struct cur] + mset live1"
    using free_blocks_spec [of "[Task_Name cur, Task_Struct cur]" live] rest
    by (auto simp: task_destroy_def node_blocks_def)
  with rest have m1: "mset live1 = mset [Job_Node cur] + (mset (concat (map node_blocks [Suc cur..<n])) + rest)"
    by (simp add: node_blocks_def)
  then obtain live2 where live2: "free_blocks [Job_Node cur] live1 = Inr live2" "mset live1 = mset [Job_Node cur] + mset live2"
    using free_blocks_spec [of "[Job_Node cur]" live1] by auto
  with m1 have m2: "mset live2 = mset (concat (map node_blocks [Suc cur..<n])) + rest" by simp
  have k: "k = n - Suc cur" using Suc(2) by simp
  from m2 Suc(1) [OF k, of live2] obtain live3 where live3: "destroy_nodes (Suc cur) n live2 = Inr live3"
      "mset live2 = mset (concat (map node_blocks [Suc cur..<n])) + mset live3"
    by auto
  have "Job_Node cur \<in># mset live" by (simp only: rest) (simp add: node_blocks_def)
  then have "Job_Node cur \<in> set live" by simp
  with lt live1(1) live2(1) live3 m2 rest upt show ?case
    by (auto simp: destroy_nodes.simps [of cur])
qed (simp add: destroy_nodes.simps)

text \<open>
  Property C22. \<^verbatim>\<open>job_destroy\<close> frees every block of the job exactly once, reads no freed node and
  touches nothing else, whatever else is allocated.
\<close>

theorem free_job_exact:
  assumes "mset live = mset (job_blocks j) + mset others"
  shows "\<exists>live'. free_job (Some j) live = Inr live' \<and> mset live' = mset others"
proof -
  let ?nodes = "concat (map node_blocks [0..<length (job_tasks j)])"
  from assms have "mset ?nodes \<subseteq># mset live" by (simp add: job_blocks_def subset_mset.add_increasing2)
  then obtain live1 where live1: "destroy_nodes 0 (length (job_tasks j)) live = Inr live1" "mset live = mset ?nodes + mset live1"
    using destroy_nodes_spec by blast
  with assms have m: "mset live1 = mset [Job_Struct] + mset others" by (simp add: job_blocks_def)
  then obtain live2 where "free_blocks [Job_Struct] live1 = Inr live2" "mset live1 = mset [Job_Struct] + mset live2"
    using free_blocks_spec [of "[Job_Struct]" live1] by auto
  with m live1(1) show ?thesis by (simp add: free_job_def del: free_blocks.simps)
qed

theorem free_job_exact_witness: "\<exists>live'. free_job (Some job_example) (job_blocks job_example) = Inr live' \<and> mset live' = {#}"
  using free_job_exact [of "job_blocks job_example" job_example "[]"] by simp

end
