(* ===== verification/Job_Runner.thy ===== *)
theory Job_Runner
  imports Job
begin

text \<open>
  The execution of jobs (second half of \<^verbatim>\<open>blueprint/job.c\<close>): the two job threads,
  one pass over the tasks and the loop of passes, and the operations on a job runner.

  What a task's own run does is given by an environment that says for the task at each
  position how its run ends; the possible ends are those of \<^verbatim>\<open>Task\<close>:
  \<^verbatim>\<open>task_run\<close> returns NULL, the run ends and leaves a status, or the job thread is
  cancelled while it waits for this task, whose run is then stopped and leaves a status.
  The theorems relate the parallel to the sequential thread, say when a pass completes
  and when the loop ends, and what the counters of the runner mean.
\<close>

section \<open>One pass over the tasks\<close>

datatype run_result =
    Run_Null
  | Run_Ends int
  | Run_Cancelled int

datatype pass_outcome = Pass_Completed | Pass_Broken | Pass_Cancelled

abbreviation (input) runnable :: "task \<Rightarrow> bool" where
  "runnable t \<equiv> task_get_status t = TASK_READY \<or> task_get_status t = TASK_INCOMPLETE"

abbreviation (input) inconsistent :: "task \<Rightarrow> bool" where
  "inconsistent t \<equiv> task_get_status t = TASK_NOT_READY \<or> task_get_status t = TASK_RUNNING"

text \<open>
  The loop of \<^verbatim>\<open>job_thread_sequential\<close>. The status is read once, before the run.
\<close>

fun seq_pass :: "(nat \<Rightarrow> run_result) \<Rightarrow> nat \<Rightarrow> task list \<Rightarrow> task list \<times> pass_outcome" where
  "seq_pass env i [] = ([], Pass_Completed)"
| "seq_pass env i (t # ts) =
     (if runnable t then
        (case env i of
           Run_Null \<Rightarrow> (t # ts, Pass_Broken)
         | Run_Cancelled st \<Rightarrow> (task_set_status t st # ts, Pass_Cancelled)
         | Run_Ends st \<Rightarrow>
             (case seq_pass env (Suc i) ts of (ts', out) \<Rightarrow> (task_set_status t st # ts', out)))
      else if inconsistent t then (t # ts, Pass_Broken)
      else (case seq_pass env (Suc i) ts of (ts', out) \<Rightarrow> (t # ts', out)))"

text \<open>
  The loops of \<^verbatim>\<open>job_thread_parallel\<close>: first every runnable task is started and its
  runner stored in the array \<^verbatim>\<open>task_runners\<close> of capacity \<open>cap\<close>, then all are
  waited for. The array holds the positions of the tasks started.
\<close>

fun par_launch ::
  "(nat \<Rightarrow> run_result) \<Rightarrow> nat \<Rightarrow> nat \<Rightarrow> task list \<Rightarrow> nat list \<Rightarrow> (nat list \<times> bool) cres" where
  "par_launch env cap i [] runners = Inr (runners, True)"
| "par_launch env cap i (t # ts) runners =
     (if runnable t then
        (if env i = Run_Null then Inr (runners, False)
         else if cap \<le> length runners then Inl Out_Of_Bounds
         else par_launch env cap (Suc i) ts (runners @ [i]))
      else if inconsistent t then Inr (runners, False)
      else par_launch env cap (Suc i) ts runners)"

fun ended_status :: "run_result \<Rightarrow> int" where
  "ended_status (Run_Ends st) = st"
| "ended_status (Run_Cancelled st) = st"
| "ended_status Run_Null = TASK_READY"

fun par_wait :: "(nat \<Rightarrow> run_result) \<Rightarrow> nat list \<Rightarrow> task list \<Rightarrow> task list" where
  "par_wait env [] ts = ts"
| "par_wait env (i # rs) ts =
     par_wait env rs (ts[i := task_set_status (ts ! i) (ended_status (env i))])"

fun run_cancelled :: "run_result \<Rightarrow> bool" where
  "run_cancelled (Run_Cancelled st) = True"
| "run_cancelled r = False"

definition par_pass :: "(nat \<Rightarrow> run_result) \<Rightarrow> nat \<Rightarrow> task list \<Rightarrow> (task list \<times> pass_outcome) cres" where
  "par_pass env cap ts =
     (case par_launch env cap 0 ts [] of
        Inl e \<Rightarrow> Inl e
      | Inr (runners, completion) \<Rightarrow>
          Inr (par_wait env runners ts,
               if \<exists>i \<in> set runners. run_cancelled (env i) then Pass_Cancelled
               else if completion then Pass_Completed
               else Pass_Broken))"

section \<open>The loop of passes\<close>

text \<open>The counters are \<^verbatim>\<open>int\<close>s in the source and are not taken to overflow.\<close>

record job_runner_info =
  attempts :: nat
  completions :: nat
  successes :: nat

definition job_runner_info_defaults :: job_runner_info where
  "job_runner_info_defaults = \<lparr>attempts = 0, completions = 0, successes = 0\<rparr>"

record job_runner =
  jr_job :: job
  jr_info :: job_runner_info
  jr_capacity :: nat

text \<open>
  One turn of the \<^verbatim>\<open>do\<close> loop. The result says whether the loop goes on; a broken or
  cancelled pass sets \<^verbatim>\<open>repeat\<close> to false or ends the thread.
\<close>

definition job_turn ::
  "(nat \<Rightarrow> run_result) \<Rightarrow> bool \<Rightarrow> job_runner \<Rightarrow> (job_runner \<times> bool) cres" where
  "job_turn env repeats r =
     (let info = (jr_info r)\<lparr>attempts := attempts (jr_info r) + 1\<rparr>
      in case (if exec_mode (job_opts (jr_job r)) = JOB_EXEC_PARALLEL
               then par_pass env (jr_capacity r) (job_tasks (jr_job r))
               else Inr (seq_pass env 0 (job_tasks (jr_job r)))) of
           Inl e \<Rightarrow> Inl e
         | Inr (ts, out) \<Rightarrow>
             let j = (jr_job r)\<lparr>job_tasks := ts\<rparr>
             in if out \<noteq> Pass_Completed then Inr (r\<lparr>jr_job := j, jr_info := info\<rparr>, False)
                else
                  let info = info\<lparr>completions := completions info + 1\<rparr>;
                      (st, j) = job_get_status j;
                      info = (if st = JOB_COMPLETED then info\<lparr>successes := successes info + 1\<rparr> else info);
                      j = (if repeats then reset_status j else j)
                  in Inr (r\<lparr>jr_job := j, jr_info := info\<rparr>, repeats))"

text \<open>The thread; \<open>envs k\<close> is the environment of pass \<open>k\<close>. No result means it runs for ever.\<close>

partial_function (option) job_thread ::
  "(nat \<Rightarrow> nat \<Rightarrow> run_result) \<Rightarrow> nat \<Rightarrow> bool \<Rightarrow> job_runner \<Rightarrow> job_runner cres option" where
  "job_thread envs k repeats r =
     (case job_turn (envs k) repeats r of
        Inl e \<Rightarrow> Some (Inl e)
      | Inr (r', again) \<Rightarrow> if again then job_thread envs (Suc k) repeats r' else Some (Inr r'))"

definition job_thread_run :: "(nat \<Rightarrow> nat \<Rightarrow> run_result) \<Rightarrow> job_runner \<Rightarrow> job_runner cres option" where
  "job_thread_run envs r = job_thread envs 0 (run_mode (job_opts (jr_job r)) = JOB_RUN_REPEAT) r"

section \<open>Job runners\<close>

abbreviation (input) EINVAL :: int where "EINVAL \<equiv> 22"

definition job_thread_create :: "int \<Rightarrow> job \<Rightarrow> int" where
  "job_thread_create create_err j =
     (if exec_mode (job_opts j) = JOB_EXEC_PARALLEL then create_err
      else if exec_mode (job_opts j) = JOB_EXEC_SEQUENTIAL then create_err
      else EINVAL)"

definition job_run :: "bool \<Rightarrow> int \<Rightarrow> job \<Rightarrow> site option \<Rightarrow> job_runner option" where
  "job_run malloc_ok create_err j s =
     (if s = None \<or> job_size j = 0 then None
      else if \<not> malloc_ok then None
      else if job_thread_create create_err j \<noteq> 0 then None
      else Some \<lparr>jr_job = j, jr_info = job_runner_info_defaults, jr_capacity = job_size j\<rparr>)"

definition job_runner_get_info :: "job_runner \<Rightarrow> job_runner_info" where
  "job_runner_get_info r = jr_info r"

text \<open>The calls on the thread handle, as for task runners.\<close>

definition job_runner_stop :: "ctl_op list" where
  "job_runner_stop = [Op_Cancel, Op_Join]"

definition job_runner_wait :: "ctl_op list" where
  "job_runner_wait = [Op_Join]"

definition job_runner_restart :: "int \<Rightarrow> job \<Rightarrow> ctl_op list" where
  "job_runner_restart create_err j = [Op_Cancel, Op_Join, Op_Create (job_thread_create create_err j)]"

definition job_runner_destroy :: "ctl_op list" where
  "job_runner_destroy = job_runner_stop @ [Op_Free]"

section \<open>Both threads do the same pass\<close>

lemma seq_pass_length [simp]: "length (fst (seq_pass env i ts)) = length ts"
proof (induction ts arbitrary: i)
  case (Cons t ts)
  then show ?case by (cases "env i") (auto simp: split_beta)
qed simp

text \<open>The positions a pass starts, and whether it gets to the end of the list.\<close>

fun launched :: "(nat \<Rightarrow> run_result) \<Rightarrow> nat \<Rightarrow> task list \<Rightarrow> nat list" where
  "launched env i [] = []"
| "launched env i (t # ts) =
     (if runnable t then (if env i = Run_Null then [] else i # launched env (Suc i) ts)
      else if inconsistent t then []
      else launched env (Suc i) ts)"

fun gets_through :: "(nat \<Rightarrow> run_result) \<Rightarrow> nat \<Rightarrow> task list \<Rightarrow> bool" where
  "gets_through env i [] \<longleftrightarrow> True"
| "gets_through env i (t # ts) \<longleftrightarrow>
     (if runnable t then env i \<noteq> Run_Null \<and> gets_through env (Suc i) ts
      else \<not> inconsistent t \<and> gets_through env (Suc i) ts)"

lemma launched_range: "k \<in> set (launched env i ts) \<Longrightarrow> i \<le> k \<and> k < i + length ts \<and> env k \<noteq> Run_Null"
proof (induction ts arbitrary: i)
  case (Cons t ts)
  then show ?case by (force split: if_splits)
qed simp

lemma launched_length: "length (launched env i ts) \<le> length ts"
  by (induction ts arbitrary: i) (auto intro: le_SucI)

text \<open>The runner array never overflows when its capacity is the number of tasks.\<close>

lemma par_launch_eq:
  assumes "length runners + length ts \<le> cap"
  shows "par_launch env cap i ts runners = Inr (runners @ launched env i ts, gets_through env i ts)"
  using assms by (induction ts arbitrary: i runners) auto

lemma par_wait_length [simp]: "length (par_wait env rs ts) = length ts"
  by (induction rs arbitrary: ts) auto

lemma par_wait_nth:
  assumes "k < length ts"
  shows "par_wait env rs ts ! k =
    (if k \<in> set rs then task_set_status (ts ! k) (ended_status (env k)) else ts ! k)"
  using assms
proof (induction rs arbitrary: ts)
  case (Cons a rs)
  then show ?case by (cases "a = k") (simp_all add: task_set_status_def)
qed simp

lemma seq_pass_nth:
  assumes "\<forall>j \<in> set (launched env i ts). \<not> run_cancelled (env j)" and "k < length ts"
  shows "fst (seq_pass env i ts) ! k =
    (if i + k \<in> set (launched env i ts) then task_set_status (ts ! k) (ended_status (env (i + k))) else ts ! k)"
  using assms
proof (induction ts arbitrary: i k)
  case (Cons t ts)
  have IH: "fst (seq_pass env (Suc i) ts) ! m = (if Suc i + m \<in> set (launched env (Suc i) ts)
      then task_set_status (ts ! m) (ended_status (env (Suc i + m))) else ts ! m)"
    if "m < length ts" "\<forall>j \<in> set (launched env (Suc i) ts). \<not> run_cancelled (env j)" for m
    using Cons.IH that by blast
  have notin: "i \<notin> set (launched env (Suc i) ts)" using launched_range by fastforce
  show ?case
  proof (cases k)
    case 0
    with Cons.prems notin show ?thesis by (cases "env i") (auto simp: split_beta)
  next
    case (Suc m)
    with Cons.prems notin IH [of m] show ?thesis by (cases "env i") (auto simp: split_beta)
  qed
qed simp

lemma seq_pass_outcome:
  assumes "\<forall>j \<in> set (launched env i ts). \<not> run_cancelled (env j)"
  shows "snd (seq_pass env i ts) = (if gets_through env i ts then Pass_Completed else Pass_Broken)"
  using assms
proof (induction ts arbitrary: i)
  case (Cons t ts)
  then show ?case by (cases "env i") (auto simp: split_beta)
qed simp

lemma par_pass_eq:
  assumes "length ts \<le> cap"
  shows "par_pass env cap ts = Inr (par_wait env (launched env 0 ts) ts,
    if \<exists>i \<in> set (launched env 0 ts). run_cancelled (env i) then Pass_Cancelled
    else if gets_through env 0 ts then Pass_Completed else Pass_Broken)"
  using assms by (simp add: par_pass_def par_launch_eq)


text \<open>Two tasks, of which the first fails and the second succeeds.\<close>

definition env_example :: "nat \<Rightarrow> run_result" where
  "env_example i = Run_Ends (if i = 0 then TASK_NOT_READY else TASK_COMPLETED)"


section \<open>The counters and the end of the loop\<close>

definition info_inv :: "job_runner_info \<Rightarrow> bool" where
  "info_inv i \<longleftrightarrow> successes i \<le> completions i \<and> completions i \<le> attempts i"

definition runner_wf :: "job_runner \<Rightarrow> bool" where
  "runner_wf r \<longleftrightarrow> jr_capacity r = length (job_tasks (jr_job r)) \<and> job_size (jr_job r) = length (job_tasks (jr_job r)) \<and>
     info_inv (jr_info r)"

text \<open>The tasks and the outcome of a pass, for either thread.\<close>

definition pass_tasks :: "(nat \<Rightarrow> run_result) \<Rightarrow> job_runner \<Rightarrow> task list \<times> pass_outcome" where
  "pass_tasks env r =
     (if exec_mode (job_opts (jr_job r)) = JOB_EXEC_PARALLEL
      then projr (par_pass env (jr_capacity r) (job_tasks (jr_job r)))
      else seq_pass env 0 (job_tasks (jr_job r)))"

lemma pass_tasks_length: "runner_wf r \<Longrightarrow> length (fst (pass_tasks env r)) = length (job_tasks (jr_job r))"
  by (simp add: pass_tasks_def runner_wf_def par_pass_eq)

lemma job_update_status_fields [simp]:
  "job_tasks (job_update_status j) = job_tasks j" "job_size (job_update_status j) = job_size j"
  "job_opts (job_update_status j) = job_opts j" "job_id (job_update_status j) = job_id j"
  by (simp_all add: job_update_status_def Let_def)

lemma job_turn_eq:
  assumes "runner_wf r"
  shows "job_turn env repeats r =
    (let info = (jr_info r)\<lparr>attempts := attempts (jr_info r) + 1\<rparr>;
         j = (jr_job r)\<lparr>job_tasks := fst (pass_tasks env r)\<rparr>
     in if snd (pass_tasks env r) \<noteq> Pass_Completed then Inr (r\<lparr>jr_job := j, jr_info := info\<rparr>, False)
        else
          let info = info\<lparr>completions := completions info + 1\<rparr>;
              info = (if fst (job_get_status j) = JOB_COMPLETED then info\<lparr>successes := successes info + 1\<rparr> else info);
              j = (if repeats then reset_status (job_update_status j) else job_update_status j)
          in Inr (r\<lparr>jr_job := j, jr_info := info\<rparr>, repeats))"
  using assms
  by (simp add: job_turn_def pass_tasks_def runner_wf_def par_pass_eq Let_def job_get_status_def split_beta)

lemma job_turn_wf:
  assumes "runner_wf r" and "job_turn env repeats r = Inr (r', again)"
  shows "runner_wf r' \<and> job_opts (jr_job r') = job_opts (jr_job r) \<and> (again \<longrightarrow> repeats) \<and>
    attempts (jr_info r') = attempts (jr_info r) + 1"
  using assms pass_tasks_length [OF assms(1), of env]
  by (auto simp: job_turn_eq Let_def runner_wf_def info_inv_def reset_status_def split: if_splits)

lemma job_turn_ok: "runner_wf r \<Longrightarrow> \<exists>r' again. job_turn env repeats r = Inr (r', again)"
  by (auto simp: job_turn_eq Let_def)


lemma job_thread_invariant:
  assumes "job_thread envs k repeats r = Some res" and "runner_wf r"
  shows "\<exists>r'. res = Inr r' \<and> info_inv (jr_info r') \<and> attempts (jr_info r) < attempts (jr_info r')"
proof -
  have "runner_wf r \<longrightarrow> (\<exists>r'. res = Inr r' \<and> info_inv (jr_info r') \<and> attempts (jr_info r) < attempts (jr_info r'))"
    using _ assms(1)
  proof (rule job_thread.raw_induct)
    fix thread :: "(nat \<Rightarrow> nat \<Rightarrow> run_result) \<Rightarrow> nat \<Rightarrow> bool \<Rightarrow> job_runner \<Rightarrow> job_runner cres option" and envs k repeats r res
    assume IH: "\<And>envs k repeats r res. thread envs k repeats r = Some res \<Longrightarrow>
        runner_wf r \<longrightarrow> (\<exists>r'. res = Inr r' \<and> info_inv (jr_info r') \<and> attempts (jr_info r) < attempts (jr_info r'))"
      and eq: "(case job_turn (envs k) repeats r of Inl e \<Rightarrow> Some (Inl e)
        | Inr (r', again) \<Rightarrow> if again then thread envs (Suc k) repeats r' else Some (Inr r')) = Some res"
    show "runner_wf r \<longrightarrow> (\<exists>r'. res = Inr r' \<and> info_inv (jr_info r') \<and> attempts (jr_info r) < attempts (jr_info r'))"
    proof
      assume wf: "runner_wf r"
      then obtain r1 again where turn: "job_turn (envs k) repeats r = Inr (r1, again)" using job_turn_ok by blast
      from job_turn_wf [OF wf turn] have r1: "runner_wf r1" "attempts (jr_info r1) = attempts (jr_info r) + 1" by auto
      show "\<exists>r'. res = Inr r' \<and> info_inv (jr_info r') \<and> attempts (jr_info r) < attempts (jr_info r')"
      proof (cases again)
        case True
        with eq turn IH r1 show ?thesis by fastforce
      next
        case False
        with eq turn r1 show ?thesis by (auto simp: runner_wf_def)
      qed
    qed
  qed
  with assms(2) show ?thesis by blast
qed

text \<open>
  The counters stay ordered and the array of runners is never overrun in
  every run of the thread, however long it repeats.
\<close>

theorem job_thread_counters:
  assumes "runner_wf r" and "job_thread envs k repeats r = Some res"
  shows "\<exists>r'. res = Inr r' \<and> successes (jr_info r') \<le> completions (jr_info r') \<and>
     completions (jr_info r') \<le> attempts (jr_info r') \<and> attempts (jr_info r) < attempts (jr_info r')"
  using job_thread_invariant [OF assms(2,1)] by (auto simp: info_inv_def)

section \<open>Repeating jobs\<close>

fun run_ends :: "run_result \<Rightarrow> bool" where
  "run_ends (Run_Ends st) = True"
| "run_ends r = False"

definition all_ready :: "task list \<Rightarrow> bool" where
  "all_ready ts \<longleftrightarrow> (\<forall>t \<in> set ts. task_status t = TASK_READY)"

lemma all_ready_Cons: "all_ready (t # ts) \<longleftrightarrow> task_get_status t = TASK_READY \<and> all_ready ts"
  by (simp add: all_ready_def task_get_status_def)

lemma seq_pass_ready:
  "all_ready ts \<Longrightarrow> snd (seq_pass env i ts) = Pass_Completed \<longleftrightarrow> (\<forall>k < length ts. run_ends (env (i + k)))"
proof (induction ts arbitrary: i)
  case (Cons t ts)
  then show ?case by (cases "env i") (simp_all add: split_beta all_ready_Cons All_less_Suc2)
qed simp

lemma gets_through_ready:
  "all_ready ts \<Longrightarrow> gets_through env i ts \<longleftrightarrow> (\<forall>k < length ts. env (i + k) \<noteq> Run_Null)"
  by (induction ts arbitrary: i) (simp_all add: all_ready_Cons All_less_Suc2)

lemma launched_ready:
  "all_ready ts \<Longrightarrow> gets_through env i ts \<Longrightarrow> launched env i ts = [i..<i + length ts]"
  by (induction ts arbitrary: i) (simp_all add: all_ready_Cons upt_conv_Cons del: upt_Suc)

lemma run_ends_iff: "run_ends x \<longleftrightarrow> x \<noteq> Run_Null \<and> \<not> run_cancelled x"
  by (cases x) auto

lemma pass_ready:
  assumes "runner_wf r" and "all_ready (job_tasks (jr_job r))"
  shows "snd (pass_tasks env r) = Pass_Completed \<longleftrightarrow> (\<forall>i < length (job_tasks (jr_job r)). run_ends (env i))"
proof (cases "exec_mode (job_opts (jr_job r)) = JOB_EXEC_PARALLEL")
  case True
  with assms launched_ready [OF assms(2), of env 0] gets_through_ready [OF assms(2), of env 0] show ?thesis
    by (auto simp: pass_tasks_def par_pass_eq runner_wf_def run_ends_iff)
next
  case False
  with seq_pass_ready [OF assms(2), of env 0] show ?thesis by (simp add: pass_tasks_def)
qed

lemma job_turn_repeat:
  assumes "runner_wf r" and "all_ready (job_tasks (jr_job r))" and "job_turn env True r = Inr (r', again)"
  shows "again \<longleftrightarrow> (\<forall>i < length (job_tasks (jr_job r)). run_ends (env i))"
    and "length (job_tasks (jr_job r')) = length (job_tasks (jr_job r))"
    and "again \<Longrightarrow> all_ready (job_tasks (jr_job r'))"
  using assms(3) pass_ready [OF assms(1,2), of env] pass_tasks_length [OF assms(1), of env]
  by (auto simp: job_turn_eq [OF assms(1)] Let_def all_ready_def reset_status_def task_set_status_def split: if_splits)

lemma job_thread_repeat_stops:
  assumes "runner_wf r" and "all_ready (job_tasks (jr_job r))"
    and "\<exists>i < length (job_tasks (jr_job r)). \<not> run_ends (envs (k + m) i)"
  shows "\<exists>res. job_thread envs k True r = Some res"
  using assms
proof (induction m arbitrary: k r)
  case 0
  obtain r' again where turn: "job_turn (envs k) True r = Inr (r', again)" using job_turn_ok [OF 0(1)] by blast
  with job_turn_repeat(1) [OF 0(1,2) turn] 0(3) show ?case by (subst job_thread.simps) auto
next
  case (Suc m)
  obtain r' again where turn: "job_turn (envs k) True r = Inr (r', again)" using job_turn_ok [OF Suc.prems(1)] by blast
  show ?case
  proof (cases again)
    case True
    with Suc.IH [of r' "Suc k"] job_turn_repeat(2,3) [OF Suc.prems(1,2) turn] job_turn_wf [OF Suc.prems(1) turn]
      Suc.prems(3) turn show ?thesis by (subst job_thread.simps) auto
  qed (use turn in \<open>subst job_thread.simps, auto\<close>)
qed

lemma job_thread_repeat_end:
  assumes "job_thread envs k True r = Some res" and "runner_wf r" and "all_ready (job_tasks (jr_job r))"
  shows "\<exists>m. \<exists>i < length (job_tasks (jr_job r)). \<not> run_ends (envs (k + m) i)"
proof -
  let ?P = "\<lambda>envs k repeats r. repeats \<and> runner_wf r \<and> all_ready (job_tasks (jr_job r)) \<longrightarrow>
    (\<exists>m. \<exists>i < length (job_tasks (jr_job r)). \<not> run_ends (envs (k + m) i))"
  have "?P envs k True r"
    using _ assms(1)
  proof (rule job_thread.raw_induct)
    fix thread :: "(nat \<Rightarrow> nat \<Rightarrow> run_result) \<Rightarrow> nat \<Rightarrow> bool \<Rightarrow> job_runner \<Rightarrow> job_runner cres option" and envs k repeats r res
    assume IH: "\<And>envs k repeats r res. thread envs k repeats r = Some res \<Longrightarrow> ?P envs k repeats r"
      and eq: "(case job_turn (envs k) repeats r of Inl e \<Rightarrow> Some (Inl e)
        | Inr (r', again) \<Rightarrow> if again then thread envs (Suc k) repeats r' else Some (Inr r')) = Some res"
    show "?P envs k repeats r"
    proof (intro impI, elim conjE)
      assume "repeats" and wf: "runner_wf r" and ready: "all_ready (job_tasks (jr_job r))"
      then obtain r1 again where turn: "job_turn (envs k) True r = Inr (r1, again)" using job_turn_ok by blast
      note t = job_turn_repeat [OF wf ready turn] job_turn_wf [OF wf turn]
      show "\<exists>m. \<exists>i < length (job_tasks (jr_job r)). \<not> run_ends (envs (k + m) i)"
      proof (cases again)
        case True
        with eq turn \<open>repeats\<close> IH [of envs "Suc k" True r1] t obtain m i
          where "i < length (job_tasks (jr_job r))" "\<not> run_ends (envs (Suc k + m) i)" by auto
        then show ?thesis by (metis add_Suc_shift)
      next
        case False
        with t(1) show ?thesis by (metis add.right_neutral)
      qed
    qed
  qed
  with assms(2,3) show ?thesis by blast
qed


text \<open>A runner for two copies of the example task, running once or repeatedly.\<close>

definition job_runner_example :: "c_int \<Rightarrow> c_int \<Rightarrow> job_runner" where
  "job_runner_example mode rmode = \<lparr>jr_job = \<lparr>job_id = 7, job_status = JOB_READY, job_size = 2,
     job_opts = \<lparr>opts_size = 16, exec_mode = mode, run_mode = rmode\<rparr>, job_tasks = [task_example, task_example]\<rparr>,
     jr_info = job_runner_info_defaults, jr_capacity = 2\<rparr>"

lemma job_runner_example_wf:
  "runner_wf (job_runner_example mode rmode)" "all_ready (job_tasks (jr_job (job_runner_example mode rmode)))"
  by (simp_all add: job_runner_example_def runner_wf_def info_inv_def job_runner_info_defaults_def all_ready_def task_example_def)


lemma pass_example:
  "pass_tasks env_example (job_runner_example JOB_EXEC_SEQUENTIAL JOB_RUN_ONCE) =
   ([task_example\<lparr>task_status := TASK_NOT_READY\<rparr>, task_example\<lparr>task_status := TASK_COMPLETED\<rparr>], Pass_Completed)"
  by (simp add: pass_tasks_def job_runner_example_def env_example_def task_example_def task_get_status_def task_set_status_def)


theorem job_thread_counters_witness:
  "\<exists>r'. job_thread (\<lambda>_ _. Run_Null) 0 False (job_runner_example JOB_EXEC_SEQUENTIAL JOB_RUN_ONCE) = Some (Inr r') \<and>
     successes (jr_info r') \<le> completions (jr_info r')"
proof -
  have "job_thread (\<lambda>_ _. Run_Null) 0 False (job_runner_example JOB_EXEC_SEQUENTIAL JOB_RUN_ONCE) \<noteq> None"
    by (subst job_thread.simps) (simp add: job_turn_def job_runner_example_def task_example_def task_get_status_def)
  with job_thread_counters [OF job_runner_example_wf(1)] show ?thesis by (metis not_None_eq)
qed

section \<open>Restarting a job\<close>

lemma seq_pass_append_blocked:
  assumes "inconsistent t"
  shows "snd (seq_pass env i (ts @ t # us)) \<noteq> Pass_Completed \<and> (\<exists>ts'. fst (seq_pass env i (ts @ t # us)) = ts' @ t # us \<and> length ts' = length ts)"
proof (induction ts arbitrary: i)
  case Nil
  from assms show ?case by auto
next
  case (Cons x ts)
  obtain ts' where ts': "fst (seq_pass env (Suc i) (ts @ t # us)) = ts' @ t # us" "length ts' = length ts"
    using Cons [of "Suc i"] by blast
  then have "\<exists>ts''. y # fst (seq_pass env (Suc i) (ts @ t # us)) = ts'' @ t # us \<and> length ts'' = Suc (length ts)" for y
    by (intro exI [of _ "y # ts'"]) simp
  with Cons [of "Suc i"] show ?case by (cases "env i") (auto simp: split_beta intro: exI [of _ "_ # ts"])
qed

text \<open>
  A task that ended NOT_READY blocks every later pass: no pass completes any
  more, and the tasks behind it stay as they are.
\<close>

theorem not_ready_task_blocks:
  assumes "task_status t = TASK_NOT_READY"
  shows "snd (seq_pass env i (ts @ t # us)) \<noteq> Pass_Completed \<and>
     (\<exists>ts'. fst (seq_pass env i (ts @ t # us)) = ts' @ t # us \<and> length ts' = length ts)"
  using assms by (intro seq_pass_append_blocked) (simp add: task_get_status_def)

theorem not_ready_task_blocks_witness:
  "snd (seq_pass env_example 0 ([task_example] @ task_example\<lparr>task_status := TASK_NOT_READY\<rparr> # [task_example])) \<noteq> Pass_Completed"
  using not_ready_task_blocks [of "task_example\<lparr>task_status := TASK_NOT_READY\<rparr>" env_example 0 "[task_example]" "[task_example]"]
  by simp

lemma completed_pass:
  assumes "\<forall>t \<in> set ts. task_status t = TASK_COMPLETED"
  shows "seq_pass env i ts = (ts, Pass_Completed)" and "launched env i ts = []" and "gets_through env i ts"
  using assms by (induction ts arbitrary: i) (simp_all add: task_get_status_def)

text \<open>
  Restarting a job all of whose tasks are COMPLETED runs none of them and
  still counts a completion and a success.
\<close>

theorem completed_job_restarted:
  assumes "runner_wf r" and "job_tasks (jr_job r) \<noteq> []" and "\<forall>t \<in> set (job_tasks (jr_job r)). task_status t = TASK_COMPLETED"
  shows "\<exists>r'. job_turn env False r = Inr (r', False) \<and> job_tasks (jr_job r') = job_tasks (jr_job r) \<and>
     completions (jr_info r') = completions (jr_info r) + 1 \<and> successes (jr_info r') = successes (jr_info r) + 1"
proof -
  have pass: "pass_tasks env r = (job_tasks (jr_job r), Pass_Completed)"
    using assms(1) completed_pass [OF assms(3)] by (simp add: pass_tasks_def runner_wf_def par_pass_eq)
  have "fst (job_get_status (jr_job r)) = JOB_COMPLETED"
    using job_get_status_completed [of "jr_job r"] assms by (simp add: runner_wf_def)
  then show ?thesis by (simp add: job_turn_eq [OF assms(1)] pass Let_def)
qed

theorem completed_job_restarted_witness:
  "\<exists>r'. job_turn (\<lambda>_. Run_Null) False ((job_runner_example JOB_EXEC_PARALLEL JOB_RUN_ONCE)
      \<lparr>jr_job := (jr_job (job_runner_example JOB_EXEC_PARALLEL JOB_RUN_ONCE))\<lparr>job_tasks :=
        [task_example\<lparr>task_status := TASK_COMPLETED\<rparr>, task_example\<lparr>task_status := TASK_COMPLETED\<rparr>]\<rparr>\<rparr>) = Inr (r', False) \<and>
     successes (jr_info r') = 1"
  (is "\<exists>r'. job_turn _ False ?r = _ \<and> _")
  using completed_job_restarted [of ?r "\<lambda>_. Run_Null"] job_runner_example_wf(1)
  by (auto simp: job_runner_example_def runner_wf_def job_runner_info_defaults_def)

section \<open>Starting a job\<close>

text \<open>
  \<^verbatim>\<open>job_run\<close> refuses a missing site, an empty job and an unknown
  execution mode; a runner it returns has cleared counters, an array with one slot per
  task, and its thread therefore never overruns the array.
\<close>

theorem job_run_sound:
  assumes "job_run mok err j s = Some r" and "job_size j = length (job_tasks j)"
  shows "s \<noteq> None \<and> job_tasks j \<noteq> [] \<and> exec_mode (job_opts j) \<in> {0, 1} \<and> jr_info r = job_runner_info_defaults \<and>
     (\<forall>envs. job_thread_run envs r = None \<or> (\<exists>r'. job_thread_run envs r = Some (Inr r')))"
proof -
  from assms have r: "r = \<lparr>jr_job = j, jr_info = job_runner_info_defaults, jr_capacity = job_size j\<rparr>"
    and ok: "s \<noteq> None" "job_tasks j \<noteq> []" "exec_mode (job_opts j) \<in> {0, 1}"
    by (auto simp: job_run_def job_thread_create_def split: if_splits)
  then have wf: "runner_wf r" using assms(2) by (simp add: runner_wf_def info_inv_def job_runner_info_defaults_def)
  have "job_thread_run envs r = None \<or> (\<exists>r'. job_thread_run envs r = Some (Inr r'))" for envs
    using job_thread_invariant [OF _ wf, of envs 0] unfolding job_thread_run_def by (metis not_None_eq)
  with r ok show ?thesis by simp
qed

theorem job_run_sound_witness:
  "job_thread_run (\<lambda>_ _. Run_Null) \<lparr>jr_job = job_example, jr_info = job_runner_info_defaults, jr_capacity = 1\<rparr> = None \<or>
   (\<exists>r'. job_thread_run (\<lambda>_ _. Run_Null) \<lparr>jr_job = job_example, jr_info = job_runner_info_defaults, jr_capacity = 1\<rparr> = Some (Inr r'))"
  using job_run_sound [of True 0 job_example "Some undefined" "\<lparr>jr_job = job_example, jr_info = job_runner_info_defaults, jr_capacity = 1\<rparr>"]
  by (simp add: job_run_def job_thread_create_def job_example_def)

end
