(* ===== verification/Engine.thy ===== *)
theory Engine
  imports Job_Runner
begin

text \<open>
  Blueprints (\<^verbatim>\<open>blueprint/blueprint.c\<close>) and the engine (\<^verbatim>\<open>pyoneer/engine.c\<close>),
  over a store of jobs: a job is known by its address, and a freed address holds nothing.
  An engine keeps the runner of the last job it started. A runner has the address of its
  job and the state of its thread: alive, finished, or joined.

  Stopping a thread waits until its tasks have ended; the statuses they leave behind are
  an argument of the operations, given per position of the task.
\<close>

section \<open>The store\<close>

type_synonym addr = nat
type_synonym job_store = "addr \<Rightarrow> job option"

text \<open>\<^verbatim>\<open>job_destroy\<close>: nothing for NULL, freeing twice is a fault.\<close>

definition job_destroy :: "job_store \<Rightarrow> addr option \<Rightarrow> job_store cres" where
  "job_destroy h a =
     (case a of
        None \<Rightarrow> Inr h
      | Some a \<Rightarrow> if h a = None then Inl Use_After_Free else Inr (h(a := None)))"

section \<open>Blueprints\<close>

datatype blueprint_kind = BLUEPRINT_JOB | BLUEPRINT_PROJECT

record blueprint =
  bp_kind :: blueprint_kind
  bp_job :: addr

text \<open>
  \<^verbatim>\<open>blueprint_decode\<close>; the decoded job is stored at the address \<open>a\<close>.
\<close>

definition blueprint_decode ::
  "bool \<Rightarrow> addr \<Rightarrow> blueprint_kind \<Rightarrow> json_value option \<Rightarrow> job_store \<Rightarrow> blueprint option \<times> job_store" where
  "blueprint_decode malloc_ok a kind obj h =
     (if \<not> malloc_ok then (None, h)
      else
        (case kind of
           BLUEPRINT_JOB \<Rightarrow>
             (case job_decode_ok obj of
                None \<Rightarrow> (None, h)
              | Some j \<Rightarrow> (Some \<lparr>bp_kind = kind, bp_job = a\<rparr>, h(a \<mapsto> j)))
         | _ \<Rightarrow> (None, h)))"

definition blueprint_destroy :: "blueprint option \<Rightarrow> job_store \<Rightarrow> job_store cres" where
  "blueprint_destroy b h =
     (case b of
        None \<Rightarrow> Inr h
      | Some b \<Rightarrow>
          (case bp_kind b of
             BLUEPRINT_JOB \<Rightarrow> job_destroy h (Some (bp_job b))
           | _ \<Rightarrow> Inr h))"

section \<open>Runners in the store\<close>

datatype thread_state = Thr_Alive | Thr_Done | Thr_Joined

record runner =
  rn_job :: addr
  rn_thread :: thread_state

definition set_statuses :: "(nat \<Rightarrow> int) \<Rightarrow> job \<Rightarrow> job" where
  "set_statuses fin j =
     j\<lparr>job_tasks := map (\<lambda>i. task_set_status (job_tasks j ! i) (fin i)) [0..<length (job_tasks j)]\<rparr>"

text \<open>
  Cancelling and joining the thread of a runner. An alive thread finishes first, with the
  statuses \<open>fin\<close>, which reads and writes its job.
\<close>

definition thread_stop :: "(nat \<Rightarrow> int) \<Rightarrow> job_store \<Rightarrow> runner \<Rightarrow> (job_store \<times> runner) cres" where
  "thread_stop fin h r =
     (case rn_thread r of
        Thr_Joined \<Rightarrow> Inl Double_Join
      | Thr_Done \<Rightarrow> Inr (h, r\<lparr>rn_thread := Thr_Joined\<rparr>)
      | Thr_Alive \<Rightarrow>
          (case h (rn_job r) of
             None \<Rightarrow> Inl Use_After_Free
           | Some j \<Rightarrow> Inr (h(rn_job r \<mapsto> set_statuses fin j), r\<lparr>rn_thread := Thr_Joined\<rparr>)))"

section \<open>The engine\<close>

record engine =
  en_runner :: "runner option"

definition engine_create :: "bool \<Rightarrow> engine option" where
  "engine_create malloc_ok = (if \<not> malloc_ok then None else Some \<lparr>en_runner = None\<rparr>)"

definition engine_run ::
  "bool \<Rightarrow> int \<Rightarrow> (nat \<Rightarrow> int) \<Rightarrow> job_store \<Rightarrow> engine option \<Rightarrow> addr \<Rightarrow> site option
   \<Rightarrow> (int \<times> job_store \<times> engine option) cres" where
  "engine_run malloc_ok create_err fin h e a s =
     (case h a of
        None \<Rightarrow> Inl Use_After_Free
      | Some j \<Rightarrow>
          (case job_run malloc_ok create_err j s of
             None \<Rightarrow> Inr (- 1, h, e)
           | Some _ \<Rightarrow>
               (case e of
                  None \<Rightarrow> Inl Null_Deref
                | Some e \<Rightarrow>
                    (case en_runner e of
                       None \<Rightarrow> Inr (0, h, Some (e\<lparr>en_runner := Some \<lparr>rn_job = a, rn_thread = Thr_Alive\<rparr>\<rparr>))
                     | Some old \<Rightarrow>
                         (case thread_stop fin h old of
                            Inl f \<Rightarrow> Inl f
                          | Inr (h', old') \<Rightarrow>
                              Inr (0, h', Some (e\<lparr>en_runner := Some \<lparr>rn_job = a, rn_thread = Thr_Alive\<rparr>\<rparr>)))))))"

definition engine_restart ::
  "int \<Rightarrow> (nat \<Rightarrow> int) \<Rightarrow> job_store \<Rightarrow> engine option \<Rightarrow> (job_store \<times> engine option) cres" where
  "engine_restart create_err fin h e =
     (case e of
        None \<Rightarrow> Inl Null_Deref
      | Some en \<Rightarrow>
          (case en_runner en of
             None \<Rightarrow> Inr (h, e)
           | Some r \<Rightarrow>
               (case thread_stop fin h r of
                  Inl f \<Rightarrow> Inl f
                | Inr (h', r') \<Rightarrow>
                    (case h' (rn_job r) of
                       None \<Rightarrow> Inl Use_After_Free
                     | Some j \<Rightarrow>
                         Inr (h', Some (en\<lparr>en_runner :=
                           Some (if job_thread_create create_err j = 0 then r'\<lparr>rn_thread := Thr_Alive\<rparr> else r')\<rparr>))))))"

definition engine_stop :: "(nat \<Rightarrow> int) \<Rightarrow> job_store \<Rightarrow> engine option \<Rightarrow> (job_store \<times> engine option) cres" where
  "engine_stop fin h e =
     (case e of
        None \<Rightarrow> Inl Null_Deref
      | Some en \<Rightarrow>
          (case en_runner en of
             None \<Rightarrow> Inr (h, e)
           | Some r \<Rightarrow>
               (case thread_stop fin h r of
                  Inl f \<Rightarrow> Inl f
                | Inr (h', r') \<Rightarrow> Inr (h', Some (en\<lparr>en_runner := Some r'\<rparr>)))))"

text \<open>\<^verbatim>\<open>engine_wait\<close> joins without cancelling.\<close>

definition engine_wait :: "(nat \<Rightarrow> int) \<Rightarrow> job_store \<Rightarrow> engine option \<Rightarrow> (job_store \<times> engine option) cres" where
  "engine_wait fin h e = engine_stop fin h e"

text \<open>\<^verbatim>\<open>engine_destroy\<close> frees the engine and not the runner it holds.\<close>

definition engine_destroy :: "(nat \<Rightarrow> int) \<Rightarrow> job_store \<Rightarrow> engine option \<Rightarrow> job_store cres" where
  "engine_destroy fin h e =
     (case e of
        None \<Rightarrow> Inr h
      | Some _ \<Rightarrow> (case engine_stop fin h e of Inl f \<Rightarrow> Inl f | Inr (h', e') \<Rightarrow> Inr h'))"

end
