(* ===== verification/Worker.thy ===== *)
theory Worker
  imports Engine
begin

text \<open>
  The worker (\<^verbatim>\<open>pyoneer/worker.c\<close>): one engine and at most one assigned job, in the
  store of \<^verbatim>\<open>Engine\<close>. The commands \<open>run\<close>, \<open>assign\<close> and \<open>get_status\<close> are
  critical sections of the worker's mutex and return JSON; the signals \<open>start\<close>,
  \<open>stop\<close> and \<open>restart\<close> return nothing. Each is one step of the system, in which
  the job thread takes steps of its own. The theorems say which results the commands
  give, which faults can happen and which cannot, and what a status report contains.
\<close>

section \<open>State\<close>

abbreviation (input) WORKER_NOT_ASSIGNED :: int where "WORKER_NOT_ASSIGNED \<equiv> 0"
abbreviation (input) WORKER_ASSIGNED :: int where "WORKER_ASSIGNED \<equiv> 1"
abbreviation (input) WORKER_NOT_WORKING :: int where "WORKER_NOT_WORKING \<equiv> 2"
abbreviation (input) WORKER_WORKING :: int where "WORKER_WORKING \<equiv> 3"

record worker =
  wk_id :: c_int
  wk_status :: int
  wk_job :: "addr option"
  wk_engine :: "engine option"

text \<open>The store, the worker and the global \<^verbatim>\<open>SITE\<close>.\<close>

record wsys =
  ws_heap :: job_store
  ws_worker :: worker
  ws_site :: "site option"

text \<open>
  What the surroundings contribute to one operation: the result of locking the mutex,
  whether the reply object and the runner can be allocated, the result of creating the
  thread, and the statuses a stopped thread leaves.
\<close>

record op_env =
  oe_lock :: int
  oe_new :: bool
  oe_malloc :: bool
  oe_create :: int
  oe_fin :: "nat \<Rightarrow> int"

definition worker_create :: "bool \<Rightarrow> bool \<Rightarrow> int \<Rightarrow> c_int \<Rightarrow> worker option" where
  "worker_create malloc_ok engine_ok mutex_err i =
     (if sint i \<le> 1 then None
      else if \<not> malloc_ok then None
      else if mutex_err \<noteq> 0 then None
      else Some \<lparr>wk_id = i, wk_status = WORKER_NOT_ASSIGNED, wk_job = None, wk_engine = engine_create engine_ok\<rparr>)"

definition worker_get_id :: "worker \<Rightarrow> c_int" where
  "worker_get_id w = wk_id w"

section \<open>Status\<close>

definition worker_update_status :: "job_store \<Rightarrow> worker \<Rightarrow> (job_store \<times> worker) cres" where
  "worker_update_status h w =
     (case wk_job w of
        None \<Rightarrow> Inr (h, w\<lparr>wk_status := WORKER_NOT_ASSIGNED\<rparr>)
      | Some a \<Rightarrow>
          (case h a of
             None \<Rightarrow> Inl Use_After_Free
           | Some j \<Rightarrow>
               (case job_get_status j of (st, j') \<Rightarrow>
                  Inr (h(a \<mapsto> j'),
                    if st = JOB_READY then w\<lparr>wk_status := WORKER_ASSIGNED\<rparr>
                    else if st = JOB_RUNNING then w\<lparr>wk_status := WORKER_WORKING\<rparr>
                    else if st = JOB_NOT_READY \<or> st = JOB_COMPLETED \<or> st = JOB_INCOMPLETE
                    then w\<lparr>wk_status := WORKER_NOT_WORKING\<rparr>
                    else w))))"

definition worker_status_map :: "bool \<Rightarrow> int \<Rightarrow> json_value option" where
  "worker_status_map new_ok st =
     (if st = WORKER_NOT_ASSIGNED then json_string_new new_ok new_ok ''not_assigned''
      else if st = WORKER_ASSIGNED then json_string_new new_ok new_ok ''assigned''
      else if st = WORKER_NOT_WORKING then json_string_new new_ok new_ok ''not_working''
      else if st = WORKER_WORKING then json_string_new new_ok new_ok ''working''
      else None)"

definition worker_status_decode :: "json_value \<Rightarrow> int" where
  "worker_status_decode value =
     (case value of
        JString str \<Rightarrow>
          if streq str ''not_assigned'' then WORKER_NOT_ASSIGNED
          else if streq str ''not_working'' then WORKER_NOT_WORKING
          else if streq str ''working'' then WORKER_WORKING
          else - 1
      | _ \<Rightarrow> - 1)"

text \<open>
  \<^verbatim>\<open>get_status\<close>: only the allocation of the reply object is checked, the later
  ones are taken to succeed.
\<close>

definition get_status :: "bool \<Rightarrow> job_store \<Rightarrow> worker \<Rightarrow> (json_value option \<times> job_store \<times> worker) cres" where
  "get_status new_ok h w =
     (case worker_update_status h w of
        Inl f \<Rightarrow> Inl f
      | Inr (h, w) \<Rightarrow>
          (case json_object_new new_ok new_ok 0 of
             None \<Rightarrow> Inr (None, h, w)
           | Some obj \<Rightarrow>
               (case json_object_push True True True (Some obj) ''status'' (worker_status_map True (wk_status w)) of
                  Inl f \<Rightarrow> Inl f
                | Inr obj \<Rightarrow>
                    (case wk_job w of
                       None \<Rightarrow>
                         (case json_object_push True True True obj ''job'' (json_null_new True) of
                            Inl f \<Rightarrow> Inl f
                          | Inr obj \<Rightarrow> Inr (obj, h, w))
                     | Some a \<Rightarrow>
                         (case h a of
                            None \<Rightarrow> Inl Use_After_Free
                          | Some j \<Rightarrow>
                              (case job_encode_status True j of
                                 (Inl f, _) \<Rightarrow> Inl f
                               | (Inr jst, j') \<Rightarrow>
                                   (case json_object_push_integer True True jst (Some ''id'') (job_id j') of
                                      Inl f \<Rightarrow> Inl f
                                    | Inr (r, jst) \<Rightarrow>
                                        (case json_object_push True True True obj ''job'' jst of
                                           Inl f \<Rightarrow> Inl f
                                         | Inr obj \<Rightarrow> Inr (obj, h(a \<mapsto> j'), w)))))))))"

section \<open>Commands\<close>

definition worker_get_status :: "op_env \<Rightarrow> wsys \<Rightarrow> (json_value option \<times> wsys) cres" where
  "worker_get_status env s =
     (if oe_lock env \<noteq> 0 then Inr (None, s)
      else (case get_status (oe_new env) (ws_heap s) (ws_worker s) of
              Inl f \<Rightarrow> Inl f
            | Inr (obj, h, w) \<Rightarrow> Inr (obj, s\<lparr>ws_heap := h, ws_worker := w\<rparr>)))"

text \<open>Both commands free the old job, take the new one over and report the status.\<close>

definition worker_take :: "op_env \<Rightarrow> wsys \<Rightarrow> addr \<Rightarrow> (json_value option \<times> wsys) cres" where
  "worker_take env s a =
     (case job_destroy (ws_heap s) (wk_job (ws_worker s)) of
        Inl f \<Rightarrow> Inl f
      | Inr h \<Rightarrow>
          (case get_status (oe_new env) h ((ws_worker s)\<lparr>wk_job := Some a\<rparr>) of
             Inl f \<Rightarrow> Inl f
           | Inr (obj, h, w) \<Rightarrow> Inr (obj, s\<lparr>ws_heap := h, ws_worker := w\<rparr>)))"

definition worker_run :: "op_env \<Rightarrow> wsys \<Rightarrow> addr option \<Rightarrow> (json_value option \<times> wsys) cres" where
  "worker_run env s job =
     (case job of
        None \<Rightarrow> Inr (None, s)
      | Some a \<Rightarrow>
          if oe_lock env \<noteq> 0 then Inr (None, s)
          else
            (case worker_update_status (ws_heap s) (ws_worker s) of
               Inl f \<Rightarrow> Inl f
             | Inr (h, w) \<Rightarrow>
                 if wk_status w = WORKER_WORKING then Inr (None, s\<lparr>ws_heap := h, ws_worker := w\<rparr>)
                 else
                   (case engine_run (oe_malloc env) (oe_create env) (oe_fin env) h (wk_engine w) a (ws_site s) of
                      Inl f \<Rightarrow> Inl f
                    | Inr (r, h, e) \<Rightarrow>
                        (let s = s\<lparr>ws_heap := h, ws_worker := w\<lparr>wk_engine := e\<rparr>\<rparr>
                         in if r = - 1 then Inr (None, s) else worker_take env s a))))"

definition worker_assign :: "op_env \<Rightarrow> wsys \<Rightarrow> addr option \<Rightarrow> (json_value option \<times> wsys) cres" where
  "worker_assign env s job =
     (case job of
        None \<Rightarrow> Inr (None, s)
      | Some a \<Rightarrow>
          if oe_lock env \<noteq> 0 then Inr (None, s)
          else
            (case worker_update_status (ws_heap s) (ws_worker s) of
               Inl f \<Rightarrow> Inl f
             | Inr (h, w) \<Rightarrow>
                 (let s = s\<lparr>ws_heap := h, ws_worker := w\<rparr>
                  in if wk_status w = WORKER_WORKING then Inr (None, s) else worker_take env s a)))"

section \<open>Signals\<close>

definition put_engine :: "wsys \<Rightarrow> worker \<Rightarrow> (job_store \<times> engine option) cres \<Rightarrow> wsys cres" where
  "put_engine s w r =
     (case r of
        Inl f \<Rightarrow> Inl f
      | Inr (h, e) \<Rightarrow> Inr (s\<lparr>ws_heap := h, ws_worker := w\<lparr>wk_engine := e\<rparr>\<rparr>))"

definition signal_run :: "op_env \<Rightarrow> wsys \<Rightarrow> job_store \<Rightarrow> worker \<Rightarrow> wsys cres" where
  "signal_run env s h w =
     put_engine s w
       (case engine_run (oe_malloc env) (oe_create env) (oe_fin env) h (wk_engine w) (the (wk_job w)) (ws_site s) of
          Inl f \<Rightarrow> Inl f
        | Inr (r, h, e) \<Rightarrow> Inr (h, e))"

definition worker_restart :: "op_env \<Rightarrow> wsys \<Rightarrow> wsys cres" where
  "worker_restart env s =
     (case worker_update_status (ws_heap s) (ws_worker s) of
        Inl f \<Rightarrow> Inl f
      | Inr (h, w) \<Rightarrow>
          if wk_status w = WORKER_NOT_ASSIGNED then Inr (s\<lparr>ws_heap := h, ws_worker := w\<rparr>)
          else if wk_status w = WORKER_ASSIGNED then signal_run env s h w
          else put_engine s w (engine_restart (oe_create env) (oe_fin env) h (wk_engine w)))"

definition worker_start :: "op_env \<Rightarrow> wsys \<Rightarrow> wsys cres" where
  "worker_start env s =
     (case worker_update_status (ws_heap s) (ws_worker s) of
        Inl f \<Rightarrow> Inl f
      | Inr (h, w) \<Rightarrow>
          if wk_status w = WORKER_ASSIGNED then signal_run env s h w
          else if wk_status w = WORKER_NOT_WORKING
          then put_engine s w (engine_restart (oe_create env) (oe_fin env) h (wk_engine w))
          else Inr (s\<lparr>ws_heap := h, ws_worker := w\<rparr>))"

definition worker_stop :: "op_env \<Rightarrow> wsys \<Rightarrow> wsys cres" where
  "worker_stop env s =
     (case worker_update_status (ws_heap s) (ws_worker s) of
        Inl f \<Rightarrow> Inl f
      | Inr (h, w) \<Rightarrow>
          if wk_status w = WORKER_WORKING then put_engine s w (engine_stop (oe_fin env) h (wk_engine w))
          else Inr (s\<lparr>ws_heap := h, ws_worker := w\<rparr>))"

text \<open>
  \<^verbatim>\<open>worker_destroy\<close> with the fall-through of its \<^verbatim>\<open>switch\<close>, on the status
  as last stored; the result is the store that is left.
\<close>

definition worker_destroy :: "op_env \<Rightarrow> wsys \<Rightarrow> job_store cres" where
  "worker_destroy env s =
     (let w = ws_worker s; h = ws_heap s
      in if wk_status w = WORKER_WORKING then
           (case engine_stop (oe_fin env) h (wk_engine w) of
              Inl f \<Rightarrow> Inl f
            | Inr (h, e) \<Rightarrow>
                (case job_destroy h (wk_job w) of Inl f \<Rightarrow> Inl f | Inr h \<Rightarrow> engine_destroy (oe_fin env) h e))
         else if wk_status w = WORKER_NOT_WORKING then
           (case job_destroy h (wk_job w) of Inl f \<Rightarrow> Inl f | Inr h \<Rightarrow> engine_destroy (oe_fin env) h (wk_engine w))
         else if wk_status w = WORKER_NOT_ASSIGNED then engine_destroy (oe_fin env) h (wk_engine w)
         else Inr h)"

section \<open>The system\<close>

text \<open>
  A command brings a freshly decoded job at an address that is free. The job thread sets
  the status of a task or finishes; both touch its job. A step leads to a state or to a
  fault.
\<close>

definition runner_of :: "worker \<Rightarrow> runner option" where
  "runner_of w = (case wk_engine w of None \<Rightarrow> None | Some e \<Rightarrow> en_runner e)"

definition alive :: "wsys \<Rightarrow> bool" where
  "alive s \<longleftrightarrow> (\<exists>r. runner_of (ws_worker s) = Some r \<and> rn_thread r = Thr_Alive)"

definition set_task :: "nat \<Rightarrow> int \<Rightarrow> job \<Rightarrow> job" where
  "set_task i st j = j\<lparr>job_tasks := (job_tasks j)[i := task_set_status (job_tasks j ! i) st]\<rparr>"

definition thread_access :: "(job \<Rightarrow> job) \<Rightarrow> thread_state \<Rightarrow> wsys \<Rightarrow> runner \<Rightarrow> wsys cres" where
  "thread_access f ts s r =
     (case ws_heap s (rn_job r) of
        None \<Rightarrow> Inl Use_After_Free
      | Some j \<Rightarrow>
          Inr (s\<lparr>ws_heap := (ws_heap s)(rn_job r \<mapsto> f j),
                 ws_worker := (ws_worker s)\<lparr>wk_engine := Some \<lparr>en_runner = Some (r\<lparr>rn_thread := ts\<rparr>)\<rparr>\<rparr>\<rparr>))"

inductive worker_step :: "bool \<Rightarrow> wsys \<Rightarrow> wsys cres \<Rightarrow> bool" for guarded where
  run_called: "ws_heap s a = None \<Longrightarrow> job_fresh j \<Longrightarrow>
    worker_step guarded s (map_sum id snd (worker_run env (s\<lparr>ws_heap := (ws_heap s)(a \<mapsto> j)\<rparr>) (Some a)))"
| assign_called: "ws_heap s a = None \<Longrightarrow> job_fresh j \<Longrightarrow> (guarded \<Longrightarrow> \<not> alive s) \<Longrightarrow>
    worker_step guarded s (map_sum id snd (worker_assign env (s\<lparr>ws_heap := (ws_heap s)(a \<mapsto> j)\<rparr>) (Some a)))"
| status_called: "worker_step guarded s (map_sum id snd (worker_get_status env s))"
| restart_called: "worker_step guarded s (worker_restart env s)"
| start_called: "worker_step guarded s (worker_start env s)"
| stop_called: "worker_step guarded s (worker_stop env s)"
| thread_sets: "runner_of (ws_worker s) = Some r \<Longrightarrow> rn_thread r = Thr_Alive \<Longrightarrow> 0 \<le> st \<Longrightarrow> st \<le> 4 \<Longrightarrow>
    worker_step guarded s (thread_access (set_task i st) Thr_Alive s r)"
| thread_ends: "runner_of (ws_worker s) = Some r \<Longrightarrow> rn_thread r = Thr_Alive \<Longrightarrow>
    worker_step guarded s (thread_access job_update_status Thr_Done s r)"

definition worker_init :: "wsys \<Rightarrow> bool" where
  "worker_init s \<longleftrightarrow> (\<forall>a. ws_heap s a = None) \<and>
     (\<exists>i. Some (ws_worker s) = worker_create True True 0 i)"

section \<open>The invariant\<close>

definition job_ok :: "job \<Rightarrow> bool" where
  "job_ok j \<longleftrightarrow> job_size j = length (job_tasks j) \<and> job_status j \<in> {0, 1, 2, 3, 4} \<and>
     (job_tasks j = [] \<longrightarrow> job_status j = JOB_READY)"

text \<open>
  The worker's job is allocated; a job that has left the state all tasks READY is the one
  of the engine's runner; an alive thread works on the worker's job.
\<close>

definition inv_hw :: "job_store \<Rightarrow> worker \<Rightarrow> bool" where
  "inv_hw h w \<longleftrightarrow> wk_engine w \<noteq> None \<and>
     (case wk_job w of
        None \<Rightarrow> \<forall>r. runner_of w = Some r \<longrightarrow> rn_thread r \<noteq> Thr_Alive
      | Some a \<Rightarrow>
          (\<exists>j. h a = Some j \<and> job_ok j \<and>
             (all_ready (job_tasks j) \<or> (\<exists>r. runner_of w = Some r \<and> rn_job r = a))) \<and>
          (\<forall>r. runner_of w = Some r \<and> rn_thread r = Thr_Alive \<longrightarrow> rn_job r = a))"

definition joined :: "worker \<Rightarrow> bool" where
  "joined w \<longleftrightarrow> (\<exists>r. runner_of w = Some r \<and> rn_thread r = Thr_Joined)"

definition op_ok :: "worker \<Rightarrow> wsys cres \<Rightarrow> bool" where
  "op_ok w res \<longleftrightarrow>
     (case res of
        Inl f \<Rightarrow> f = Double_Join \<and> joined w
      | Inr t \<Rightarrow> inv_hw (ws_heap t) (ws_worker t))"

lemma job_update_ok:
  assumes "job_ok j"
  shows "job_ok (job_update_status j)" and "all_ready (job_tasks j) \<Longrightarrow> job_status (job_update_status j) = JOB_READY"
proof -
  show "job_ok (job_update_status j)"
    using assms by (auto simp: job_ok_def job_update_status_def Let_def)
  assume ready: "all_ready (job_tasks j)"
  show "job_status (job_update_status j) = JOB_READY"
  proof (cases "job_tasks j = []")
    case True
    with assms show ?thesis by (simp add: job_ok_def job_update_status_def)
  next
    case False
    then have "\<exists>t \<in> set (job_tasks j). task_status t = 1" using ready by (auto simp: all_ready_def neq_Nil_conv)
    with ready False assms show ?thesis
      by (simp add: job_update_status_def Let_def count_statuses_pos all_ready_def job_ok_def)
  qed
qed

lemma job_update_idem [simp]: "job_update_status (job_update_status j) = job_update_status j"
  by (simp add: job_update_status_def Let_def)

lemma job_ok_running:
  assumes "job_ok j"
  shows "fst (job_get_status j) = JOB_RUNNING \<longleftrightarrow> (\<exists>t \<in> set (job_tasks j). task_status t = TASK_RUNNING)"
  using assms by (cases "job_tasks j = []") (auto simp: job_get_status_def job_update_status_def Let_def count_statuses_pos job_ok_def)

lemma job_ok_tasks:
  assumes "job_ok j" and "length ts = length (job_tasks j)"
  shows "job_ok (j\<lparr>job_tasks := ts\<rparr>)"
  using assms by (auto simp: job_ok_def)

lemma job_ok_ops: "job_ok j \<Longrightarrow> job_ok (set_statuses fin j)" "job_ok j \<Longrightarrow> job_ok (set_task i st j)"
  by (simp_all add: set_statuses_def set_task_def job_ok_tasks)

lemma job_fresh_ok: "job_fresh j \<Longrightarrow> job_ok j \<and> all_ready (job_tasks j)"
  by (auto simp: job_fresh_def job_wf_def job_ok_def all_ready_def)

lemma runner_of_upd [simp]:
  "runner_of (w\<lparr>wk_status := st\<rparr>) = runner_of w" "runner_of (w\<lparr>wk_job := a\<rparr>) = runner_of w"
  "runner_of (w\<lparr>wk_engine := Some e\<rparr>) = en_runner e"
  by (simp_all add: runner_of_def)

text \<open>Refreshing the status keeps the invariant and tells when the engine has the job.\<close>

lemma update_status_ok:
  assumes "inv_hw h w"
  obtains h' st where "worker_update_status h w = Inr (h', w\<lparr>wk_status := st\<rparr>)"
    and "inv_hw h' (w\<lparr>wk_status := st\<rparr>)" and "st \<in> {0, 1, 2, 3}" and "dom h' = dom h"
    and "st = WORKER_NOT_ASSIGNED \<longleftrightarrow> wk_job w = None"
    and "st \<in> {WORKER_WORKING, WORKER_NOT_WORKING} \<Longrightarrow> \<exists>a r. wk_job w = Some a \<and> runner_of w = Some r \<and> rn_job r = a"
proof (cases "wk_job w")
  case None
  with assms that [of h 0] show ?thesis by (simp add: worker_update_status_def inv_hw_def)
next
  case (Some a)
  with assms obtain j where j: "h a = Some j" "job_ok j"
    and run: "all_ready (job_tasks j) \<or> (\<exists>r. runner_of w = Some r \<and> rn_job r = a)"
    by (auto simp: inv_hw_def)
  let ?j = "job_update_status j"
  let ?st = "if job_status ?j = JOB_READY then 1 else if job_status ?j = JOB_RUNNING then 3 else 2 :: int"
  have ok: "job_ok ?j" and rdy: "all_ready (job_tasks j) \<Longrightarrow> job_status ?j = JOB_READY" using job_update_ok [OF j(2)] by auto
  show ?thesis
  proof (rule that [of "h(a \<mapsto> ?j)" ?st])
    show "worker_update_status h w = Inr (h(a \<mapsto> ?j), w\<lparr>wk_status := ?st\<rparr>)"
      using Some j ok by (auto simp: worker_update_status_def job_get_status_def job_ok_def)
    show "inv_hw (h(a \<mapsto> ?j)) (w\<lparr>wk_status := ?st\<rparr>)"
      using assms Some j ok run by (simp add: inv_hw_def)
    show "\<exists>a r. wk_job w = Some a \<and> runner_of w = Some r \<and> rn_job r = a" if "?st \<in> {WORKER_WORKING, WORKER_NOT_WORKING}"
      using that run rdy Some by (auto split: if_splits)
  qed (use Some j in auto)
qed

section \<open>Status reports\<close>

definition status_text :: "int \<Rightarrow> json_value" where
  "status_text st = the (task_status_map True st)"

lemma status_maps [simp]:
  "task_status_map True st = Some (status_text st)" "job_status_map True st = Some (status_text st)"
  by (simp_all add: status_text_def task_status_map_def job_status_map_def json_null_new_def)

definition task_report :: "task \<Rightarrow> json_value" where
  "task_report t = JObject [(''status'', status_text (task_status t)), (''name'', JString (c_str (task_name t)))]"

definition job_report :: "job \<Rightarrow> json_value" where
  "job_report j = JObject [(''status'', status_text (fst (job_get_status j))),
     (''tasks'', JArray (map task_report (job_tasks j))), (''id'', JInteger (json_of_int (job_id j)))]"

lemma encode_task_entry_eq: "encode_task_entry t = Inr (Some (task_report t))"
  by (simp add: encode_task_entry_def task_encode_status_def task_get_status_def task_get_name_def task_report_def)

lemma job_encode_status_eq:
  "job_encode_status True j =
     (Inr (Some (JObject [(''status'', status_text (fst (job_get_status j))), (''tasks'', JArray (map task_report (job_tasks j)))])),
      job_update_status j)"
  by (simp add: job_encode_status_def job_get_status_def Let_def json_array_new_def encode_task_entry_eq
      encode_list_eq [where f = task_report])

text \<open>What \<^const>\<open>get_status\<close> returns when the reply can be allocated.\<close>

definition worker_report :: "job_store \<Rightarrow> worker \<Rightarrow> json_value" where
  "worker_report h w = JObject [(''status'', the (worker_status_map True (wk_status w))),
     (''job'', case wk_job w of None \<Rightarrow> JNull | Some a \<Rightarrow> job_report (the (h a)))]"

lemma worker_status_map_some: "st \<in> {0, 1, 2, 3} \<Longrightarrow> \<exists>v. worker_status_map True st = Some v"
  by (auto simp: worker_status_map_def)

lemma inv_hw_put:
  assumes "inv_hw h w" and "wk_job w = Some a" and "job_ok j'"
    and "\<And>j. h a = Some j \<Longrightarrow> all_ready (job_tasks j) \<Longrightarrow> all_ready (job_tasks j')"
  shows "inv_hw (h(a \<mapsto> j')) w"
  using assms by (auto simp: inv_hw_def)

lemma get_status_ok:
  assumes "inv_hw h w"
  obtains h' w' where "get_status new_ok h w = Inr (if new_ok then Some (worker_report h' w') else None, h', w')"
    and "inv_hw h' w'" and "wk_status w' \<in> {0, 1, 2, 3}" and "wk_job w' = wk_job w" and "wk_id w' = wk_id w"
    and "wk_engine w' = wk_engine w" and "dom h' = dom h" and "\<exists>h1. worker_update_status h w = Inr (h1, w')"
proof -
  obtain h1 st where up: "worker_update_status h w = Inr (h1, w\<lparr>wk_status := st\<rparr>)"
    and inv: "inv_hw h1 (w\<lparr>wk_status := st\<rparr>)" and st: "st \<in> {0, 1, 2, 3}" and dom: "dom h1 = dom h"
    using update_status_ok [OF assms] by metis
  obtain v where v: "worker_status_map True st = Some v" using worker_status_map_some [OF st] by blast
  show ?thesis
  proof (cases "\<not> new_ok \<or> wk_job w = None")
    case True
    show ?thesis
      by (rule that [of h1 "w\<lparr>wk_status := st\<rparr>"])
        (use True up inv st v dom in \<open>auto simp: get_status_def worker_report_def json_object_new_def json_null_new_def\<close>)
  next
    case False
    then obtain a where a: "wk_job w = Some a" and new: "new_ok" by blast
    with inv obtain j where j: "h1 a = Some j" "job_ok j" by (auto simp: inv_hw_def)
    show ?thesis
    proof (rule that [of "h1(a \<mapsto> job_update_status j)" "w\<lparr>wk_status := st\<rparr>"])
      show "get_status new_ok h w = Inr (if new_ok then Some (worker_report (h1(a \<mapsto> job_update_status j)) (w\<lparr>wk_status := st\<rparr>)) else None,
          h1(a \<mapsto> job_update_status j), w\<lparr>wk_status := st\<rparr>)"
        using new a j up v
        by (simp add: get_status_def worker_report_def job_encode_status_eq job_report_def job_get_status_def Let_def)
      show "inv_hw (h1(a \<mapsto> job_update_status j)) (w\<lparr>wk_status := st\<rparr>)"
        by (rule inv_hw_put [OF inv]) (use a j job_update_ok in auto)
    qed (use st a j dom up in auto)
  qed
qed

section \<open>The operations keep the invariant\<close>

lemma thread_stop_cases:
  assumes "rn_thread r = Thr_Alive \<Longrightarrow> h (rn_job r) \<noteq> None"
  shows "(thread_stop fin h r = Inl Double_Join \<and> rn_thread r = Thr_Joined) \<or>
    thread_stop fin h r = Inr (h, r\<lparr>rn_thread := Thr_Joined\<rparr>) \<or>
    (\<exists>j. rn_thread r = Thr_Alive \<and> h (rn_job r) = Some j \<and>
       thread_stop fin h r = Inr (h(rn_job r \<mapsto> set_statuses fin j), r\<lparr>rn_thread := Thr_Joined\<rparr>))"
  using assms by (cases "rn_thread r") (auto simp: thread_stop_def)

text \<open>The store after an alive thread was stopped, if there was one.\<close>

definition stopped_store :: "(nat \<Rightarrow> int) \<Rightarrow> job_store \<Rightarrow> worker \<Rightarrow> job_store \<Rightarrow> bool" where
  "stopped_store fin h w h' \<longleftrightarrow> h' = h \<or>
     (\<exists>r j. runner_of w = Some r \<and> rn_thread r = Thr_Alive \<and> h (rn_job r) = Some j \<and> h' = h(rn_job r \<mapsto> set_statuses fin j))"

lemma engine_run_cases:
  assumes "wk_engine w = Some e" and "h a = Some j"
    and "\<And>r. runner_of w = Some r \<Longrightarrow> rn_thread r = Thr_Alive \<Longrightarrow> h (rn_job r) \<noteq> None"
  obtains (fault) "engine_run mok err fin h (wk_engine w) a st = Inl Double_Join" "joined w"
    | (refused) "engine_run mok err fin h (wk_engine w) a st = Inr (- 1, h, wk_engine w)" "job_run mok err j st = None"
    | (started) h' where
      "engine_run mok err fin h (wk_engine w) a st = Inr (0, h', Some (e\<lparr>en_runner := Some \<lparr>rn_job = a, rn_thread = Thr_Alive\<rparr>\<rparr>))"
      "stopped_store fin h w h'"
proof (cases "job_run mok err j st")
  case None
  with assms refused show ?thesis by (simp add: engine_run_def)
next
  case (Some jr)
  show ?thesis
  proof (cases "en_runner e")
    case None
    with assms Some started [of h] show ?thesis by (simp add: engine_run_def stopped_store_def)
  next
    case r: (Some r)
    then have run: "runner_of w = Some r" using assms(1) by (simp add: runner_of_def)
    from thread_stop_cases [of r h fin] assms(3) [OF run] consider
        "thread_stop fin h r = Inl Double_Join" "rn_thread r = Thr_Joined"
      | h' r' where "thread_stop fin h r = Inr (h', r')" "stopped_store fin h w h'"
      unfolding stopped_store_def using run by blast
    then show ?thesis
    proof cases
      case 1
      with assms Some r run fault show ?thesis by (auto simp: engine_run_def joined_def)
    next
      case (2 h' r')
      with assms Some r started [of h'] show ?thesis by (simp add: engine_run_def)
    qed
  qed
qed

lemma engine_stop_cases:
  assumes "wk_engine w = Some e" and "runner_of w = Some r"
    and "rn_thread r = Thr_Alive \<Longrightarrow> h (rn_job r) \<noteq> None"
  obtains (fault) "thread_stop fin h r = Inl Double_Join" "joined w"
    | (stopped) h' where "thread_stop fin h r = Inr (h', r\<lparr>rn_thread := Thr_Joined\<rparr>)" "stopped_store fin h w h'"
  using thread_stop_cases [of r h fin, OF assms(3)] assms(2) fault stopped
  unfolding stopped_store_def joined_def by blast

lemma stopped_store_inv:
  assumes "stopped_store fin h w h'" and "inv_hw h w" and "wk_job w = Some a" and "wk_job w' = Some a"
    and "wk_engine w' \<noteq> None" and "\<exists>r. runner_of w' = Some r \<and> rn_job r = a"
  shows "inv_hw h' w'"
proof -
  from assms(2,3) obtain j where "h a = Some j" "job_ok j" by (auto simp: inv_hw_def)
  with assms(1) have "\<exists>j. h' a = Some j \<and> job_ok j" by (auto simp: stopped_store_def job_ok_ops)
  with assms(4-6) show ?thesis by (auto simp: inv_hw_def)
qed

lemma engine_upd_id: "wk_engine w = Some e \<Longrightarrow> w\<lparr>wk_engine := Some e\<rparr> = w"
  by (cases w) simp

lemma inv_alive_allocated:
  "inv_hw h w \<Longrightarrow> runner_of w = Some r \<Longrightarrow> rn_thread r = Thr_Alive \<Longrightarrow> \<exists>a j. wk_job w = Some a \<and> rn_job r = a \<and> h a = Some j"
  by (auto simp: inv_hw_def split: option.splits)

lemma signal_run_ok:
  assumes inv: "inv_hw h w" and job: "wk_job w = Some a"
  shows "op_ok w (signal_run env s h w)"
proof -
  from inv job obtain e j where e: "wk_engine w = Some e" and j: "h a = Some j" by (auto simp: inv_hw_def)
  have alloc: "h (rn_job r) \<noteq> None" if "runner_of w = Some r" "rn_thread r = Thr_Alive" for r
    using inv_alive_allocated [OF inv that] by auto
  show ?thesis
  proof (rule engine_run_cases [OF e j alloc, of "oe_malloc env" "oe_create env" "oe_fin env" "ws_site s"])
    fix h' assume "engine_run (oe_malloc env) (oe_create env) (oe_fin env) h (wk_engine w) a (ws_site s) =
        Inr (0, h', Some (e\<lparr>en_runner := Some \<lparr>rn_job = a, rn_thread = Thr_Alive\<rparr>\<rparr>))" "stopped_store (oe_fin env) h w h'"
    with stopped_store_inv [OF _ inv job] job show ?thesis
      by (simp add: signal_run_def put_engine_def op_ok_def)
  qed (use inv job e in \<open>simp_all add: signal_run_def put_engine_def op_ok_def engine_upd_id\<close>)
qed

lemma engine_restart_ok:
  assumes inv: "inv_hw h w" and job: "wk_job w = Some a" and run: "runner_of w = Some r" "rn_job r = a"
  shows "op_ok w (put_engine s w (engine_restart err fin h (wk_engine w)))"
proof -
  from inv job run obtain e j where e: "wk_engine w = Some e" "en_runner e = Some r" and j: "h a = Some j"
    by (auto simp: inv_hw_def runner_of_def)
  show ?thesis
  proof (rule engine_stop_cases [OF e(1) run(1), of h fin])
    fix h' assume st: "thread_stop fin h r = Inr (h', r\<lparr>rn_thread := Thr_Joined\<rparr>)" "stopped_store fin h w h'"
    then have "h' a \<noteq> None" using j run by (auto simp: stopped_store_def)
    with st e run stopped_store_inv [OF st(2) inv job] job show ?thesis
      by (auto simp: engine_restart_def put_engine_def op_ok_def)
  qed (use j run e in \<open>auto simp: engine_restart_def put_engine_def op_ok_def\<close>)
qed

lemma engine_stop_ok:
  assumes inv: "inv_hw h w" and job: "wk_job w = Some a" and run: "runner_of w = Some r" "rn_job r = a"
  shows "op_ok w (put_engine s w (engine_stop fin h (wk_engine w)))"
proof -
  from inv job run obtain e j where e: "wk_engine w = Some e" "en_runner e = Some r" and j: "h a = Some j"
    by (auto simp: inv_hw_def runner_of_def)
  show ?thesis
  proof (rule engine_stop_cases [OF e(1) run(1), of h fin])
    fix h' assume st: "thread_stop fin h r = Inr (h', r\<lparr>rn_thread := Thr_Joined\<rparr>)" "stopped_store fin h w h'"
    with e run stopped_store_inv [OF st(2) inv job] job show ?thesis
      by (auto simp: engine_stop_def put_engine_def op_ok_def)
  qed (use j run e in \<open>auto simp: engine_stop_def put_engine_def op_ok_def\<close>)
qed

lemma joined_status [simp]: "joined (w\<lparr>wk_status := st\<rparr>) = joined w"
  by (simp add: joined_def)

lemma op_ok_status [simp]: "op_ok (w\<lparr>wk_status := st\<rparr>) = op_ok w"
  by (simp add: op_ok_def fun_eq_iff split: sum.split)

lemma update_status_other:
  "worker_update_status h w = Inr (h', w') \<Longrightarrow> wk_job w \<noteq> Some b \<Longrightarrow> h' b = h b"
  by (auto simp: worker_update_status_def job_get_status_def Let_def split: option.splits)

lemma inv_hw_extend: "inv_hw h w \<Longrightarrow> h a = None \<Longrightarrow> inv_hw (h(a \<mapsto> j)) w"
  by (auto simp: inv_hw_def split: option.splits)

lemma worker_take_ok:
  assumes "inv_hw (ws_heap s) ((ws_worker s)\<lparr>wk_job := Some a\<rparr>)"
    and "\<And>b. wk_job (ws_worker s) = Some b \<Longrightarrow> b \<noteq> a \<and> ws_heap s b \<noteq> None"
  shows "\<exists>obj t. worker_take env s a = Inr (obj, t) \<and> inv_hw (ws_heap t) (ws_worker t) \<and>
    wk_job (ws_worker t) = Some a \<and> wk_engine (ws_worker t) = wk_engine (ws_worker s) \<and>
    (\<forall>b. wk_job (ws_worker s) = Some b \<longrightarrow> ws_heap t b = None) \<and> (oe_new env \<longrightarrow> obj = Some (worker_report (ws_heap t) (ws_worker t))) \<and>
    wk_status (ws_worker t) \<in> {0, 1, 2, 3}"
proof -
  obtain h where h: "job_destroy (ws_heap s) (wk_job (ws_worker s)) = Inr h" "h a = ws_heap s a"
    "\<And>b. wk_job (ws_worker s) = Some b \<Longrightarrow> h b = None"
    using assms(2) by (cases "wk_job (ws_worker s)") (auto simp: job_destroy_def)
  then have "inv_hw h ((ws_worker s)\<lparr>wk_job := Some a\<rparr>)" using assms(1) by (simp add: inv_hw_def)
  then obtain h' w' where g: "get_status (oe_new env) h ((ws_worker s)\<lparr>wk_job := Some a\<rparr>) =
      Inr (if oe_new env then Some (worker_report h' w') else None, h', w')" "inv_hw h' w'" "wk_job w' = Some a"
      "wk_engine w' = wk_engine (ws_worker s)" "dom h' = dom h" "wk_status w' \<in> {0, 1, 2, 3}"
    by (rule get_status_ok [where new_ok = "oe_new env"]) simp
  then have "\<forall>b. wk_job (ws_worker s) = Some b \<longrightarrow> h' b = None" using h(3) by (metis domIff)
  with h(1) g show ?thesis by (simp add: worker_take_def)
qed

lemma worker_assign_ok:
  assumes inv: "inv_hw (ws_heap s) (ws_worker s)" and a: "ws_heap s a = None" and j: "job_fresh j" and na: "\<not> alive s"
  shows "op_ok (ws_worker s) (map_sum id snd (worker_assign env (s\<lparr>ws_heap := (ws_heap s)(a \<mapsto> j)\<rparr>) (Some a)))"
proof -
  let ?h = "(ws_heap s)(a \<mapsto> j)" and ?w = "ws_worker s"
  obtain h st where up: "worker_update_status ?h ?w = Inr (h, ?w\<lparr>wk_status := st\<rparr>)" and inv': "inv_hw h (?w\<lparr>wk_status := st\<rparr>)"
    using update_status_ok [OF inv_hw_extend [OF inv a]] by metis
  have notjob: "wk_job ?w \<noteq> Some a" using inv a by (auto simp: inv_hw_def)
  then have ha: "h a = Some j" using update_status_other [OF up] by simp
  let ?s = "s\<lparr>ws_heap := h, ws_worker := ?w\<lparr>wk_status := st\<rparr>\<rparr>"
  have "inv_hw (ws_heap ?s) ((ws_worker ?s)\<lparr>wk_job := Some a\<rparr>)"
    using inv' ha job_fresh_ok [OF j] na by (auto simp: inv_hw_def alive_def)
  moreover have "b \<noteq> a \<and> ws_heap ?s b \<noteq> None" if "wk_job (ws_worker ?s) = Some b" for b
    using that inv' notjob by (auto simp: inv_hw_def)
  ultimately obtain obj t where "worker_take env ?s a = Inr (obj, t)" "inv_hw (ws_heap t) (ws_worker t)"
    using worker_take_ok by blast
  with up inv inv' inv_hw_extend [OF inv a] show ?thesis
    by (auto simp: worker_assign_def op_ok_def Let_def)
qed

lemma stopped_store_dom: "stopped_store fin h w h' \<Longrightarrow> dom h' = dom h"
  by (auto simp: stopped_store_def split: if_splits)

lemma engine_started_take:
  assumes inv: "inv_hw h w" and ha: "h a = Some j" and "job_fresh j" and notjob: "wk_job w \<noteq> Some a"
    and st: "stopped_store fin h w h'"
  shows "inv_hw h' (w\<lparr>wk_engine := Some (e\<lparr>en_runner := Some \<lparr>rn_job = a, rn_thread = Thr_Alive\<rparr>\<rparr>), wk_job := Some a\<rparr>)"
    and "wk_job w = Some b \<Longrightarrow> b \<noteq> a \<and> h' b \<noteq> None"
proof -
  from st consider "h' = h" | r i where "runner_of w = Some r" "rn_thread r = Thr_Alive" "h' = h(rn_job r \<mapsto> i)"
    unfolding stopped_store_def by blast
  then have "h' a = Some j"
  proof cases
    case (2 r i)
    with inv_alive_allocated [OF inv 2(1,2)] notjob ha show ?thesis by auto
  qed (use ha in simp)
  with job_fresh_ok [OF assms(3)]
  show "inv_hw h' (w\<lparr>wk_engine := Some (e\<lparr>en_runner := Some \<lparr>rn_job = a, rn_thread = Thr_Alive\<rparr>\<rparr>), wk_job := Some a\<rparr>)"
    by (simp add: inv_hw_def runner_of_def)
  show "b \<noteq> a \<and> h' b \<noteq> None" if b: "wk_job w = Some b"
  proof -
    have "h b \<noteq> None" using inv b by (auto simp: inv_hw_def)
    with stopped_store_dom [OF st] b notjob show ?thesis by (metis domIff)
  qed
qed

lemma worker_run_ok:
  assumes inv: "inv_hw (ws_heap s) (ws_worker s)" and a: "ws_heap s a = None" and j: "job_fresh j"
  shows "op_ok (ws_worker s) (map_sum id snd (worker_run env (s\<lparr>ws_heap := (ws_heap s)(a \<mapsto> j)\<rparr>) (Some a)))"
proof -
  let ?h = "(ws_heap s)(a \<mapsto> j)" and ?w = "ws_worker s"
  obtain h st where up: "worker_update_status ?h ?w = Inr (h, ?w\<lparr>wk_status := st\<rparr>)" and inv': "inv_hw h (?w\<lparr>wk_status := st\<rparr>)"
    using update_status_ok [OF inv_hw_extend [OF inv a]] by metis
  let ?w' = "?w\<lparr>wk_status := st\<rparr>"
  have notjob: "wk_job ?w \<noteq> Some a" using inv a by (auto simp: inv_hw_def)
  then have ha: "h a = Some j" using update_status_other [OF up] by simp
  obtain e where e: "wk_engine ?w' = Some e" using inv' by (auto simp: inv_hw_def)
  have alloc: "h (rn_job r) \<noteq> None" if "runner_of ?w' = Some r" "rn_thread r = Thr_Alive" for r
    using inv_alive_allocated [OF inv' that] by auto
  show ?thesis
  proof (rule engine_run_cases [OF e ha alloc, of "oe_malloc env" "oe_create env" "oe_fin env" "ws_site s"])
    fix h' assume run: "engine_run (oe_malloc env) (oe_create env) (oe_fin env) h (wk_engine ?w') a (ws_site s) =
        Inr (0, h', Some (e\<lparr>en_runner := Some \<lparr>rn_job = a, rn_thread = Thr_Alive\<rparr>\<rparr>))" and st: "stopped_store (oe_fin env) h ?w' h'"
    let ?s = "s\<lparr>ws_heap := h', ws_worker := ?w'\<lparr>wk_engine := Some (e\<lparr>en_runner := Some \<lparr>rn_job = a, rn_thread = Thr_Alive\<rparr>\<rparr>)\<rparr>\<rparr>"
    have "inv_hw (ws_heap ?s) ((ws_worker ?s)\<lparr>wk_job := Some a\<rparr>)"
      using engine_started_take(1) [OF inv' ha j _ st] notjob by simp
    moreover have "b \<noteq> a \<and> ws_heap ?s b \<noteq> None" if "wk_job (ws_worker ?s) = Some b" for b
      using engine_started_take(2) [OF inv' ha j _ st] notjob that by simp
    ultimately obtain obj t where "worker_take env ?s a = Inr (obj, t)" "inv_hw (ws_heap t) (ws_worker t)"
      using worker_take_ok by blast
    with up run inv' inv_hw_extend [OF inv a] show ?thesis by (auto simp: worker_run_def op_ok_def)
  qed (use up inv' e inv_hw_extend [OF inv a] in \<open>auto simp: worker_run_def op_ok_def engine_upd_id\<close>)
qed

lemma worker_signals_ok:
  assumes inv: "inv_hw (ws_heap s) (ws_worker s)"
  shows "op_ok (ws_worker s) (worker_restart env s)" and "op_ok (ws_worker s) (worker_start env s)"
    and "op_ok (ws_worker s) (worker_stop env s)"
proof -
  let ?w = "ws_worker s"
  obtain h st where up: "worker_update_status (ws_heap s) ?w = Inr (h, ?w\<lparr>wk_status := st\<rparr>)"
    and inv': "inv_hw h (?w\<lparr>wk_status := st\<rparr>)" and range: "st \<in> {0, 1, 2, 3}"
    and none: "st = WORKER_NOT_ASSIGNED \<longleftrightarrow> wk_job ?w = None"
    and run: "st \<in> {WORKER_WORKING, WORKER_NOT_WORKING} \<Longrightarrow>
      \<exists>a r. wk_job ?w = Some a \<and> runner_of ?w = Some r \<and> rn_job r = a"
    using update_status_ok [OF inv] by metis
  let ?w' = "?w\<lparr>wk_status := st\<rparr>"
  have sig: "op_ok ?w (signal_run env s h ?w')" if "st \<noteq> 0"
  proof -
    from that none obtain a where "wk_job ?w' = Some a" by auto
    from signal_run_ok [OF inv' this] show ?thesis by simp
  qed
  have restart: "op_ok ?w (put_engine s ?w' (engine_restart (oe_create env) (oe_fin env) h (wk_engine ?w)))"
    and stop: "op_ok ?w (put_engine s ?w' (engine_stop (oe_fin env) h (wk_engine ?w)))"
    if working: "st \<in> {WORKER_WORKING, WORKER_NOT_WORKING}"
  proof -
    from run [OF working] obtain a r where ar: "wk_job ?w' = Some a" "runner_of ?w' = Some r" "rn_job r = a" by auto
    from engine_restart_ok [OF inv' ar] engine_stop_ok [OF inv' ar]
    show "op_ok ?w (put_engine s ?w' (engine_restart (oe_create env) (oe_fin env) h (wk_engine ?w)))"
      and "op_ok ?w (put_engine s ?w' (engine_stop (oe_fin env) h (wk_engine ?w)))" by simp_all
  qed
  have idle: "op_ok ?w (Inr (s\<lparr>ws_heap := h, ws_worker := ?w'\<rparr>))" using inv' by (simp add: op_ok_def)
  show "op_ok ?w (worker_restart env s)" using up sig restart idle range by (auto simp: worker_restart_def)
  show "op_ok ?w (worker_start env s)" using up sig restart idle range by (auto simp: worker_start_def)
  show "op_ok ?w (worker_stop env s)" using up stop idle range by (auto simp: worker_stop_def)
qed

lemma thread_access_ok:
  assumes inv: "inv_hw (ws_heap s) (ws_worker s)" and run: "runner_of (ws_worker s) = Some r" "rn_thread r = Thr_Alive"
    and f: "\<And>j. job_ok j \<Longrightarrow> job_ok (f j)"
  shows "op_ok (ws_worker s) (thread_access f ts s r)"
proof -
  from inv_alive_allocated [OF inv run] obtain a where a: "wk_job (ws_worker s) = Some a" "rn_job r = a" by blast
  with inv obtain j where "ws_heap s a = Some j" "job_ok j" by (auto simp: inv_hw_def)
  with a f show ?thesis by (simp add: thread_access_def op_ok_def inv_hw_def runner_of_def)
qed

lemma worker_step_ok:
  assumes "worker_step True s res" and inv: "inv_hw (ws_heap s) (ws_worker s)"
  shows "op_ok (ws_worker s) res"
  using assms(1)
proof cases
  case (run_called a j env)
  with worker_run_ok [OF inv] show ?thesis by simp
next
  case (assign_called a j env)
  with worker_assign_ok [OF inv] show ?thesis by simp
next
  case (status_called env)
  obtain h w where "get_status (oe_new env) (ws_heap s) (ws_worker s) =
      Inr (if oe_new env then Some (worker_report h w) else None, h, w)" "inv_hw h w"
    by (rule get_status_ok [OF inv, where new_ok = "oe_new env"])
  with inv status_called show ?thesis by (simp add: worker_get_status_def op_ok_def)
next
  case (thread_sets r st i)
  with thread_access_ok [OF inv] job_ok_ops show ?thesis by simp
next
  case (thread_ends r)
  with thread_access_ok [OF inv] job_update_ok show ?thesis by simp
qed (use worker_signals_ok [OF inv] in simp_all)

definition guarded_step :: "wsys \<Rightarrow> wsys \<Rightarrow> bool" where
  "guarded_step s t \<longleftrightarrow> worker_step True s (Inr t)"

interpretation worker_run: invariant_system worker_init guarded_step "\<lambda>s. inv_hw (ws_heap s) (ws_worker s)"
proof unfold_locales
  show "inv_hw (ws_heap s) (ws_worker s)" if "worker_init s" for s
    using that by (auto simp: worker_init_def worker_create_def engine_create_def inv_hw_def runner_of_def split: if_splits)
  show "inv_hw (ws_heap t) (ws_worker t)" if "inv_hw (ws_heap s) (ws_worker s)" "guarded_step s t" for s t
    using worker_step_ok [of s "Inr t"] that by (simp add: guarded_step_def op_ok_def)
qed

section \<open>What the worker promises\<close>


text \<open>A site, an environment in which everything succeeds, and the worker of the examples.\<close>

definition site_example :: site where
  "site_example = \<lparr>site_python = ''python'', site_task_dir = ''tasks'', site_working_dir = ''.''\<rparr>"

definition env_ok :: "int \<Rightarrow> op_env" where
  "env_ok st = \<lparr>oe_lock = 0, oe_new = True, oe_malloc = True, oe_create = 0, oe_fin = (\<lambda>_. st)\<rparr>"

definition worker_example :: "int \<Rightarrow> addr option \<Rightarrow> runner option \<Rightarrow> worker" where
  "worker_example st a r = \<lparr>wk_id = 2, wk_status = st, wk_job = a, wk_engine = Some \<lparr>en_runner = r\<rparr>\<rparr>"

definition wsys_example :: "(addr \<times> job) list \<Rightarrow> worker \<Rightarrow> wsys" where
  "wsys_example h w = \<lparr>ws_heap = map_of h, ws_worker = w, ws_site = Some site_example\<rparr>"

abbreviation wsys_idle :: wsys where
  "wsys_idle \<equiv> wsys_example [] (worker_example 0 None None)"

lemma wsys_idle_init: "worker_init wsys_idle"
  unfolding worker_init_def wsys_example_def
  by (intro conjI exI [of _ 2]) (simp_all add: worker_create_def engine_create_def worker_example_def)

lemma job_example_fresh: "job_fresh job_example"
  by (simp add: job_fresh_def job_wf_def job_example_def opts_valid_def task_example_def)

text \<open>The example job with its task in a given status.\<close>

definition job_in :: "int \<Rightarrow> job" where
  "job_in st = \<lparr>job_id = 7, job_status = st, job_size = 1,
     job_opts = \<lparr>opts_size = 16, exec_mode = JOB_EXEC_SEQUENTIAL, run_mode = JOB_RUN_REPEAT\<rparr>,
     job_tasks = [task_example\<lparr>task_status := st\<rparr>]\<rparr>"

lemma job_in_ready: "job_in 1 = job_example"
  by (simp add: job_in_def job_example_def task_example_def)

lemma job_in_get_status [simp]: "st \<in> {0, 1, 2, 3, 4} \<Longrightarrow> job_get_status (job_in st) = (st, job_in st)"
  by (auto simp: job_get_status_def job_update_status_def job_in_def task_example_def task_get_status_def Let_def)

lemma job_in_update [simp]: "st \<in> {0, 1, 2, 3, 4} \<Longrightarrow> job_update_status (job_in st) = job_in st"
  using job_in_get_status [of st] unfolding job_get_status_def Let_def by simp

lemma job_in_run [simp]: "\<exists>jr. job_run True 0 (job_in st) (Some x) = Some jr"
  by (simp add: job_run_def job_thread_create_def job_in_def)

lemma set_statuses_in [simp]: "(set_statuses (\<lambda>_. st') (job_in st)) = (job_in st')\<lparr>job_status := st\<rparr>"
  by (simp add: set_statuses_def job_in_def task_set_status_def)

lemma update_job_in [simp]: "st \<in> {0, 1, 2, 3, 4} \<Longrightarrow> job_update_status ((job_in st)\<lparr>job_status := x\<rparr>) = job_in st"
  by (auto simp: job_update_status_def job_in_def task_example_def task_get_status_def Let_def)

abbreviation run_of :: "thread_state \<Rightarrow> runner option" where
  "run_of ts \<equiv> Some \<lparr>rn_job = 0, rn_thread = ts\<rparr>"

text \<open>The state after \<^verbatim>\<open>worker_run\<close> of the example job on the idle worker.\<close>

abbreviation wsys_running :: wsys where
  "wsys_running \<equiv> wsys_example [(0, job_in 1)] (worker_example 1 (Some 0) (run_of Thr_Alive))"

lemma take_example:
  "worker_take (env_ok st) (wsys_example [(0, job_in 1)] (worker_example 0 None (run_of Thr_Alive))) 0 =
   Inr (Some (worker_report [0 \<mapsto> job_in 1] (worker_example 1 (Some 0) (run_of Thr_Alive))), wsys_running)"
  by (simp add: worker_take_def wsys_example_def worker_example_def env_ok_def job_destroy_def get_status_def
      worker_update_status_def worker_status_map_def job_encode_status_eq worker_report_def job_report_def fun_upd_idem)

lemma run_example:
  "worker_run (env_ok st) (wsys_idle\<lparr>ws_heap := (ws_heap wsys_idle)(0 \<mapsto> job_in 1)\<rparr>) (Some 0) =
   Inr (Some (worker_report [0 \<mapsto> job_in 1] (worker_example 1 (Some 0) (run_of Thr_Alive))), wsys_running)"
proof -
  obtain jr where "job_run True 0 (job_in 1) (Some site_example) = Some jr" using job_in_run by blast
  with take_example [of st] show ?thesis
    by (simp add: worker_run_def wsys_example_def worker_example_def env_ok_def worker_update_status_def engine_run_def Let_def)
qed

lemma wsys_idle_reach: "reach worker_init guarded_step wsys_idle"
  using wsys_idle_init by (rule reach_init)

lemma wsys_running_reach: "reach worker_init guarded_step wsys_running"
proof (rule reach_step [OF wsys_idle_reach])
  show "guarded_step wsys_idle wsys_running"
    unfolding guarded_step_def
    using run_called [of wsys_idle 0 "job_in 1" True "env_ok 4"] job_example_fresh run_example [of 4]
    by (simp add: job_in_ready wsys_example_def)
qed

text \<open>Its task starts, and the job is then stopped by SIGINT.\<close>

abbreviation wsys_working :: wsys where
  "wsys_working \<equiv> wsys_example [(0, (job_in 2)\<lparr>job_status := 1\<rparr>)] (worker_example 1 (Some 0) (run_of Thr_Alive))"

abbreviation wsys_stopped :: wsys where
  "wsys_stopped \<equiv> wsys_example [(0, (job_in 4)\<lparr>job_status := 2\<rparr>)] (worker_example 3 (Some 0) (run_of Thr_Joined))"

lemma wsys_working_reach: "reach worker_init guarded_step wsys_working"
proof (rule reach_step [OF wsys_running_reach])
  have "thread_access (set_task 0 2) Thr_Alive wsys_running \<lparr>rn_job = 0, rn_thread = Thr_Alive\<rparr> = Inr wsys_working"
    by (simp add: thread_access_def wsys_example_def worker_example_def set_task_def job_in_def task_set_status_def)
  moreover have "runner_of (ws_worker wsys_running) = run_of Thr_Alive"
    by (simp add: runner_of_def wsys_example_def worker_example_def)
  ultimately show "guarded_step wsys_running wsys_working"
    using thread_sets [of wsys_running "\<lparr>rn_job = 0, rn_thread = Thr_Alive\<rparr>" 2 True 0] by (simp add: guarded_step_def)
qed

lemma wsys_stopped_reach: "reach worker_init guarded_step wsys_stopped"
proof (rule reach_step [OF wsys_working_reach])
  have "worker_stop (env_ok 4) wsys_working = Inr wsys_stopped"
    by (simp add: worker_stop_def worker_update_status_def wsys_example_def worker_example_def env_ok_def
        job_get_status_def put_engine_def engine_stop_def thread_stop_def Let_def)
       (simp add: job_in_def)
  then show "guarded_step wsys_working wsys_stopped"
    using stop_called [of True wsys_working "env_ok 4"] by (simp add: guarded_step_def)
qed


text \<open>
  Without that proviso the worker does free a job its thread is using:
  \<^verbatim>\<open>worker_assign\<close> refuses only a worker whose status is WORKING, but a job just
  started, none of whose tasks is RUNNING yet, still counts as READY. From the idle
  worker, \<^verbatim>\<open>worker_run\<close> followed by \<^verbatim>\<open>worker_assign\<close> leads to a state in
  which the next step of the job thread is a use after free.
\<close>

theorem assign_frees_running_job:
  "\<exists>s t. worker_step False wsys_idle (Inr s) \<and> worker_step False s (Inr t) \<and> worker_step False t (Inl Use_After_Free)"
proof (intro exI conjI)
  let ?t = "wsys_example [(1, job_in 1)] (worker_example 1 (Some 1) (run_of Thr_Alive))"
  show "worker_step False wsys_idle (Inr wsys_running)"
    using run_called [of wsys_idle 0 "job_in 1" False "env_ok 4"] job_example_fresh run_example [of 4]
    by (simp add: job_in_ready wsys_example_def)
  have "map_sum id snd (worker_assign (env_ok 4) (wsys_running\<lparr>ws_heap := (ws_heap wsys_running)(1 \<mapsto> job_in 1)\<rparr>) (Some 1)) = Inr ?t"
    by (simp add: worker_assign_def worker_take_def wsys_example_def worker_example_def env_ok_def job_destroy_def get_status_def
        worker_update_status_def worker_status_map_def job_encode_status_eq fun_upd_twist fun_upd_idem fun_eq_iff)
  then show "worker_step False wsys_running (Inr ?t)"
    using assign_called [of wsys_running 1 "job_in 1" False "env_ok 4"] job_example_fresh
    by (simp add: job_in_ready wsys_example_def)
  have "thread_access job_update_status Thr_Done ?t \<lparr>rn_job = 0, rn_thread = Thr_Alive\<rparr> = Inl Use_After_Free"
    by (simp add: thread_access_def wsys_example_def)
  then show "worker_step False ?t (Inl Use_After_Free)"
    using thread_ends [of ?t "\<lparr>rn_job = 0, rn_thread = Thr_Alive\<rparr>" False]
    by (simp add: runner_of_def wsys_example_def worker_example_def)
qed

text \<open>The status the worker derives for itself.\<close>

definition derived_status :: "wsys \<Rightarrow> int" where
  "derived_status s =
     (case wk_job (ws_worker s) of
        None \<Rightarrow> WORKER_NOT_ASSIGNED
      | Some a \<Rightarrow>
          (case fst (job_get_status (the (ws_heap s a))) of
             st \<Rightarrow> if st = JOB_READY then WORKER_ASSIGNED else if st = JOB_RUNNING then WORKER_WORKING else WORKER_NOT_WORKING))"

lemma update_status_derived:
  assumes "inv_hw (ws_heap s) (ws_worker s)"
  obtains h where "worker_update_status (ws_heap s) (ws_worker s) = Inr (h, (ws_worker s)\<lparr>wk_status := derived_status s\<rparr>)"
    and "inv_hw h ((ws_worker s)\<lparr>wk_status := derived_status s\<rparr>)"
proof -
  obtain h st where up: "worker_update_status (ws_heap s) (ws_worker s) = Inr (h, (ws_worker s)\<lparr>wk_status := st\<rparr>)"
    and inv: "inv_hw h ((ws_worker s)\<lparr>wk_status := st\<rparr>)"
    using update_status_ok [OF assms] by metis
  have "st = derived_status s"
  proof (cases "wk_job (ws_worker s)")
    case None
    with up show ?thesis by (cases "ws_worker s") (auto simp: worker_update_status_def derived_status_def)
  next
    case (Some a)
    with assms obtain j where j: "ws_heap s a = Some j" "job_ok j" by (auto simp: inv_hw_def)
    have "job_status (job_update_status j) \<in> {0, 1, 2, 3, 4}" using job_update_ok(1) [OF j(2)] by (simp add: job_ok_def)
    with up Some j show ?thesis
      by (cases "ws_worker s") (auto simp: worker_update_status_def derived_status_def job_get_status_def Let_def split: if_splits)
  qed
  with up inv that show ?thesis by blast
qed

lemma worker_run_result:
  assumes "reach worker_init guarded_step s" and "ws_heap s a = None" and "job_fresh j" and "job_tasks j \<noteq> []"
    and "ws_site s \<noteq> None"
  shows "case worker_run (env_ok st) (s\<lparr>ws_heap := (ws_heap s)(a \<mapsto> j)\<rparr>) (Some a) of
     Inl f \<Rightarrow> f = Double_Join \<and> joined (ws_worker s) \<and> derived_status s \<noteq> WORKER_WORKING
   | Inr (reply, t) \<Rightarrow>
       if derived_status s = WORKER_WORKING then reply = None \<and> wk_job (ws_worker t) = wk_job (ws_worker s)
       else wk_job (ws_worker t) = Some a \<and> runner_of (ws_worker t) = Some \<lparr>rn_job = a, rn_thread = Thr_Alive\<rparr> \<and>
         (\<forall>b. wk_job (ws_worker s) = Some b \<longrightarrow> ws_heap t b = None) \<and>
         reply = Some (worker_report (ws_heap t) (ws_worker t)) \<and> wk_status (ws_worker t) \<in> {0, 1, 2, 3}"
proof -
  let ?h = "(ws_heap s)(a \<mapsto> j)" and ?w = "ws_worker s"
  let ?s = "s\<lparr>ws_heap := ?h\<rparr>"
  note inv = worker_run.reach_inv [OF assms(1)]
  have notjob: "wk_job ?w \<noteq> Some a" using inv assms(2) by (auto simp: inv_hw_def)
  then have derived: "derived_status ?s = derived_status s" by (auto simp: derived_status_def split: option.split)
  have ext: "inv_hw (ws_heap ?s) (ws_worker ?s)" using inv_hw_extend [OF inv assms(2)] by simp
  obtain h where up: "worker_update_status ?h ?w = Inr (h, ?w\<lparr>wk_status := derived_status s\<rparr>)"
    and inv': "inv_hw h (?w\<lparr>wk_status := derived_status s\<rparr>)"
    using update_status_derived [OF ext] derived by auto
  let ?w' = "?w\<lparr>wk_status := derived_status s\<rparr>"
  show ?thesis
  proof (cases "derived_status s = WORKER_WORKING")
    case True
    with up show ?thesis by (simp add: worker_run_def env_ok_def)
  next
    case False
    have ha: "h a = Some j" using update_status_other [OF up] notjob by simp
    obtain e where e: "wk_engine ?w' = Some e" using inv' by (auto simp: inv_hw_def)
    have alloc: "h (rn_job r) \<noteq> None" if "runner_of ?w' = Some r" "rn_thread r = Thr_Alive" for r
      using inv_alive_allocated [OF inv' that] by auto
    have runs: "job_run True 0 j (ws_site s) \<noteq> None"
      using assms(3-5) by (auto simp: job_run_def job_thread_create_def job_fresh_def job_wf_def opts_valid_def)
    show ?thesis
    proof (rule engine_run_cases [OF e ha alloc, of True 0 "\<lambda>_. st" "ws_site s"])
      fix h' assume run: "engine_run True 0 (\<lambda>_. st) h (wk_engine ?w') a (ws_site s) =
          Inr (0, h', Some (e\<lparr>en_runner := Some \<lparr>rn_job = a, rn_thread = Thr_Alive\<rparr>\<rparr>))"
        and stopped: "stopped_store (\<lambda>_. st) h ?w' h'"
      let ?t = "s\<lparr>ws_heap := h', ws_worker := ?w'\<lparr>wk_engine := Some (e\<lparr>en_runner := Some \<lparr>rn_job = a, rn_thread = Thr_Alive\<rparr>\<rparr>)\<rparr>\<rparr>"
      have take: "inv_hw (ws_heap ?t) ((ws_worker ?t)\<lparr>wk_job := Some a\<rparr>)"
        using engine_started_take(1) [OF inv' ha assms(3) _ stopped] notjob by simp
      have old: "b \<noteq> a \<and> ws_heap ?t b \<noteq> None" if "wk_job (ws_worker ?t) = Some b" for b
        using engine_started_take(2) [OF inv' ha assms(3) _ stopped] notjob that by simp
      from worker_take_ok [OF take old, of "env_ok st"] up run False show ?thesis
        by (auto simp: worker_run_def env_ok_def Let_def runner_of_def)
    qed (use up False runs in \<open>auto simp: worker_run_def env_ok_def\<close>)
  qed
qed

lemma worker_run_busy:
  assumes "inv_hw (ws_heap s) (ws_worker s)" and "derived_status s = WORKER_WORKING"
  shows "\<exists>t. worker_run (env_ok st) s (Some a) = Inr (None, t)"
proof -
  obtain h where "worker_update_status (ws_heap s) (ws_worker s) = Inr (h, (ws_worker s)\<lparr>wk_status := derived_status s\<rparr>)"
    by (rule update_status_derived [OF assms(1)])
  with assms(2) show ?thesis by (simp add: worker_run_def env_ok_def)
qed



text \<open>
  Property C33. The status of a worker is derived from its job alone: it is NOT_ASSIGNED
  exactly without a job and WORKING exactly if a task of its job is RUNNING. A status
  report shows it, with the job's identifier, derived status and one entry per task.
\<close>

theorem worker_status_report:
  assumes "reach worker_init guarded_step s"
  shows "\<exists>t. worker_get_status (env_ok st) s = Inr (Some (worker_report (ws_heap t) (ws_worker t)), t) \<and>
     wk_job (ws_worker t) = wk_job (ws_worker s) \<and> wk_status (ws_worker t) = derived_status s \<and>
     (derived_status s = WORKER_NOT_ASSIGNED \<longleftrightarrow> wk_job (ws_worker s) = None) \<and>
     (derived_status s = WORKER_WORKING \<longleftrightarrow>
        (\<exists>a j. wk_job (ws_worker s) = Some a \<and> ws_heap s a = Some j \<and> (\<exists>t \<in> set (job_tasks j). task_status t = TASK_RUNNING)))"
proof -
  note inv = worker_run.reach_inv [OF assms]
  obtain h w where g: "get_status True (ws_heap s) (ws_worker s) = Inr (if True then Some (worker_report h w) else None, h, w)"
    "wk_job w = wk_job (ws_worker s)" and up: "\<exists>h1. worker_update_status (ws_heap s) (ws_worker s) = Inr (h1, w)"
    by (rule get_status_ok [OF inv, where new_ok = True])
  have st: "wk_status w = derived_status s" using update_status_derived [OF inv] up by fastforce
  have none: "derived_status s = WORKER_NOT_ASSIGNED \<longleftrightarrow> wk_job (ws_worker s) = None"
    by (auto simp: derived_status_def split: option.split)
  have "derived_status s = WORKER_WORKING \<longleftrightarrow>
      (\<exists>a j. wk_job (ws_worker s) = Some a \<and> ws_heap s a = Some j \<and> (\<exists>t \<in> set (job_tasks j). task_status t = TASK_RUNNING))"
  proof (cases "wk_job (ws_worker s)")
    case (Some a)
    with inv obtain j where "ws_heap s a = Some j" "job_ok j" by (auto simp: inv_hw_def)
    with Some job_ok_running [of j] show ?thesis by (auto simp: derived_status_def)
  qed (simp add: derived_status_def)
  with g st none show ?thesis
    by (intro exI [of _ "s\<lparr>ws_heap := h, ws_worker := w\<rparr>"]) (simp add: worker_get_status_def env_ok_def)
qed

theorem worker_status_report_witness:
  "\<exists>t. worker_get_status (env_ok 4) wsys_working = Inr (Some (worker_report (ws_heap t) (ws_worker t)), t)"
  using worker_status_report [OF wsys_working_reach, of 4] by blast

text \<open>
  The names of the statuses can be decoded again except one:
  \<^verbatim>\<open>worker_status_decode\<close> does not know the name of WORKER_ASSIGNED.
\<close>

theorem worker_status_decode_map:
  assumes "worker_status_map True st = Some v"
  shows "worker_status_decode v = (if st = WORKER_ASSIGNED then - 1 else st)"
  using assms by (auto simp: worker_status_map_def worker_status_decode_def streq_def split: if_splits)

theorem worker_status_decode_map_witness:
  "worker_status_decode (JString ''assigned'') = - 1 \<and> worker_status_decode (JString ''working'') = WORKER_WORKING"
  using worker_status_decode_map [of 1 "JString ''assigned''"] worker_status_decode_map [of 3 "JString ''working''"]
  by (simp add: worker_status_map_def)

text \<open>
  \<^verbatim>\<open>worker_destroy\<close> does not release everything and not always
  safely: with the stored status ASSIGNED it frees neither the job nor the engine, and with
  the stored status WORKING it stops the engine twice, so it joins the job thread twice.
\<close>

theorem worker_destroy_flaws:
  assumes "reach worker_init guarded_step s"
  shows "(wk_status (ws_worker s) = WORKER_ASSIGNED \<longrightarrow> worker_destroy env s = Inr (ws_heap s)) \<and>
     (wk_status (ws_worker s) = WORKER_WORKING \<and> runner_of (ws_worker s) \<noteq> None \<longrightarrow> worker_destroy env s = Inl Double_Join)"
proof -
  note inv = worker_run.reach_inv [OF assms]
  have "worker_destroy env s = Inl Double_Join"
    if st: "wk_status (ws_worker s) = WORKER_WORKING" and r: "runner_of (ws_worker s) = Some r" for r
  proof -
    from r inv obtain e where e: "wk_engine (ws_worker s) = Some e" "en_runner e = Some r"
      by (auto simp: inv_hw_def runner_of_def)
    show ?thesis
    proof (rule engine_stop_cases [OF e(1) r, of "ws_heap s" "oe_fin env"])
      show "ws_heap s (rn_job r) \<noteq> None" if "rn_thread r = Thr_Alive"
        using inv_alive_allocated [OF inv r that] by auto
    next
      fix h' assume stop: "thread_stop (oe_fin env) (ws_heap s) r = Inr (h', r\<lparr>rn_thread := Thr_Joined\<rparr>)"
        and st': "stopped_store (oe_fin env) (ws_heap s) (ws_worker s) h'"
      have "\<exists>h''. job_destroy h' (wk_job (ws_worker s)) = Inr h''"
      proof (cases "wk_job (ws_worker s)")
        case (Some b)
        with inv have "b \<in> dom (ws_heap s)" by (auto simp: inv_hw_def)
        with stopped_store_dom [OF st'] Some show ?thesis by (auto simp: job_destroy_def)
      qed (simp add: job_destroy_def)
      then obtain h'' where "job_destroy h' (wk_job (ws_worker s)) = Inr h''" by blast
      with stop e st show ?thesis by (simp add: worker_destroy_def engine_stop_def engine_destroy_def thread_stop_def)
    qed (use e st in \<open>simp add: worker_destroy_def engine_stop_def\<close>)
  qed
  then show ?thesis by (auto simp: worker_destroy_def)
qed

theorem worker_destroy_flaws_witness:
  "worker_destroy (env_ok 4) wsys_running = Inr (ws_heap wsys_running) \<and> ws_heap wsys_running 0 \<noteq> None"
  using worker_destroy_flaws [OF wsys_running_reach, of "env_ok 4"] by (simp add: wsys_example_def worker_example_def)

end
