(* ===== verification/Pyoneer.thy ===== *)
theory Pyoneer
  imports Worker
begin

text \<open>
  The facade \<^verbatim>\<open>pyoneer/pyoneer.c\<close> over the worker. Only the role of a worker is
  implemented: for the role of a manager \<^verbatim>\<open>pyoneer_create\<close> returns an object whose
  fields were never set, and a worker that could not be created is kept as a null pointer.
\<close>

abbreviation (input) PYONEER_WORKER :: int where "PYONEER_WORKER \<equiv> 0"
abbreviation (input) PYONEER_MANAGER :: int where "PYONEER_MANAGER \<equiv> 1"

text \<open>The worker comes with the store and the site it works on.\<close>

datatype pyoneer =
    Py_Uninit
  | Py_Null_Worker
  | Py_Worker wsys

definition pyoneer_create ::
  "bool \<Rightarrow> bool \<Rightarrow> bool \<Rightarrow> int \<Rightarrow> site option \<Rightarrow> int \<Rightarrow> c_int \<Rightarrow> pyoneer option" where
  "pyoneer_create malloc_ok worker_ok engine_ok mutex_err s role i =
     (if \<not> malloc_ok then None
      else if role = PYONEER_WORKER then
        (case worker_create worker_ok engine_ok mutex_err i of
           None \<Rightarrow> Some Py_Null_Worker
         | Some w \<Rightarrow> Some (Py_Worker \<lparr>ws_heap = Map.empty, ws_worker = w, ws_site = s\<rparr>))
      else Some Py_Uninit)"

text \<open>The role and identifier the wrappers add to a status; on NULL the helpers do nothing.\<close>

definition tag_status :: "wsys \<Rightarrow> json_value option \<Rightarrow> (json_value option \<times> pyoneer) cres" where
  "tag_status s status =
     (case json_object_push_string True True status (Some ''role'') (Some ''worker'') of
        Inl f \<Rightarrow> Inl f
      | Inr (r, status) \<Rightarrow>
          (case json_object_push_integer True True status (Some ''id'') (worker_get_id (ws_worker s)) of
             Inl f \<Rightarrow> Inl f
           | Inr (r, status) \<Rightarrow> Inr (status, Py_Worker s)))"

definition with_worker :: "pyoneer \<Rightarrow> (wsys \<Rightarrow> 'a cres) \<Rightarrow> 'a cres" where
  "with_worker p f =
     (case p of Py_Uninit \<Rightarrow> Inl Uninit_Read | Py_Null_Worker \<Rightarrow> Inl Null_Deref | Py_Worker s \<Rightarrow> f s)"

definition then_tag :: "(json_value option \<times> wsys) cres \<Rightarrow> (json_value option \<times> pyoneer) cres" where
  "then_tag r = (case r of Inl f \<Rightarrow> Inl f | Inr (status, s) \<Rightarrow> tag_status s status)"

definition pyoneer_worker_get_status :: "op_env \<Rightarrow> pyoneer \<Rightarrow> (json_value option \<times> pyoneer) cres" where
  "pyoneer_worker_get_status env p = with_worker p (\<lambda>s. then_tag (worker_get_status env s))"

definition pyoneer_run_job :: "op_env \<Rightarrow> pyoneer \<Rightarrow> blueprint \<Rightarrow> (json_value option \<times> pyoneer) cres" where
  "pyoneer_run_job env p b = with_worker p (\<lambda>s. then_tag (worker_run env s (Some (bp_job b))))"

definition pyoneer_assign_job :: "op_env \<Rightarrow> pyoneer \<Rightarrow> blueprint \<Rightarrow> (json_value option \<times> pyoneer) cres" where
  "pyoneer_assign_job env p b = with_worker p (\<lambda>s. then_tag (worker_assign env s (Some (bp_job b))))"

definition pyoneer_worker_restart :: "op_env \<Rightarrow> pyoneer \<Rightarrow> pyoneer cres" where
  "pyoneer_worker_restart env p = with_worker p (\<lambda>s. map_sum id Py_Worker (worker_restart env s))"

definition pyoneer_worker_start :: "op_env \<Rightarrow> pyoneer \<Rightarrow> pyoneer cres" where
  "pyoneer_worker_start env p = with_worker p (\<lambda>s. map_sum id Py_Worker (worker_start env s))"

definition pyoneer_worker_stop :: "op_env \<Rightarrow> pyoneer \<Rightarrow> pyoneer cres" where
  "pyoneer_worker_stop env p = with_worker p (\<lambda>s. map_sum id Py_Worker (worker_stop env s))"

definition pyoneer_destroy :: "op_env \<Rightarrow> pyoneer option \<Rightarrow> unit cres" where
  "pyoneer_destroy env p =
     (case p of
        None \<Rightarrow> Inr ()
      | Some Py_Uninit \<Rightarrow> Inl Uninit_Read
      | Some Py_Null_Worker \<Rightarrow> Inr ()
      | Some (Py_Worker s) \<Rightarrow> map_sum id (\<lambda>_. ()) (worker_destroy env s))"

text \<open>The decoded job is stored at the free address \<open>a\<close>.\<close>

definition pyoneer_blueprint_decode ::
  "bool \<Rightarrow> addr \<Rightarrow> pyoneer \<Rightarrow> json_value option \<Rightarrow> (blueprint option \<times> pyoneer) cres" where
  "pyoneer_blueprint_decode malloc_ok a p val =
     (case val of
        None \<Rightarrow> Inr (None, p)
      | Some v \<Rightarrow>
          if json_type v \<noteq> 1 then Inr (None, p)
          else
            (case p of
               Py_Uninit \<Rightarrow> Inl Uninit_Read
             | Py_Null_Worker \<Rightarrow>
                 (case get_value v ''job'' of
                    None \<Rightarrow> Inr (None, p)
                  | Some obj \<Rightarrow> Inr (fst (blueprint_decode malloc_ok a BLUEPRINT_JOB (Some obj) Map.empty), p))
             | Py_Worker s \<Rightarrow>
                 (case get_value v ''job'' of
                    None \<Rightarrow> Inr (None, p)
                  | Some obj \<Rightarrow>
                      (case blueprint_decode malloc_ok a BLUEPRINT_JOB (Some obj) (ws_heap s) of
                         (b, h) \<Rightarrow> Inr (b, Py_Worker (s\<lparr>ws_heap := h\<rparr>))))))"

section \<open>What the facade returns\<close>

text \<open>A status with its tags.\<close>

definition tagged :: "wsys \<Rightarrow> json_value" where
  "tagged s = (case worker_report (ws_heap s) (ws_worker s) of
     JObject kvs \<Rightarrow> JObject (kvs @ [(''role'', JString ''worker''), (''id'', JInteger (json_of_int (wk_id (ws_worker s))))])
   | v \<Rightarrow> v)"

lemma tag_status_report: "tag_status s (Some (worker_report h w)) =
   Inr (Some (case worker_report h w of
     JObject kvs \<Rightarrow> JObject (kvs @ [(''role'', JString ''worker''), (''id'', JInteger (json_of_int (wk_id (ws_worker s))))])
   | v \<Rightarrow> v), Py_Worker s)"
  by (simp add: tag_status_def worker_report_def worker_get_id_def)

lemma tag_status_null: "tag_status s None = Inr (None, Py_Worker s)"
  by (simp add: tag_status_def json_object_push_string_def json_object_push_integer_def)

lemma then_tag_report:
  "then_tag (Inr (Some (worker_report (ws_heap t) (ws_worker t)), t)) = Inr (Some (tagged t), Py_Worker t)"
  by (simp add: then_tag_def tag_status_report tagged_def)

lemma blueprint_decode_fresh:
  assumes "pyoneer_blueprint_decode True a (Py_Worker s) (Some req) = Inr (Some b, p)"
  shows "\<exists>j. job_fresh j \<and> b = \<lparr>bp_kind = BLUEPRINT_JOB, bp_job = a\<rparr> \<and> p = Py_Worker (s\<lparr>ws_heap := (ws_heap s)(a \<mapsto> j)\<rparr>)"
  using assms
  by (auto simp: pyoneer_blueprint_decode_def blueprint_decode_def dest!: job_decode_fresh
      split: option.splits if_splits)

text \<open>
  \<^verbatim>\<open>pyoneer_create\<close> reports success although there is no worker: with
  identifier 1, which the interface allows, the worker is a null pointer, and as manager the
  object is not initialised. In both cases every command and every signal is a fault.
\<close>

theorem pyoneer_create_without_worker:
  assumes "pyoneer_create True wok eok merr s role i = Some p"
    and "role \<noteq> PYONEER_WORKER \<or> sint i \<le> 1"
  shows "p \<in> {Py_Uninit, Py_Null_Worker} \<and>
    (\<exists>f. pyoneer_worker_get_status env p = Inl f \<and> pyoneer_run_job env p b = Inl f \<and> pyoneer_assign_job env p b = Inl f \<and>
       pyoneer_worker_restart env p = Inl f \<and> pyoneer_worker_start env p = Inl f \<and> pyoneer_worker_stop env p = Inl f)"
proof -
  have "p = Py_Uninit \<or> p = Py_Null_Worker"
    using assms by (auto simp: pyoneer_create_def worker_create_def split: if_splits)
  then show ?thesis
    by (auto simp: pyoneer_worker_get_status_def pyoneer_run_job_def pyoneer_assign_job_def pyoneer_worker_restart_def
        pyoneer_worker_start_def pyoneer_worker_stop_def with_worker_def)
qed

theorem pyoneer_create_without_worker_witness:
  "pyoneer_create True True True 0 (Some site_example) PYONEER_WORKER 1 = Some Py_Null_Worker \<and>
   (\<exists>f. pyoneer_worker_get_status (env_ok 4) Py_Null_Worker = Inl f)"
proof -
  have created: "pyoneer_create True True True 0 (Some site_example) PYONEER_WORKER 1 = Some Py_Null_Worker"
    by (simp add: pyoneer_create_def worker_create_def)
  from pyoneer_create_without_worker [OF this, of "env_ok 4"] created show ?thesis by auto
qed

end
