(* ===== verification/Main_Config.thy ===== *)
theory Main_Config
  imports Logger Server Pyoneer
begin

text \<open>
  The program's entry (\<^verbatim>\<open>main.c\<close>): the command line, the environment variables, the
  order in which the parts are created and the clean-up, composed from the definitions of
  the parts. \<^verbatim>\<open>getenv\<close> and the results of the system calls are arguments.
\<close>

section \<open>Strings and numbers\<close>

definition starts_with :: "string \<Rightarrow> string \<Rightarrow> bool" where
  "starts_with s pre \<longleftrightarrow> strlen s \<ge> strlen pre \<and> take (strlen pre) s = c_str pre"

definition after_prefix :: "string \<Rightarrow> string \<Rightarrow> string" where
  "after_prefix s pre = drop (strlen pre) s"

text \<open>
  \<^verbatim>\<open>strtol\<close> for base 10: leading white space, an optional sign, as many digits as
  there are, saturating at the bounds of a 64-bit \<^verbatim>\<open>long\<close>.
\<close>

definition is_space :: "char \<Rightarrow> bool" where
  "is_space c \<longleftrightarrow> c \<in> {CHR '' '', CHR 0x09, CHR 0x0A, CHR 0x0B, CHR 0x0C, CHR 0x0D}"

definition clamp_long :: "int \<Rightarrow> int" where
  "clamp_long i = max (- (2 ^ 63)) (min (2 ^ 63 - 1) i)"

definition strtol10 :: "string \<Rightarrow> int" where
  "strtol10 s =
     (let s = dropWhile is_space s;
          neg = (s \<noteq> [] \<and> hd s = CHR ''-'');
          s = (if s \<noteq> [] \<and> (hd s = CHR ''-'' \<or> hd s = CHR ''+'') then tl s else s);
          n = int (digits_val (takeWhile is_digit s))
      in clamp_long (if neg then - n else n))"

section \<open>The command line\<close>

record app_config =
  ac_id :: c_int
  ac_role :: int
  ac_level :: int
  ac_name :: string
  ac_tcp_host :: string
  ac_tcp_port :: string
  ac_unix_path :: "string option"
  ac_backlog :: int
  ac_nworkers :: nat
  ac_queue_capacity :: nat

text \<open>One argument: the changed configuration, or nothing where the source returns -1.\<close>

definition parse_flag :: "app_config \<Rightarrow> string \<Rightarrow> app_config option" where
  "parse_flag cfg arg =
     (if \<not> starts_with arg ''--'' then None
      else
        let a = after_prefix arg ''--''
        in if streq a ''debug'' then Some (cfg\<lparr>ac_level := LOGGER_DEBUG\<rparr>)
           else if starts_with a ''id='' then Some (cfg\<lparr>ac_id := word_of_int (strtol10 (after_prefix a ''id=''))\<rparr>)
           else if starts_with a ''port='' then Some (cfg\<lparr>ac_tcp_port := after_prefix a ''port=''\<rparr>)
           else if starts_with a ''host='' then Some (cfg\<lparr>ac_tcp_host := after_prefix a ''host=''\<rparr>)
           else if starts_with a ''unix='' then Some (cfg\<lparr>ac_unix_path := Some (after_prefix a ''unix='')\<rparr>)
           else if starts_with a ''role='' then
             (let v = after_prefix a ''role=''
              in if streq v ''manager'' then Some (cfg\<lparr>ac_role := PYONEER_MANAGER, ac_name := ''manager''\<rparr>)
                 else if streq v ''worker'' then Some (cfg\<lparr>ac_role := PYONEER_WORKER, ac_name := ''worker''\<rparr>)
                 else None)
           else None)"

fun parse_args :: "string list \<Rightarrow> app_config \<Rightarrow> app_config option" where
  "parse_args [] cfg = Some cfg"
| "parse_args (a # as) cfg = (case parse_flag cfg a of None \<Rightarrow> None | Some cfg' \<Rightarrow> parse_args as cfg')"

definition parse_flags :: "string list \<Rightarrow> app_config \<Rightarrow> app_config option" where
  "parse_flags args cfg =
     (case parse_args args cfg of
        None \<Rightarrow> None
      | Some cfg \<Rightarrow> if ac_role cfg < 0 then None else if ac_id cfg = 0 then None else Some cfg)"

definition env_or_default :: "(string \<Rightarrow> string option) \<Rightarrow> string \<Rightarrow> string \<Rightarrow> string" where
  "env_or_default getenv key def = (case getenv key of None \<Rightarrow> def | Some v \<Rightarrow> v)"

definition initial_config :: "(string \<Rightarrow> string option) \<Rightarrow> app_config" where
  "initial_config getenv =
     \<lparr>ac_id = 0, ac_role = - 1, ac_level = LOGGER_INFO, ac_name = ''pyoneer'', ac_tcp_host = ''0.0.0.0'',
      ac_tcp_port = env_or_default getenv ''PYONEER_PORT'' ''8080'', ac_unix_path = getenv ''PYONEER_SOCKET_PATH'',
      ac_backlog = 256, ac_nworkers = 8, ac_queue_capacity = 128\<rparr>"

section \<open>Starting up and cleaning up\<close>

text \<open>The endpoints: TCP always, UNIX when a nonempty path is configured.\<close>

definition main_endpoints :: "app_config \<Rightarrow> server_endpoint list" where
  "main_endpoints cfg =
     \<lparr>ep_type = EP_TCP, ep_host = Some (ac_tcp_host cfg), ep_port = Some (ac_tcp_port cfg), ep_path = None,
      ep_backlog = ac_backlog cfg\<rparr> #
     (case ac_unix_path cfg of
        None \<Rightarrow> []
      | Some p \<Rightarrow>
          if c_str p = [] then []
          else [\<lparr>ep_type = EP_UNIX, ep_host = None, ep_port = None, ep_path = Some p, ep_backlog = ac_backlog cfg\<rparr>])"

section \<open>Signals\<close>

text \<open>
  The actions installed, by signal number (SIGINT 2, SIGPIPE 13, SIGTERM 15), and the
  global server pointer the handler uses. The result of \<^verbatim>\<open>sigaction\<close> is an argument.
\<close>

datatype sig_action = Act_Ignore | Act_On_Term

record sig_state =
  sg_server :: "server option"
  sg_action :: "nat \<rightharpoonup> sig_action"

definition policy_init :: "(nat \<Rightarrow> int) \<Rightarrow> server option \<Rightarrow> sig_state \<Rightarrow> int \<times> sig_state" where
  "policy_init sigaction server g =
     (if server = None then (- 1, g)
      else
        let g = g\<lparr>sg_server := server\<rparr>
        in if sigaction 13 \<noteq> 0 then (- 1, g)
           else
             let g = g\<lparr>sg_action := (sg_action g)(13 \<mapsto> Act_Ignore)\<rparr>
             in if sigaction 2 \<noteq> 0 then (- 1, g)
                else
                  let g = g\<lparr>sg_action := (sg_action g)(2 \<mapsto> Act_On_Term)\<rparr>
                  in if sigaction 15 \<noteq> 0 then (- 1, g)
                     else (0, g\<lparr>sg_action := (sg_action g)(15 \<mapsto> Act_On_Term)\<rparr>))"

definition on_term :: "sig_state \<Rightarrow> sig_state" where
  "on_term g = (if sg_server g = None then g else g\<lparr>sg_server := server_stop (sg_server g)\<rparr>)"

section \<open>The program\<close>

text \<open>
  What surrounds the program: environment variables, allocations, system calls, the
  events the accept loop sees, what the handled connections do to the facade, and what the
  shutdown of the worker meets.
\<close>

record main_env =
  me_getenv :: "string \<Rightarrow> string option"
  me_site_malloc :: bool
  me_logger_malloc :: bool
  me_logger_mutex :: int
  me_pyoneer_malloc :: bool
  me_worker_malloc :: bool
  me_engine_malloc :: bool
  me_worker_mutex :: int
  me_server_malloc :: bool
  me_listeners_calloc :: bool
  me_os :: "server_endpoint \<Rightarrow> os_answer"
  me_pool :: "nat \<Rightarrow> nat \<Rightarrow> pool_result"
  me_sigaction :: "nat \<Rightarrow> int"
  me_pollfds_calloc :: bool
  me_rounds :: "(bool \<times> poll_result) list"
  me_served :: "pyoneer \<Rightarrow> pyoneer"
  me_op :: op_env
  me_fds :: "int set"

text \<open>
  The exit code, the descriptors still open, the socket paths unlinked and the blocks of the
  site and the logger that are still allocated.
\<close>

type_synonym main_result = "(int \<times> int set \<times> string list \<times> block list) cres"

definition cleanup ::
  "op_env \<Rightarrow> int \<Rightarrow> server option \<Rightarrow> pyoneer option \<Rightarrow> logger option \<Rightarrow> site option \<Rightarrow> int set \<Rightarrow> block list
   \<Rightarrow> main_result" where
  "cleanup op rc server pyoneer logger site fds live =
     (case server_destroy server fds of
        Inl f \<Rightarrow> Inl f
      | Inr (fds, paths) \<Rightarrow>
          (case pyoneer_destroy op pyoneer of
             Inl f \<Rightarrow> Inl f
           | Inr _ \<Rightarrow>
               (case logger_destroy logger live of
                  Inl f \<Rightarrow> Inl f
                | Inr live \<Rightarrow>
                    (case site_destroy site live of Inl f \<Rightarrow> Inl f | Inr live \<Rightarrow> Inr (rc, fds, paths, live)))))"

definition main_config :: "main_env \<Rightarrow> app_config \<Rightarrow> string \<Rightarrow> server_config" where
  "main_config me cfg token =
     \<lparr>sc_endpoints = Some (map (\<lambda>ep. (ep, me_os me ep)) (main_endpoints cfg)), sc_token = Some token,
      sc_nworkers = ac_nworkers cfg, sc_queue_capacity = ac_queue_capacity cfg\<rparr>"

text \<open>From the created server on; no result means that the accept loop is still running.\<close>

definition main_serve ::
  "main_env \<Rightarrow> pyoneer \<Rightarrow> server \<Rightarrow> logger option \<Rightarrow> site option \<Rightarrow> int set \<Rightarrow> block list \<Rightarrow> main_result option" where
  "main_serve me p sv lg s fds live =
     (if fst (policy_init (me_sigaction me) (Some sv) \<lparr>sg_server = None, sg_action = Map.empty\<rparr>) \<noteq> 0
      then Some (cleanup (me_op me) 1 (Some sv) (Some p) lg s fds live)
      else
        (case fst (server_run (me_pollfds_calloc me) (Some sv) (me_rounds me)) of
           None \<Rightarrow> None
         | Some r \<Rightarrow> Some (cleanup (me_op me) (if r \<noteq> 0 then 1 else 0) (Some sv) (Some (me_served me p)) lg s fds live)))"

text \<open>From the parsed command line on, in the order of the source.\<close>

definition main_parts :: "main_env \<Rightarrow> app_config \<Rightarrow> main_result option" where
  "main_parts me cfg =
     (let getenv = me_getenv me;
          (s, live) = (if ac_role cfg = PYONEER_WORKER
               then site_create (me_site_malloc me) (getenv ''PYONEER_PYTHON'') (getenv ''PYONEER_TASK_DIR'')
                      (getenv ''PYONEER_WORKING_DIR'') []
               else (None, []))
      in if ac_role cfg = PYONEER_WORKER \<and> s = None then Some (cleanup (me_op me) 1 None None None s (me_fds me) live)
         else
           (case logger_create (me_logger_malloc me) (me_logger_mutex me) (ac_level cfg) (ac_name cfg) live of
              Inl f \<Rightarrow> Some (Inl f)
            | Inr (None, live) \<Rightarrow> Some (cleanup (me_op me) 1 None None None s (me_fds me) live)
            | Inr (Some lg, live) \<Rightarrow>
                (case pyoneer_create (me_pyoneer_malloc me) (me_worker_malloc me) (me_engine_malloc me) (me_worker_mutex me) s
                        (ac_role cfg) (ac_id cfg) of
                   None \<Rightarrow> Some (cleanup (me_op me) 1 None None (Some lg) s (me_fds me) live)
                 | Some p \<Rightarrow>
                     (case getenv ''PYONEER_API_TOKEN'' of
                        None \<Rightarrow> Some (cleanup (me_op me) 1 None (Some p) (Some lg) s (me_fds me) live)
                      | Some token \<Rightarrow>
                          (case server_create True True (me_server_malloc me) (me_listeners_calloc me) (me_pool me)
                                  (Some (main_config me cfg token)) (me_fds me) of
                             Inl f \<Rightarrow> Some (Inl f)
                           | Inr (None, fds) \<Rightarrow> Some (cleanup (me_op me) 1 None (Some p) (Some lg) s fds live)
                           | Inr (Some sv, fds) \<Rightarrow> main_serve me p sv (Some lg) s fds live)))))"

definition pyoneer_main :: "main_env \<Rightarrow> string list \<Rightarrow> main_result option" where
  "pyoneer_main me argv =
     (if length argv < 2 then Some (Inr (1, me_fds me, [], []))
      else
        (case parse_flags (tl argv) (initial_config (me_getenv me)) of
           None \<Rightarrow> Some (Inr (1, me_fds me, [], []))
         | Some cfg \<Rightarrow> main_parts me cfg))"

section \<open>The configuration the program runs with\<close>

text \<open>What every flag keeps of a configuration that starts from the defaults.\<close>

definition config_ok :: "app_config \<Rightarrow> bool" where
  "config_ok cfg \<longleftrightarrow>
     (ac_role cfg, ac_name cfg) \<in> {(- 1, ''pyoneer''), (PYONEER_WORKER, ''worker''), (PYONEER_MANAGER, ''manager'')} \<and>
     ac_level cfg \<in> {LOGGER_DEBUG, LOGGER_INFO} \<and> ac_nworkers cfg = 8 \<and> ac_queue_capacity cfg = 128 \<and> ac_backlog cfg = 256"

lemma initial_config_ok: "config_ok (initial_config getenv)"
  by (simp add: config_ok_def initial_config_def)

lemma parse_flag_cases:
  assumes "parse_flag cfg arg = Some cfg'"
  obtains "cfg' = cfg\<lparr>ac_level := LOGGER_DEBUG\<rparr>"
  | i where "cfg' = cfg\<lparr>ac_id := i\<rparr>"
  | v where "cfg' = cfg\<lparr>ac_tcp_port := v\<rparr>"
  | v where "cfg' = cfg\<lparr>ac_tcp_host := v\<rparr>"
  | v where "cfg' = cfg\<lparr>ac_unix_path := Some v\<rparr>"
  | "cfg' = cfg\<lparr>ac_role := PYONEER_MANAGER, ac_name := ''manager''\<rparr>"
  | "cfg' = cfg\<lparr>ac_role := PYONEER_WORKER, ac_name := ''worker''\<rparr>"
  using assms unfolding parse_flag_def Let_def
  by (simp only: if_True if_False option.inject split: if_split_asm) (blast dest: sym | simp only: option.distinct)+

lemma parse_flag_ok: "config_ok cfg \<Longrightarrow> parse_flag cfg arg = Some cfg' \<Longrightarrow> config_ok cfg'"
  by (erule parse_flag_cases) (simp_all add: config_ok_def)

lemma parse_args_ok: "config_ok cfg \<Longrightarrow> parse_args args cfg = Some cfg' \<Longrightarrow> config_ok cfg'"
  by (induction args cfg rule: parse_args.induct) (auto split: option.splits dest: parse_flag_ok)

lemma is_digit_not: "is_digit c \<Longrightarrow> \<not> is_space c \<and> c \<noteq> CHR ''-'' \<and> c \<noteq> CHR ''+'' \<and> c \<noteq> NUL"
  by (auto simp: is_digit_def is_space_def)

lemma strtol10_dec: "strtol10 (dec_digits n) = min (2 ^ 63 - 1) (int n)"
proof -
  obtain c s where cs: "dec_digits n = c # s" using dec_digits_read [of n] by (cases "dec_digits n") auto
  have digits: "digits_val (c # s) = n" "\<forall>x \<in> set (c # s). is_digit x" using dec_digits_read [of n] cs by auto
  then have "takeWhile is_digit (c # s) = c # s" "dropWhile is_space (c # s) = c # s" "c \<noteq> CHR ''-''" "c \<noteq> CHR ''+''"
    using is_digit_not [of c] by (simp_all only: takeWhile_eq_all_conv) simp_all
  then have "strtol10 (c # s) = clamp_long (int n)" using digits(1) unfolding strtol10_def Let_def by simp
  then show ?thesis unfolding cs by (simp add: clamp_long_def)
qed

lemma c_str_dec: "c_str (dec_digits n) = dec_digits n"
  using dec_digits_read [of n] is_digit_not by (intro c_str_id) (auto simp: nul_free_def)



section \<open>Leaving the program\<close>

lemma pyoneer_destroy_uninit: "pyoneer_destroy op (Some Py_Uninit) = Inl Uninit_Read"
  by (simp add: pyoneer_destroy_def)

text \<open>The blocks of a logger and a site that are live between their creation and the clean-up.\<close>

definition held :: "logger option \<Rightarrow> site option \<Rightarrow> block list" where
  "held lg s =
     (if lg = None then [] else [Logger_Mutex, Logger_Name, Logger_Struct]) @
     (if s = None then [] else [Site_Working_Dir, Site_Task_Dir, Site_Python, Site_Struct])"

lemma site_create_held: "site_create ok py td wd [] = (s, live) \<Longrightarrow> live = held None s"
  by (auto simp: site_create_def held_def split: option.splits if_splits)

lemma logger_create_held:
  "logger_create ok err level name (held None s) = Inr (lg, live) \<Longrightarrow> live = held lg s"
  by (auto simp: logger_create_def held_def split: if_splits)

lemma destroy_held:
  "logger_destroy lg (held lg s) = Inr (held None s)" "site_destroy s (held None s) = Inr []"
  by (auto simp: logger_destroy_def site_destroy_def held_def split: option.split)

lemma cleanup_fds:
  "cleanup op rc sv p lg s fds (held lg s) = Inr (rc', fds', paths, live)
   \<Longrightarrow> rc' = rc \<and> live = [] \<and> server_destroy sv fds = Inr (fds', paths)"
  by (auto simp: cleanup_def destroy_held split: sum.splits)

lemma server_create_fds:
  assumes "server_create a b c d mk cfg fds = Inr (r, fds')"
  shows "(r = None \<longrightarrow> fds' \<subseteq> fds) \<and> (\<forall>sv x paths. r = Some sv \<and> server_destroy r fds' = Inr (x, paths) \<longrightarrow> x \<subseteq> fds)"
proof -
  have leak: "fst (server_listeners_destroy ls fds') \<subseteq> fds" if "server_listeners_init d eps fds = (rc, ls, fds')" for eps rc ls fds'
    using server_listeners_fds [OF that] by blast
  show ?thesis
    using assms
    by (auto simp: server_create_def server_destroy_def Let_def dest!: leak split: option.splits if_splits prod.splits pool_result.splits)
qed

lemma main_serve_exit:
  assumes "main_serve me p sv lg s fds (held lg s) = Some (Inr (rc, fds', paths, live))"
  shows "\<exists>x. server_destroy (Some sv) fds = Inr (fds', x) \<and> live = [] \<and> rc \<in> {0, 1} \<and>
    (rc = 0 \<longrightarrow> me_pollfds_calloc me \<and> (\<exists>r \<in> set (me_rounds me). fst r \<or> snd r = Poll_Error))"
  using assms server_run_ends [of "me_pollfds_calloc me" sv "me_rounds me"]
  by (auto simp: main_serve_def dest!: cleanup_fds split: if_splits option.splits)

text \<open>How the program may end.\<close>

definition exit_ok :: "main_env \<Rightarrow> int \<Rightarrow> int set \<Rightarrow> block list \<Rightarrow> bool" where
  "exit_ok me rc fds live \<longleftrightarrow>
     fds \<subseteq> me_fds me \<and> live = [] \<and> rc \<in> {0, 1} \<and>
     (rc = 0 \<longrightarrow> me_getenv me ''PYONEER_API_TOKEN'' \<noteq> None \<and> (\<exists>r \<in> set (me_rounds me). fst r \<or> snd r = Poll_Error))"

lemma early_exit:
  "cleanup op 1 None q lg s fds0 (held lg s) = Inr (rc, fds, paths, live) \<Longrightarrow> fds0 \<subseteq> me_fds me
   \<Longrightarrow> exit_ok me rc fds live"
  by (drule cleanup_fds) (auto simp: server_destroy_def exit_ok_def)

lemma served_exit:
  assumes "server_create True True mal cal mk sc (me_fds me) = Inr (Some sv, fds1)"
    and "main_serve me p sv lg s fds1 (held lg s) = Some (Inr (rc, fds, paths, live))"
    and "me_getenv me ''PYONEER_API_TOKEN'' = Some t"
  shows "exit_ok me rc fds live"
  using server_create_fds [OF assms(1)] main_serve_exit [OF assms(2)] assms(3) by (auto simp: exit_ok_def)

lemma main_parts_exit:
  assumes "main_parts me cfg = Some (Inr (rc, fds, paths, live))"
  shows "exit_ok me rc fds live"
proof -
  obtain s live0 where s: "(s, live0) = (if ac_role cfg = PYONEER_WORKER
      then site_create (me_site_malloc me) (me_getenv me ''PYONEER_PYTHON'') (me_getenv me ''PYONEER_TASK_DIR'')
             (me_getenv me ''PYONEER_WORKING_DIR'') []
      else (None, []))"
    by (metis surj_pair)
  then have live0: "live0 = held None s"
    by (cases "ac_role cfg = PYONEER_WORKER") (simp_all add: site_create_held [OF sym], simp add: held_def)
  have none: "held None None = []" by (simp add: held_def)
  show ?thesis
  proof (cases "ac_role cfg = PYONEER_WORKER \<and> s = None")
    case True
    with assms s live0 none have "cleanup (me_op me) 1 None None None None (me_fds me) (held None None) = Inr (rc, fds, paths, live)"
      by (auto simp: main_parts_def Let_def split: prod.splits)
    then show ?thesis by (rule early_exit) simp
  next
    case False
    obtain r where r: "logger_create (me_logger_malloc me) (me_logger_mutex me) (ac_level cfg) (ac_name cfg) (held None s) = r"
      by simp
    from assms s live0 False r have m: "(case r of Inl f \<Rightarrow> Some (Inl f)
            | Inr (None, live) \<Rightarrow> Some (cleanup (me_op me) 1 None None None s (me_fds me) live)
            | Inr (Some lg, live) \<Rightarrow>
                (case pyoneer_create (me_pyoneer_malloc me) (me_worker_malloc me) (me_engine_malloc me) (me_worker_mutex me) s
                        (ac_role cfg) (ac_id cfg) of
                   None \<Rightarrow> Some (cleanup (me_op me) 1 None None (Some lg) s (me_fds me) live)
                 | Some p \<Rightarrow>
                     (case me_getenv me ''PYONEER_API_TOKEN'' of
                        None \<Rightarrow> Some (cleanup (me_op me) 1 None (Some p) (Some lg) s (me_fds me) live)
                      | Some token \<Rightarrow>
                          (case server_create True True (me_server_malloc me) (me_listeners_calloc me) (me_pool me)
                                  (Some (main_config me cfg token)) (me_fds me) of
                             Inl f \<Rightarrow> Some (Inl f)
                           | Inr (None, fds) \<Rightarrow> Some (cleanup (me_op me) 1 None (Some p) (Some lg) s fds live)
                           | Inr (Some sv, fds) \<Rightarrow> main_serve me p sv (Some lg) s fds live))))
        = Some (Inr (rc, fds, paths, live))"
      unfolding main_parts_def Let_def s [symmetric] by simp
    obtain lg live1 where r1: "r = Inr (lg, live1)" using m by (cases r) auto
    then have live1: "live1 = held lg s" using r logger_create_held by blast
    show ?thesis
      using m unfolding r1 live1
      by (auto split: option.splits sum.splits intro: early_exit)
        (use server_create_fds in \<open>blast intro: early_exit served_exit\<close>)+
  qed
qed


text \<open>
  The program cannot be run as manager: if the logger and the facade can be
  allocated, every run that ends does so by reading the uninitialised facade.
\<close>

theorem manager_always_faults:
  assumes "parse_flags (tl argv) (initial_config (me_getenv me)) = Some cfg" and "ac_role cfg = PYONEER_MANAGER" and "2 \<le> length argv"
    and "me_logger_malloc me" and "me_logger_mutex me = 0" and "me_pyoneer_malloc me"
    and "me_served me Py_Uninit = Py_Uninit"
    and "pyoneer_main me argv = Some r"
  shows "r = Inl Uninit_Read"
proof -
  have clean: "cleanup op rc sv (Some Py_Uninit) lg s fds live = Inl Uninit_Read" for op rc sv lg s fds live
    by (auto simp: cleanup_def pyoneer_destroy_def server_destroy_def split: sum.split option.split)
  have created: "server_create a b c d mk sc fds = Inl f \<Longrightarrow> f = Uninit_Read" for a b c d mk sc fds f
    by (auto simp: server_create_def server_destroy_def Let_def split: option.splits if_splits prod.splits pool_result.splits)
  have serve: "main_serve me Py_Uninit sv lg s fds live = Some r \<Longrightarrow> r = Inl Uninit_Read" for sv lg s fds live
    using assms(7) by (auto simp: main_serve_def clean split: if_splits option.splits)
  have "main_parts me cfg = Some r" using assms(1,3,8) by (simp add: pyoneer_main_def)
  then show ?thesis
    using assms(2,4-6)
    by (auto simp: main_parts_def Let_def logger_create_def pyoneer_create_def clean
        dest: created serve split: option.splits sum.splits if_splits)
qed

section \<open>Concrete runs\<close>

definition getenv_example :: "string \<Rightarrow> string option" where
  "getenv_example =
     [''PYONEER_PYTHON'' \<mapsto> ''/usr/bin/python3'', ''PYONEER_TASK_DIR'' \<mapsto> ''/srv/tasks'',
      ''PYONEER_WORKING_DIR'' \<mapsto> ''/srv'', ''PYONEER_API_TOKEN'' \<mapsto> ''secret'']"

definition main_env_example :: main_env where
  "main_env_example =
     \<lparr>me_getenv = getenv_example, me_site_malloc = True, me_logger_malloc = True, me_logger_mutex = 0,
      me_pyoneer_malloc = True, me_worker_malloc = True, me_engine_malloc = True, me_worker_mutex = 0,
      me_server_malloc = True, me_listeners_calloc = True,
      me_os = (\<lambda>ep. Os_Tcp (Some [\<lparr>sc_socket = 5, sc_bind = 0, sc_listen = 0\<rparr>])),
      me_pool = (\<lambda>n q. thread_pool_create True True True (\<lambda>_. 0) n q True 1),
      me_sigaction = (\<lambda>_. 0), me_pollfds_calloc = True, me_rounds = [(False, Poll_Timeout), (True, Poll_Timeout)],
      me_served = id, me_op = env_ok 4, me_fds = {0, 1, 2}\<rparr>"

lemma flags_example:
  "parse_flags [''--role=worker'', ''--id=2''] (initial_config getenv_example) =
     Some ((initial_config getenv_example)\<lparr>ac_id := 2, ac_role := PYONEER_WORKER, ac_name := ''worker''\<rparr>)"
  "parse_flags [''--role=manager'', ''--id=2''] (initial_config getenv_example) =
     Some ((initial_config getenv_example)\<lparr>ac_id := 2, ac_role := PYONEER_MANAGER, ac_name := ''manager''\<rparr>)"
  by (simp_all add: parse_flags_def parse_flag_def starts_with_def after_prefix_def strlen_def streq_def strtol10_def
      is_space_def is_digit_def digits_val_def digit_val_def clamp_long_def initial_config_def)

lemma getenv_example_simps:
  "getenv_example ''PYONEER_PYTHON'' = Some ''/usr/bin/python3''" "getenv_example ''PYONEER_TASK_DIR'' = Some ''/srv/tasks''"
  "getenv_example ''PYONEER_WORKING_DIR'' = Some ''/srv''" "getenv_example ''PYONEER_API_TOKEN'' = Some ''secret''"
  "getenv_example ''PYONEER_SOCKET_PATH'' = None" "getenv_example ''PYONEER_PORT'' = None"
  by (simp_all add: getenv_example_def)

lemma serve_example:
  "\<exists>p. server_create True True True True (me_pool main_env_example)
     (Some (main_config main_env_example ((initial_config getenv_example)\<lparr>ac_id := 2, ac_role := r, ac_name := nm\<rparr>) ''secret'')) {0, 1, 2} =
   Inr (Some p, {5, 0, 1, 2}) \<and> sv_listeners p \<noteq> None \<and> (\<exists>q. sv_pool p = Pool_At q) \<and> map l_fd (the (sv_listeners p)) = [5] \<and>
   unlinked_paths (the (sv_listeners p)) = []"
  by (simp add: server_create_def main_config_def main_endpoints_def initial_config_def server_listeners_init_def open_listener_def
      make_tcp_listener_def main_env_example_def thread_pool_create_def Let_def getenv_example_simps unlinked_paths_def
      iffD2 [OF first_create_error_None] env_or_default_def)

lemma main_env_example_simps:
  "me_getenv main_env_example = getenv_example" "me_site_malloc main_env_example" "me_logger_malloc main_env_example"
  "me_logger_mutex main_env_example = 0" "me_pyoneer_malloc main_env_example" "me_worker_malloc main_env_example"
  "me_engine_malloc main_env_example" "me_worker_mutex main_env_example = 0" "me_server_malloc main_env_example"
  "me_listeners_calloc main_env_example" "me_sigaction main_env_example s = 0" "me_pollfds_calloc main_env_example"
  "me_rounds main_env_example = [(False, Poll_Timeout), (True, Poll_Timeout)]" "me_served main_env_example q = q"
  "me_fds main_env_example = {0, 1, 2}"
  by (simp_all add: main_env_example_def)


theorem manager_always_faults_witness:
  "pyoneer_main main_env_example [''pyoneer'', ''--role=manager'', ''--id=2''] = Some (Inl Uninit_Read)"
proof -
  have "\<exists>r. pyoneer_main main_env_example [''pyoneer'', ''--role=manager'', ''--id=2''] = Some r"
    using serve_example [where r = 1 and nm = "''manager''"]
    by (auto simp: pyoneer_main_def flags_example main_parts_def main_env_example_simps getenv_example_simps
        logger_create_def pyoneer_create_def main_serve_def policy_init_def server_run_ends Let_def)
  then obtain r where "pyoneer_main main_env_example [''pyoneer'', ''--role=manager'', ''--id=2''] = Some r" by blast
  with manager_always_faults [of "[''pyoneer'', ''--role=manager'', ''--id=2'']" main_env_example, OF _ _ _ _ _ _ _ this]
  show ?thesis by (simp add: flags_example main_env_example_simps)
qed

end
