(* ===== verification/Json_Parse.thy ===== *)
theory Json_Parse
  imports Json_Value
begin

unbundle bit_operations_syntax

text \<open>
  The parser \<^verbatim>\<open>json_parse_ex\<close> of \<^verbatim>\<open>shared/json.c\<close>. It reads the text twice
  with the same loop over characters and flags: the first pass creates the values and
  counts the bytes, elements and entries they need, the second allocates exactly that much
  and fills it. The model keeps the values of both passes in one store in the order of
  their creation, so that a write beyond what the first pass counted is a fault.
\<close>

section \<open>Settings, errors and values under construction\<close>

text \<open>
  \<^verbatim>\<open>json_settings\<close>: the limit on memory (0 for none), whether comments are allowed,
  the extra space per value, and the allocator, which says for its n-th call and the size
  asked for whether it succeeds.
\<close>

record json_settings =
  js_max_memory :: nat
  js_comments :: bool
  js_value_extra :: nat
  js_mem_alloc :: "nat \<Rightarrow> nat \<Rightarrow> bool"

text \<open>One constructor per message of the source, with the character it mentions.\<close>

datatype parse_error =
    E_String_EOF
  | E_Invalid_Char char
  | E_Block_Comment_EOF
  | E_Comment_Not_Allowed
  | E_EOF
  | E_Comment_Opening char
  | E_Trailing char
  | E_Unexpected_Bracket
  | E_Expected_Comma char
  | E_Expected_Colon char
  | E_Seeking_Value char
  | E_Expected_Comma_Quote
  | E_In_Object char
  | E_Zero_Before char
  | E_Digit_Before_Dot
  | E_Digit_After_Dot
  | E_Digit_After_E
  | E_Unknown_Value
  | E_Alloc
  | E_Overflow

datatype jtype = T_Object | T_Array | T_Integer | T_Double | T_String | T_Boolean | T_Null

text \<open>
  The union of a value. In the first pass a string has its length, an array its number of
  elements, an object its number of entries and the bytes of its names with their
  terminators. In the second pass a string has the length it was allocated for and its
  bytes; an array its capacity and elements; an object its capacity, the bytes for names
  and how many are used, its entries and the name of the entry whose value is still open.
\<close>

datatype payload =
    V_Null
  | V_Boolean int
  | V_Integer json_int
  | V_Double "64 word"
  | V_String nat
  | V_Array nat
  | V_Object nat nat
  | F_String nat string
  | F_Array nat "nat list"
  | F_Object nat nat nat "(string \<times> nat) list" "string option"

fun payload_type :: "payload \<Rightarrow> jtype" where
  "payload_type V_Null = T_Null"
| "payload_type (V_Boolean _) = T_Boolean"
| "payload_type (V_Integer _) = T_Integer"
| "payload_type (V_Double _) = T_Double"
| "payload_type (V_String _) = T_String"
| "payload_type (V_Array _) = T_Array"
| "payload_type (V_Object _ _) = T_Object"
| "payload_type (F_String _ _) = T_String"
| "payload_type (F_Array _ _) = T_Array"
| "payload_type (F_Object _ _ _ _ _) = T_Object"

fun zero_payload :: "jtype \<Rightarrow> payload" where
  "zero_payload T_Object = V_Object 0 0"
| "zero_payload T_Array = V_Array 0"
| "zero_payload T_Integer = V_Integer 0"
| "zero_payload T_Double = V_Double 0"
| "zero_payload T_String = V_String 0"
| "zero_payload T_Boolean = V_Boolean 0"
| "zero_payload T_Null = V_Null"

record node =
  nd_parent :: "nat option"
  nd_val :: payload

text \<open>
  The values in the order of creation (\<^verbatim>\<open>next_alloc\<close> of a value is the next one),
  the pointers \<^verbatim>\<open>top\<close>, \<^verbatim>\<open>root\<close> and \<^verbatim>\<open>alloc\<close>, the string being
  read with the number of bytes that may be written at \<^verbatim>\<open>string\<close>, and the memory
  used so far.
\<close>

record pheap =
  h_nodes :: "node list"
  h_top :: "nat option"
  h_root :: "nat option"
  h_alloc :: "nat option"
  h_room :: nat
  h_buf :: string
  h_strlen :: nat
  h_used :: nat
  h_calls :: nat

text \<open>
  How a pass stops early: with a message, the line it reports and the store the clean-up
  starts from, or with a fault.
\<close>

datatype pstop = P_Error nat parse_error pheap | P_Fault fault

type_synonym 'a pres = "pstop + 'a"

definition top_type :: "pheap \<Rightarrow> jtype option" where
  "top_type h = map_option (\<lambda>i. payload_type (nd_val (h_nodes h ! i))) (h_top h)"

definition top_parent :: "pheap \<Rightarrow> nat option" where
  "top_parent h = (case h_top h of None \<Rightarrow> None | Some i \<Rightarrow> nd_parent (h_nodes h ! i))"

definition parent_type :: "pheap \<Rightarrow> jtype option" where
  "parent_type h = map_option (\<lambda>i. payload_type (nd_val (h_nodes h ! i))) (top_parent h)"

definition set_node :: "nat \<Rightarrow> payload \<Rightarrow> pheap \<Rightarrow> pheap" where
  "set_node i v h = h\<lparr>h_nodes := (h_nodes h)[i := (h_nodes h ! i)\<lparr>nd_val := v\<rparr>]\<rparr>"

definition top_val :: "pheap \<Rightarrow> payload" where
  "top_val h = (case h_top h of None \<Rightarrow> V_Null | Some i \<Rightarrow> nd_val (h_nodes h ! i))"

definition set_top :: "payload \<Rightarrow> pheap \<Rightarrow> pheap" where
  "set_top v h = (case h_top h of None \<Rightarrow> h | Some i \<Rightarrow> set_node i v h)"

section \<open>Allocation\<close>

abbreviation (input) ULONG_MAX :: nat where "ULONG_MAX \<equiv> 2 ^ 64 - 1"
abbreviation (input) UINT_MAX :: nat where "UINT_MAX \<equiv> 2 ^ 32 - 1"

text \<open>Sizes of the structures for LP64.\<close>

abbreviation (input) sizeof_value :: nat where "sizeof_value \<equiv> 40"
abbreviation (input) sizeof_pointer :: nat where "sizeof_pointer \<equiv> 8"
abbreviation (input) sizeof_entry :: nat where "sizeof_entry \<equiv> 24"

definition json_alloc :: "json_settings \<Rightarrow> nat \<Rightarrow> pheap \<Rightarrow> bool \<times> pheap" where
  "json_alloc js sz h =
     (if ULONG_MAX - 8 - h_used h < sz then (False, h)
      else
        let h = (if js_max_memory js \<noteq> 0 then h\<lparr>h_used := h_used h + sz\<rparr> else h)
        in if js_max_memory js \<noteq> 0 \<and> h_used h > js_max_memory js then (False, h)
           else (js_mem_alloc js (h_calls h) sz, h\<lparr>h_calls := h_calls h + 1\<rparr>))"

text \<open>
  The left side stands for the result 0. The second pass takes a value once; one whose
  allocation fails keeps its count and has no memory.
\<close>

definition new_value_second :: "json_settings \<Rightarrow> nat \<Rightarrow> pheap \<Rightarrow> pheap + pheap" where
  "new_value_second js a h =
     (let h = h\<lparr>h_top := Some a, h_alloc := (if Suc a < length (h_nodes h) then Some (Suc a) else None),
                h_root := (if h_root h = None then Some a else h_root h)\<rparr>
      in case nd_val (h_nodes h ! a) of
           V_Array n \<Rightarrow>
             if n = 0 then Inr (set_node a (F_Array 0 []) h)
             else (case json_alloc js (n * sizeof_pointer) h of (ok, h) \<Rightarrow>
                     if \<not> ok then Inl h else Inr (set_node a (F_Array n []) h))
         | V_Object n m \<Rightarrow>
             if n = 0 then Inr (set_node a (F_Object 0 0 0 [] None) h)
             else (case json_alloc js (sizeof_entry * n + m) h of (ok, h) \<Rightarrow>
                     if \<not> ok then Inl h else Inr (set_node a (F_Object n m 0 [] None) h))
         | V_String n \<Rightarrow>
             (case json_alloc js (n + 1) h of (ok, h) \<Rightarrow>
                if \<not> ok then Inl h else Inr (set_node a (F_String n []) h))
         | _ \<Rightarrow> Inr h)"

definition new_value_first :: "json_settings \<Rightarrow> jtype \<Rightarrow> pheap \<Rightarrow> pheap + pheap" where
  "new_value_first js t h =
     (case json_alloc js (sizeof_value + js_value_extra js) h of (ok, h) \<Rightarrow>
        if \<not> ok then Inl h
        else
          let i = length (h_nodes h)
          in Inr (h\<lparr>h_nodes := h_nodes h @ [\<lparr>nd_parent = h_top h, nd_val = zero_payload t\<rparr>],
                     h_root := (if h_root h = None then Some i else h_root h),
                     h_alloc := Some i, h_top := Some i\<rparr>))"

definition new_value :: "bool \<Rightarrow> json_settings \<Rightarrow> jtype \<Rightarrow> nat \<Rightarrow> pheap \<Rightarrow> pheap pres" where
  "new_value first_pass js t line h =
     (if \<not> first_pass then
        (case h_alloc h of
           None \<Rightarrow> Inl (P_Fault Null_Deref)
         | Some a \<Rightarrow> (case new_value_second js a h of Inl h \<Rightarrow> Inl (P_Error line E_Alloc h) | Inr h \<Rightarrow> Inr h))
      else (case new_value_first js t h of Inl h \<Rightarrow> Inl (P_Error line E_Alloc h) | Inr h \<Rightarrow> Inr h))"

section \<open>Strings\<close>

text \<open>Where \<^verbatim>\<open>string\<close> points: the buffer of a string, or the rest of the memory for names.\<close>

definition open_string :: "pheap \<Rightarrow> pheap" where
  "open_string h =
     h\<lparr>h_room := (case top_val h of F_String n s \<Rightarrow> n + 1 | _ \<Rightarrow> 0), h_buf := [], h_strlen := 0\<rparr>"

definition open_name :: "pheap \<Rightarrow> pheap" where
  "open_name h =
     h\<lparr>h_room := (case top_val h of F_Object n m u es p \<Rightarrow> m - u | _ \<Rightarrow> 0), h_buf := [], h_strlen := 0\<rparr>"

text \<open>\<^verbatim>\<open>string_add\<close>, for one or several bytes.\<close>

definition string_add :: "bool \<Rightarrow> string \<Rightarrow> pheap \<Rightarrow> pheap pres" where
  "string_add first_pass bs h =
     (if first_pass then Inr (h\<lparr>h_strlen := h_strlen h + length bs\<rparr>)
      else if h_strlen h + length bs > h_room h then Inl (P_Fault Out_Of_Bounds)
      else Inr (h\<lparr>h_buf := h_buf h @ bs, h_strlen := h_strlen h + length bs\<rparr>))"

text \<open>The terminator; then \<^verbatim>\<open>string\<close> is null.\<close>

definition string_close :: "bool \<Rightarrow> pheap \<Rightarrow> pheap pres" where
  "string_close first_pass h =
     (if \<not> first_pass \<and> h_strlen h \<ge> h_room h then Inl (P_Fault Out_Of_Bounds)
      else Inr (h\<lparr>h_room := 0\<rparr>))"

definition end_string :: "pheap \<Rightarrow> pheap" where
  "end_string h =
     (case top_val h of
        F_String n s \<Rightarrow> set_top (F_String n (h_buf h)) h
      | _ \<Rightarrow> set_top (V_String (h_strlen h)) h)"

definition end_name :: "bool \<Rightarrow> pheap \<Rightarrow> pheap pres" where
  "end_name first_pass h =
     (if first_pass then
        (case top_val h of
           V_Object n m \<Rightarrow> Inr (set_top (V_Object n (m + h_strlen h + 1)) h)
         | _ \<Rightarrow> Inr h)
      else
        (case top_val h of
           F_Object n m u es p \<Rightarrow>
             if length es \<ge> n then Inl (P_Fault Out_Of_Bounds)
             else Inr (set_top (F_Object n m (u + h_strlen h + 1) es (Some (h_buf h))) h)
         | _ \<Rightarrow> Inr h))"

definition hex_value :: "char \<Rightarrow> nat" where
  "hex_value c =
     (if is_digit c then digit_val c
      else if c = CHR ''a'' \<or> c = CHR ''A'' then 0x0A
      else if c = CHR ''b'' \<or> c = CHR ''B'' then 0x0B
      else if c = CHR ''c'' \<or> c = CHR ''C'' then 0x0C
      else if c = CHR ''d'' \<or> c = CHR ''D'' then 0x0D
      else if c = CHR ''e'' \<or> c = CHR ''E'' then 0x0E
      else if c = CHR ''f'' \<or> c = CHR ''F'' then 0x0F
      else 0xFF)"

text \<open>The four digits at a position, if they all are hexadecimal.\<close>

definition hex4 :: "string \<Rightarrow> nat \<Rightarrow> nat option" where
  "hex4 text i =
     (let b1 = hex_value (text ! i); b2 = hex_value (text ! (i + 1));
          b3 = hex_value (text ! (i + 2)); b4 = hex_value (text ! (i + 3))
      in if b1 = 0xFF \<or> b2 = 0xFF \<or> b3 = 0xFF \<or> b4 = 0xFF then None
         else Some (push_bit 8 (push_bit 4 b1 OR b2) OR (push_bit 4 b3 OR b4)))"

text \<open>The bytes of a character.\<close>

definition utf8 :: "nat \<Rightarrow> string" where
  "utf8 u =
     (if u \<le> 0x7F then [char_of u]
      else if u \<le> 0x7FF then [char_of (0xC0 OR drop_bit 6 u), char_of (0x80 OR (u AND 0x3F))]
      else if u \<le> 0xFFFF then
        [char_of (0xE0 OR drop_bit 12 u), char_of (0x80 OR (drop_bit 6 u AND 0x3F)), char_of (0x80 OR (u AND 0x3F))]
      else
        [char_of (0xF0 OR drop_bit 18 u), char_of (0x80 OR (drop_bit 12 u AND 0x3F)),
         char_of (0x80 OR (drop_bit 6 u AND 0x3F)), char_of (0x80 OR (u AND 0x3F))])"

text \<open>
  An escape \<^verbatim>\<open>\u\<close> whose letter is at a position: the character and the position of
  its last digit, if the escape is complete.
\<close>

definition unicode_escape :: "string \<Rightarrow> nat \<Rightarrow> (nat \<times> nat) option" where
  "unicode_escape text i =
     (if length text - i \<le> 4 then None
      else
        (case hex4 text (i + 1) of
           None \<Rightarrow> None
         | Some u \<Rightarrow>
             if u AND 0xF800 \<noteq> 0xD800 then Some (u, i + 4)
             else if length text - (i + 4) \<le> 6 \<or> text ! (i + 5) \<noteq> CHR 0x5C \<or> text ! (i + 6) \<noteq> CHR ''u'' then None
             else
               (case hex4 text (i + 7) of
                  None \<Rightarrow> None
                | Some u2 \<Rightarrow> Some (0x010000 OR push_bit 10 (u AND 0x3FF) OR (u2 AND 0x3FF), i + 10))))"

section \<open>Linking a finished value to its parent\<close>

text \<open>
  The store into the parent is done in the second pass only, the count is incremented in
  both; which pass it is shows in the parent's payload.
\<close>

definition link_value :: "nat \<Rightarrow> nat \<Rightarrow> nat \<Rightarrow> pheap \<Rightarrow> pheap pres" where
  "link_value line i p h =
     (case nd_val (h_nodes h ! p) of
        V_Array n \<Rightarrow>
          if n + 1 > UINT_MAX - 8 then Inl (P_Error line E_Overflow (set_node p (V_Array (n + 1)) h))
          else Inr ((set_node p (V_Array (n + 1)) h)\<lparr>h_top := Some p\<rparr>)
      | V_Object n m \<Rightarrow>
          if n + 1 > UINT_MAX - 8 then Inl (P_Error line E_Overflow (set_node p (V_Object (n + 1) m) h))
          else Inr ((set_node p (V_Object (n + 1) m) h)\<lparr>h_top := Some p\<rparr>)
      | F_Array n vs \<Rightarrow>
          if length vs \<ge> n then Inl (P_Fault Out_Of_Bounds)
          else if length vs + 1 > UINT_MAX - 8 then Inl (P_Error line E_Overflow (set_node p (F_Array n (vs @ [i])) h))
          else Inr ((set_node p (F_Array n (vs @ [i])) h)\<lparr>h_top := Some p\<rparr>)
      | F_Object n m u es name \<Rightarrow>
          (case name of
             None \<Rightarrow> Inl (P_Fault Uninit_Read)
           | Some k \<Rightarrow>
               if length es \<ge> n then Inl (P_Fault Out_Of_Bounds)
               else if length es + 1 > UINT_MAX - 8 then Inl (P_Error line E_Overflow (set_node p (F_Object n m u (es @ [(k, i)]) None) h))
               else Inr ((set_node p (F_Object n m u (es @ [(k, i)]) None) h)\<lparr>h_top := Some p\<rparr>))
      | _ \<Rightarrow> Inr (h\<lparr>h_top := Some p\<rparr>))"

section \<open>The loop body\<close>

text \<open>The variable \<^verbatim>\<open>flags\<close>, one field for each bit.\<close>

record pflags =
  fl_next :: bool
  fl_reproc :: bool
  fl_need_comma :: bool
  fl_seek_value :: bool
  fl_escaped :: bool
  fl_string :: bool
  fl_need_colon :: bool
  fl_done :: bool
  fl_num_negative :: bool
  fl_num_zero :: bool
  fl_num_e :: bool
  fl_num_e_got_sign :: bool
  fl_num_e_negative :: bool
  fl_line_comment :: bool
  fl_block_comment :: bool
  fl_num_got_decimal :: bool

definition no_flags :: pflags where
  "no_flags = \<lparr>fl_next = False, fl_reproc = False, fl_need_comma = False, fl_seek_value = False, fl_escaped = False,
     fl_string = False, fl_need_colon = False, fl_done = False, fl_num_negative = False, fl_num_zero = False,
     fl_num_e = False, fl_num_e_got_sign = False, fl_num_e_negative = False, fl_line_comment = False,
     fl_block_comment = False, fl_num_got_decimal = False\<rparr>"

record pst =
  ps_ptr :: nat
  ps_line :: nat
  ps_flags :: pflags
  ps_num_digits :: nat
  ps_num_e :: "64 word"
  ps_num_fraction :: "64 word"
  ps_heap :: pheap

text \<open>
  The double arithmetic of the source on bit patterns: \<^verbatim>\<open>(double)integer\<close>,
  \<^verbatim>\<open>x * 10 + d\<close>, \<^verbatim>\<open>x + f / pow(10, n)\<close>, \<^verbatim>\<open>x * pow(10, e)\<close> or
  \<^verbatim>\<open>x * pow(10, -e)\<close>, and \<^verbatim>\<open>-x\<close>.
\<close>

record float_ops =
  fo_of_int :: "json_int \<Rightarrow> 64 word"
  fo_digit :: "64 word \<Rightarrow> nat \<Rightarrow> 64 word"
  fo_fraction :: "64 word \<Rightarrow> 64 word \<Rightarrow> nat \<Rightarrow> 64 word"
  fo_scale :: "64 word \<Rightarrow> 64 word \<Rightarrow> bool \<Rightarrow> 64 word"
  fo_neg :: "64 word \<Rightarrow> 64 word"

text \<open>
  What a section of the body leads to: a stop, the end of the loop (\<^verbatim>\<open>break\<close>), the
  next turn (\<^verbatim>\<open>continue\<close>), or the next section. The position of the next turn has
  the loop's increment in it; where the source decrements the pointer first, the position
  stays.
\<close>

datatype flow = Fail pstop | Break pst | Continue pst | Fall pst

definition then_flow :: "flow \<Rightarrow> (pst \<Rightarrow> flow) \<Rightarrow> flow" where
  "then_flow f g = (case f of Fall st \<Rightarrow> g st | _ \<Rightarrow> f)"

definition with_heap :: "pst \<Rightarrow> pheap pres \<Rightarrow> (pst \<Rightarrow> flow) \<Rightarrow> flow" where
  "with_heap st r k = (case r of Inl e \<Rightarrow> Fail e | Inr h \<Rightarrow> k (st\<lparr>ps_heap := h\<rparr>))"

definition advance :: "pst \<Rightarrow> pst" where
  "advance st = st\<lparr>ps_ptr := ps_ptr st + 1\<rparr>"

definition upd_flags :: "(pflags \<Rightarrow> pflags) \<Rightarrow> pst \<Rightarrow> pst" where
  "upd_flags f st = st\<lparr>ps_flags := f (ps_flags st)\<rparr>"

definition upd_heap :: "(pheap \<Rightarrow> pheap) \<Rightarrow> pst \<Rightarrow> pst" where
  "upd_heap f st = st\<lparr>ps_heap := f (ps_heap st)\<rparr>"

definition fail :: "pst \<Rightarrow> parse_error \<Rightarrow> flow" where
  "fail st e = Fail (P_Error (ps_line st) e (ps_heap st))"

definition is_ws :: "char \<Rightarrow> bool" where
  "is_ws b \<longleftrightarrow> b = CHR 0x0A \<or> b = CHR '' '' \<or> b = CHR 0x09 \<or> b = CHR 0x0D"

text \<open>The macro \<^verbatim>\<open>whitespace\<close> followed by \<^verbatim>\<open>continue\<close>.\<close>

definition skip_ws :: "char \<Rightarrow> pst \<Rightarrow> flow" where
  "skip_ws b st = Continue (advance (if b = CHR 0x0A then st\<lparr>ps_line := ps_line st + 1\<rparr> else st))"

definition escape_section :: "bool \<Rightarrow> string \<Rightarrow> char \<Rightarrow> pst \<Rightarrow> flow" where
  "escape_section first_pass text b st =
     (let st = upd_flags (\<lambda>f. f\<lparr>fl_escaped := False\<rparr>) st;
          add = (\<lambda>st bs. with_heap st (string_add first_pass bs (ps_heap st)) (\<lambda>st. Continue (advance st)))
      in if b = CHR ''b'' then add st [CHR 0x08]
         else if b = CHR ''f'' then add st [CHR 0x0C]
         else if b = CHR ''n'' then add st [CHR 0x0A]
         else if b = CHR ''r'' then add st [CHR 0x0D]
         else if b = CHR ''t'' then add st [CHR 0x09]
         else if b = CHR ''u'' then
           (case unicode_escape text (ps_ptr st) of
              None \<Rightarrow> fail st (E_Invalid_Char b)
            | Some (u, i) \<Rightarrow> add (st\<lparr>ps_ptr := i\<rparr>) (utf8 u))
         else add st [b])"

definition string_section :: "bool \<Rightarrow> string \<Rightarrow> char \<Rightarrow> pst \<Rightarrow> flow" where
  "string_section first_pass text b st =
     (if \<not> fl_string (ps_flags st) then Fall st
      else if b = NUL then fail st E_String_EOF
      else if h_strlen (ps_heap st) > UINT_MAX - 8 then fail st E_Overflow
      else if fl_escaped (ps_flags st) then escape_section first_pass text b st
      else if b = CHR 0x5C then Continue (advance (upd_flags (\<lambda>f. f\<lparr>fl_escaped := True\<rparr>) st))
      else if b = CHR 0x22 then
        with_heap st (string_close first_pass (ps_heap st)) (\<lambda>st.
          let st = upd_flags (\<lambda>f. f\<lparr>fl_string := False\<rparr>) st
          in case top_type (ps_heap st) of
               Some T_String \<Rightarrow> Fall (upd_flags (\<lambda>f. f\<lparr>fl_next := True\<rparr>) (upd_heap end_string st))
             | Some T_Object \<Rightarrow>
                 with_heap st (end_name first_pass (ps_heap st)) (\<lambda>st.
                   Continue (advance (upd_flags (\<lambda>f. f\<lparr>fl_seek_value := True, fl_need_colon := True\<rparr>) st)))
             | None \<Rightarrow> Fail (P_Fault Null_Deref)
             | _ \<Rightarrow> Fall st)
      else with_heap st (string_add first_pass [b] (ps_heap st)) (\<lambda>st. Continue (advance st)))"

definition comment_section :: "json_settings \<Rightarrow> string \<Rightarrow> char \<Rightarrow> pst \<Rightarrow> flow" where
  "comment_section js text b st =
     (if \<not> js_comments js then Fall st
      else if fl_line_comment (ps_flags st) then
        (if b = CHR 0x0D \<or> b = CHR 0x0A \<or> b = NUL
         then Continue (upd_flags (\<lambda>f. f\<lparr>fl_line_comment := False\<rparr>) st)
         else Continue (advance st))
      else if fl_block_comment (ps_flags st) then
        (if b = NUL then fail st E_Block_Comment_EOF
         else if b = CHR ''*'' \<and> ps_ptr st + 1 < length text \<and> text ! (ps_ptr st + 1) = CHR ''/''
         then Continue (advance (advance (upd_flags (\<lambda>f. f\<lparr>fl_block_comment := False\<rparr>) st)))
         else Continue (advance st))
      else if b = CHR ''/'' then
        (if \<not> fl_seek_value (ps_flags st) \<and> \<not> fl_done (ps_flags st) \<and> top_type (ps_heap st) = None
         then Fail (P_Fault Null_Deref)
         else if \<not> fl_seek_value (ps_flags st) \<and> \<not> fl_done (ps_flags st) \<and> top_type (ps_heap st) \<noteq> Some T_Object
         then fail st E_Comment_Not_Allowed
         else
           let st = advance st
           in if ps_ptr st = length text then fail st E_EOF
              else if text ! ps_ptr st = CHR ''/'' then Continue (advance (upd_flags (\<lambda>f. f\<lparr>fl_line_comment := True\<rparr>) st))
              else if text ! ps_ptr st = CHR ''*'' then Continue (advance (upd_flags (\<lambda>f. f\<lparr>fl_block_comment := True\<rparr>) st))
              else fail st (E_Comment_Opening (text ! ps_ptr st)))
      else Fall st)"

definition done_section :: "char \<Rightarrow> pst \<Rightarrow> flow" where
  "done_section b st =
     (if \<not> fl_done (ps_flags st) then Fall st
      else if b = NUL then Break st
      else if is_ws b then skip_ws b st
      else fail st (E_Trailing b))"

text \<open>The characters of a number the second pass skips.\<close>

definition num_char :: "char \<Rightarrow> bool" where
  "num_char b \<longleftrightarrow> is_digit b \<or> b \<in> {CHR ''+'', CHR ''-'', CHR ''e'', CHR ''E'', CHR ''.''}"

text \<open>The rest of a literal behind its first letter.\<close>

definition literal_at :: "string \<Rightarrow> nat \<Rightarrow> string \<Rightarrow> bool" where
  "literal_at text i w \<longleftrightarrow> length text - i > length w \<and> take (length w) (drop (i + 1) text) = w"

definition start_number :: "bool \<Rightarrow> string \<Rightarrow> char \<Rightarrow> pst \<Rightarrow> flow" where
  "start_number first_pass text b st =
     (if \<not> first_pass then
        Fall (upd_flags (\<lambda>f. f\<lparr>fl_next := True, fl_reproc := True\<rparr>)
          (st\<lparr>ps_ptr := ps_ptr st + length (takeWhile num_char (drop (ps_ptr st) text))\<rparr>))
      else
        let st = upd_flags (\<lambda>f. f\<lparr>fl_num_negative := False, fl_num_e := False, fl_num_e_got_sign := False,
                                   fl_num_e_negative := False, fl_num_zero := False\<rparr>)
                   (st\<lparr>ps_num_digits := 0, ps_num_fraction := 0, ps_num_e := 0\<rparr>)
        in if b \<noteq> CHR ''-'' then Fall (upd_flags (\<lambda>f. f\<lparr>fl_reproc := True\<rparr>) st)
           else Continue (advance (upd_flags (\<lambda>f. f\<lparr>fl_num_negative := True\<rparr>) st)))"

definition begin_value :: "bool \<Rightarrow> json_settings \<Rightarrow> string \<Rightarrow> char \<Rightarrow> pst \<Rightarrow> flow" where
  "begin_value first_pass js text b st =
     (let new = (\<lambda>t st k. with_heap st (new_value first_pass js t (ps_line st) (ps_heap st)) k);
          next = upd_flags (\<lambda>f. f\<lparr>fl_next := True\<rparr>)
      in if b = CHR ''{'' then new T_Object st (\<lambda>st. Continue (advance st))
         else if b = CHR ''['' then
           new T_Array st (\<lambda>st. Continue (advance (upd_flags (\<lambda>f. f\<lparr>fl_seek_value := True\<rparr>) st)))
         else if b = CHR 0x22 then
           new T_String st (\<lambda>st. Continue (advance (upd_heap open_string (upd_flags (\<lambda>f. f\<lparr>fl_string := True\<rparr>) st))))
         else if b = CHR ''t'' then
           (if \<not> literal_at text (ps_ptr st) ''rue'' then fail st E_Unknown_Value
            else new T_Boolean (st\<lparr>ps_ptr := ps_ptr st + 3\<rparr>) (\<lambda>st. Fall (next (upd_heap (set_top (V_Boolean 1)) st))))
         else if b = CHR ''f'' then
           (if \<not> literal_at text (ps_ptr st) ''alse'' then fail st E_Unknown_Value
            else new T_Boolean (st\<lparr>ps_ptr := ps_ptr st + 4\<rparr>) (\<lambda>st. Fall (next st)))
         else if b = CHR ''n'' then
           (if \<not> literal_at text (ps_ptr st) ''ull'' then fail st E_Unknown_Value
            else new T_Null (st\<lparr>ps_ptr := ps_ptr st + 3\<rparr>) (\<lambda>st. Fall (next st)))
         else if is_digit b \<or> b = CHR ''-'' then new T_Integer st (start_number first_pass text b)
         else fail st (E_Seeking_Value b))"

definition seek_section :: "bool \<Rightarrow> json_settings \<Rightarrow> string \<Rightarrow> char \<Rightarrow> pst \<Rightarrow> flow" where
  "seek_section first_pass js text b st =
     (if is_ws b then skip_ws b st
      else if b = CHR '']'' then
        (if top_type (ps_heap st) = Some T_Array
         then Fall (upd_flags (\<lambda>f. f\<lparr>fl_need_comma := False, fl_seek_value := False, fl_next := True\<rparr>) st)
         else fail st E_Unexpected_Bracket)
      else if fl_need_comma (ps_flags st) then
        (if b = CHR '','' then Continue (advance (upd_flags (\<lambda>f. f\<lparr>fl_need_comma := False\<rparr>) st))
         else fail st (E_Expected_Comma b))
      else if fl_need_colon (ps_flags st) then
        (if b = CHR '':'' then Continue (advance (upd_flags (\<lambda>f. f\<lparr>fl_need_colon := False\<rparr>) st))
         else fail st (E_Expected_Colon b))
      else begin_value first_pass js text b (upd_flags (\<lambda>f. f\<lparr>fl_seek_value := False\<rparr>) st))"

definition object_section :: "char \<Rightarrow> pst \<Rightarrow> flow" where
  "object_section b st =
     (if is_ws b then skip_ws b st
      else if b = CHR 0x22 then
        (if fl_need_comma (ps_flags st) then fail st E_Expected_Comma_Quote
         else Fall (upd_heap open_name (upd_flags (\<lambda>f. f\<lparr>fl_string := True\<rparr>) st)))
      else if b = CHR ''}'' then
        Fall (upd_flags (\<lambda>f. f\<lparr>fl_need_comma := False, fl_next := True\<rparr>) st)
      else if b = CHR '','' \<and> fl_need_comma (ps_flags st) then
        Fall (upd_flags (\<lambda>f. f\<lparr>fl_need_comma := False\<rparr>) st)
      else fail st (E_In_Object b))"

section \<open>Numbers\<close>

abbreviation (input) JSON_INT_MAX :: int where "JSON_INT_MAX \<equiv> 2 ^ 63 - 1"

definition would_overflow :: "json_int \<Rightarrow> char \<Rightarrow> bool" where
  "would_overflow value b \<longleftrightarrow> (JSON_INT_MAX - int (digit_val b)) div 10 < sint value"

definition top_int :: "pst \<Rightarrow> json_int" where
  "top_int st = (case top_val (ps_heap st) of V_Integer i \<Rightarrow> i | _ \<Rightarrow> 0)"

definition top_dbl :: "pst \<Rightarrow> 64 word" where
  "top_dbl st = (case top_val (ps_heap st) of V_Double d \<Rightarrow> d | _ \<Rightarrow> 0)"

definition put_int :: "json_int \<Rightarrow> pst \<Rightarrow> pst" where
  "put_int i = upd_heap (set_top (V_Integer i))"

definition put_dbl :: "64 word \<Rightarrow> pst \<Rightarrow> pst" where
  "put_dbl d = upd_heap (set_top (V_Double d))"

definition is_int :: "pst \<Rightarrow> bool" where
  "is_int st \<longleftrightarrow> top_type (ps_heap st) = Some T_Integer"

definition digit_section :: "float_ops \<Rightarrow> char \<Rightarrow> pst \<Rightarrow> flow" where
  "digit_section fo b st =
     (let d = digit_val b;
          f = ps_flags st;
          st = st\<lparr>ps_num_digits := ps_num_digits st + 1\<rparr>
      in if fl_num_e f then
           Continue (advance (upd_flags (\<lambda>f. f\<lparr>fl_num_e_got_sign := True\<rparr>) (st\<lparr>ps_num_e := fo_digit fo (ps_num_e st) d\<rparr>)))
         else if is_int st then
           (if fl_num_zero f then fail st (E_Zero_Before b)
            else
              let st = (if ps_num_digits st = 1 \<and> b = CHR ''0'' then upd_flags (\<lambda>f. f\<lparr>fl_num_zero := True\<rparr>) st else st)
              in if would_overflow (top_int st) b
                 then Continue (put_dbl (fo_of_int fo (top_int st)) (st\<lparr>ps_num_digits := ps_num_digits st - 1\<rparr>))
                 else Continue (advance (put_int (top_int st * 10 + of_nat d) st)))
         else if fl_num_got_decimal f then Continue (advance (st\<lparr>ps_num_fraction := fo_digit fo (ps_num_fraction st) d\<rparr>))
         else Continue (advance (put_dbl (fo_digit fo (top_dbl st) d) st)))"

text \<open>The end of a number, or the letter that starts its exponent.\<close>

definition finish_number :: "float_ops \<Rightarrow> pst \<Rightarrow> flow" where
  "finish_number fo st =
     (let st = (if fl_num_negative (ps_flags st)
                then (if is_int st then put_int (- top_int st) st else put_dbl (fo_neg fo (top_dbl st)) st)
                else st)
      in Fall (upd_flags (\<lambda>f. f\<lparr>fl_next := True, fl_reproc := True\<rparr>) st))"

definition end_number :: "float_ops \<Rightarrow> char \<Rightarrow> pst \<Rightarrow> flow" where
  "end_number fo b st =
     (if \<not> fl_num_e (ps_flags st) then
        (if \<not> is_int st \<and> ps_num_digits st = 0 then fail st E_Digit_After_Dot
         else
           let st = (if is_int st then st
                     else put_dbl (fo_fraction fo (top_dbl st) (ps_num_fraction st) (ps_num_digits st)) st)
           in if b = CHR ''e'' \<or> b = CHR ''E'' then
                let st = (if is_int st then put_dbl (fo_of_int fo (top_int st)) st else st)
                in Continue (advance (upd_flags (\<lambda>f. f\<lparr>fl_num_e := True, fl_num_zero := False\<rparr>) (st\<lparr>ps_num_digits := 0\<rparr>)))
              else finish_number fo st)
      else if ps_num_digits st = 0 then fail st E_Digit_After_E
      else finish_number fo (put_dbl (fo_scale fo (top_dbl st) (ps_num_e st) (fl_num_e_negative (ps_flags st))) st))"

definition number_section :: "float_ops \<Rightarrow> char \<Rightarrow> pst \<Rightarrow> flow" where
  "number_section fo b st =
     (if is_digit b then digit_section fo b st
      else if (b = CHR ''+'' \<or> b = CHR ''-'') \<and> fl_num_e (ps_flags st) \<and> \<not> fl_num_e_got_sign (ps_flags st) then
        Continue (advance (upd_flags (\<lambda>f. f\<lparr>fl_num_e_got_sign := True,
          fl_num_e_negative := (b = CHR ''-'' \<or> fl_num_e_negative f)\<rparr>) st))
      else if b = CHR ''.'' \<and> is_int st then
        (if ps_num_digits st = 0 then fail st E_Digit_Before_Dot
         else Continue (advance (put_dbl (fo_of_int fo (top_int st))
                (upd_flags (\<lambda>f. f\<lparr>fl_num_got_decimal := True\<rparr>) (st\<lparr>ps_num_digits := 0\<rparr>)))))
      else end_number fo b st)"

section \<open>The body and the loop\<close>

definition value_section :: "bool \<Rightarrow> json_settings \<Rightarrow> float_ops \<Rightarrow> string \<Rightarrow> char \<Rightarrow> pst \<Rightarrow> flow" where
  "value_section first_pass js fo text b st =
     (if fl_seek_value (ps_flags st) then seek_section first_pass js text b st
      else
        (case top_type (ps_heap st) of
           None \<Rightarrow> Fail (P_Fault Null_Deref)
         | Some T_Object \<Rightarrow> object_section b st
         | Some T_Integer \<Rightarrow> number_section fo b st
         | Some T_Double \<Rightarrow> number_section fo b st
         | _ \<Rightarrow> Fall st))"

text \<open>The end of the body: \<^verbatim>\<open>flag_reproc\<close>, then \<^verbatim>\<open>flag_next\<close>.\<close>

definition next_section :: "pst \<Rightarrow> flow" where
  "next_section st =
     (let st = (if fl_reproc (ps_flags st) then upd_flags (\<lambda>f. f\<lparr>fl_reproc := False\<rparr>) st else advance st)
      in if \<not> fl_next (ps_flags st) then Continue st
         else
           let st = upd_flags (\<lambda>f. f\<lparr>fl_next := False, fl_need_comma := True\<rparr>) st
           in case h_top (ps_heap st) of
                None \<Rightarrow> Fail (P_Fault Null_Deref)
              | Some i \<Rightarrow>
                  (case top_parent (ps_heap st) of
                     None \<Rightarrow> Continue (upd_flags (\<lambda>f. f\<lparr>fl_done := True\<rparr>) st)
                   | Some p \<Rightarrow>
                       let st = (if parent_type (ps_heap st) = Some T_Array then upd_flags (\<lambda>f. f\<lparr>fl_seek_value := True\<rparr>) st else st)
                       in with_heap st (link_value (ps_line st) i p (ps_heap st)) Continue))"

text \<open>Reading beyond the end of the text is a fault.\<close>

definition parse_step :: "bool \<Rightarrow> json_settings \<Rightarrow> float_ops \<Rightarrow> string \<Rightarrow> pst \<Rightarrow> flow" where
  "parse_step first_pass js fo text st =
     (if ps_ptr st > length text then Fail (P_Fault Out_Of_Bounds)
      else
        let b = (if ps_ptr st = length text then NUL else text ! ps_ptr st)
        in then_flow (string_section first_pass text b st) (\<lambda>st.
           then_flow (comment_section js text b st) (\<lambda>st.
           then_flow (done_section b st) (\<lambda>st.
           then_flow (value_section first_pass js fo text b st) (\<lambda>st.
           next_section st)))))"

partial_function (option) parse_loop ::
  "bool \<Rightarrow> json_settings \<Rightarrow> float_ops \<Rightarrow> string \<Rightarrow> pst \<Rightarrow> pst pres option" where
  "parse_loop first_pass js fo text st =
     (case parse_step first_pass js fo text st of
        Fail e \<Rightarrow> Some (Inl e)
      | Break st' \<Rightarrow> Some (Inr st')
      | Continue st' \<Rightarrow> parse_loop first_pass js fo text st'
      | Fall st' \<Rightarrow> parse_loop first_pass js fo text st')"

declare parse_loop.simps [code]

section \<open>Both passes\<close>

definition start_pass :: "pheap \<Rightarrow> pst" where
  "start_pass h =
     \<lparr>ps_ptr = 0, ps_line = 1, ps_flags = no_flags\<lparr>fl_seek_value := True\<rparr>, ps_num_digits = 0, ps_num_e = 0, ps_num_fraction = 0,
      ps_heap = h\<lparr>h_top := None, h_root := None, h_room := 0, h_buf := [], h_strlen := 0\<rparr>\<rparr>"

definition empty_heap :: pheap where
  "empty_heap = \<lparr>h_nodes = [], h_top = None, h_root = None, h_alloc = None, h_room = 0, h_buf = [], h_strlen = 0, h_used = 0, h_calls = 0\<rparr>"

text \<open>The tree below a value; a child is created after its parent, so the number of values bounds the depth.\<close>

fun node_value :: "nat \<Rightarrow> node list \<Rightarrow> nat \<Rightarrow> json_value" where
  "node_value 0 nodes i = JNone"
| "node_value (Suc d) nodes i =
     (case nd_val (nodes ! i) of
        V_Null \<Rightarrow> JNull
      | V_Boolean b \<Rightarrow> JBoolean b
      | V_Integer n \<Rightarrow> JInteger n
      | V_Double x \<Rightarrow> JDouble x
      | F_String _ s \<Rightarrow> JString s
      | F_Array _ vs \<Rightarrow> JArray (map (node_value d nodes) vs)
      | F_Object _ _ _ es _ \<Rightarrow> JObject (map (\<lambda>(k, v). (k, node_value d nodes v)) es)
      | _ \<Rightarrow> JNone)"

definition skip_bom :: "string \<Rightarrow> string" where
  "skip_bom text = (if length text \<ge> 3 \<and> take 3 text = [CHR 0xEF, CHR 0xBB, CHR 0xBF] then drop 3 text else text)"

section \<open>Freeing\<close>

text \<open>
  The store while it is given back: the values whose memory has been freed, those whose
  buffer (elements, entries or characters) has been freed, and the names freed on their
  own, by their object and position, each in the order of the calls. The successor of a
  value in the list \<^verbatim>\<open>next_alloc\<close> is the one created after it.
\<close>

record fheap =
  fh_nodes :: "node list"
  fh_freed :: "nat list"
  fh_bufs :: "nat list"
  fh_names :: "(nat \<times> nat) list"

definition mem_free_value :: "nat \<Rightarrow> fheap \<Rightarrow> fheap cres" where
  "mem_free_value i s = (if i \<in> set (fh_freed s) then Inl Use_After_Free else Inr (s\<lparr>fh_freed := fh_freed s @ [i]\<rparr>))"

definition mem_free_buf :: "bool \<Rightarrow> nat \<Rightarrow> fheap \<Rightarrow> fheap cres" where
  "mem_free_buf present i s =
     (if \<not> present then Inr s
      else if i \<in> set (fh_bufs s) then Inl Use_After_Free
      else Inr (s\<lparr>fh_bufs := fh_bufs s @ [i]\<rparr>))"

definition mem_free_name :: "bool \<Rightarrow> nat \<times> nat \<Rightarrow> fheap \<Rightarrow> fheap cres" where
  "mem_free_name own name s =
     (if \<not> own then Inr s
      else if name \<in> set (fh_names s) then Inl Use_After_Free
      else Inr (s\<lparr>fh_names := fh_names s @ [name]\<rparr>))"

function free_chain :: "nat option \<Rightarrow> fheap \<Rightarrow> fheap cres" where
  "free_chain None s = Inr s"
| "free_chain (Some i) s =
     (if i \<ge> length (fh_nodes s) then Inl Out_Of_Bounds
      else if i \<in> set (fh_freed s) then Inl Use_After_Free
      else free_chain (if Suc i < length (fh_nodes s) then Some (Suc i) else None) (s\<lparr>fh_freed := fh_freed s @ [i]\<rparr>))"
  by pat_completeness auto
termination by (relation "measure (\<lambda>(a, s). case a of None \<Rightarrow> 0 | Some i \<Rightarrow> Suc (length (fh_nodes s) - i))") auto

text \<open>The last statements of the loop body: the buffer, then the value, and on to its parent.\<close>

definition free_up :: "bool \<Rightarrow> nat \<Rightarrow> fheap \<Rightarrow> (nat option \<times> fheap) cres" where
  "free_up present i s =
     (case mem_free_buf present i s of
        Inl f \<Rightarrow> Inl f
      | Inr s \<Rightarrow> map_sum id (Pair (nd_parent (fh_nodes s ! i))) (mem_free_value i s))"

definition put_node :: "nat \<Rightarrow> payload \<Rightarrow> fheap \<Rightarrow> fheap" where
  "put_node i v s = s\<lparr>fh_nodes := (fh_nodes s)[i := (fh_nodes s ! i)\<lparr>nd_val := v\<rparr>]\<rparr>"

text \<open>
  The loop body of \<^verbatim>\<open>json_builder_free\<close>, where the values with
  \<^verbatim>\<open>is_builder_value\<close> have names of their own. Without such values it is that of
  \<^verbatim>\<open>json_value_free_ex\<close>.
\<close>

definition free_step :: "(nat \<Rightarrow> bool) \<Rightarrow> nat \<Rightarrow> fheap \<Rightarrow> (nat option \<times> fheap) cres" where
  "free_step builder i s =
     (if i \<in> set (fh_freed s) then Inl Use_After_Free
      else
        (case nd_val (fh_nodes s ! i) of
           F_Array n vs \<Rightarrow>
             if vs = [] then free_up (n > 0) i s else Inr (Some (last vs), put_node i (F_Array n (butlast vs)) s)
         | V_Array n \<Rightarrow> if n = 0 then free_up False i s else Inl Null_Deref
         | F_Object n m u es p \<Rightarrow>
             if es = [] then free_up (n > 0) i s
             else map_sum id (\<lambda>s. (Some (snd (last es)), put_node i (F_Object n m u (butlast es) p) s))
                    (mem_free_name (builder i) (i, length es - 1) s)
         | V_Object n m \<Rightarrow> if n = 0 then free_up False i s else Inl Null_Deref
         | F_String n cs \<Rightarrow> free_up True i s
         | _ \<Rightarrow> free_up False i s))"

partial_function (option) free_loop :: "(nat \<Rightarrow> bool) \<Rightarrow> nat option \<Rightarrow> fheap \<Rightarrow> fheap cres option" where
  "free_loop builder v s =
     (case v of
        None \<Rightarrow> Some (Inr s)
      | Some i \<Rightarrow> (case free_step builder i s of Inl f \<Rightarrow> Some (Inl f) | Inr (v, s) \<Rightarrow> free_loop builder v s))"

declare free_loop.simps [code]

definition json_builder_free :: "(nat \<Rightarrow> bool) \<Rightarrow> nat option \<Rightarrow> fheap \<Rightarrow> fheap cres option" where
  "json_builder_free builder value s =
     (case value of
        None \<Rightarrow> Some (Inr s)
      | Some i \<Rightarrow>
          if i \<in> set (fh_freed s) then Some (Inl Use_After_Free)
          else free_loop builder (Some i) (s\<lparr>fh_nodes := (fh_nodes s)[i := (fh_nodes s ! i)\<lparr>nd_parent := None\<rparr>]\<rparr>))"

definition json_value_free_ex :: "nat option \<Rightarrow> fheap \<Rightarrow> fheap cres option" where
  "json_value_free_ex value s =
     (case value of
        None \<Rightarrow> Some (Inr s)
      | Some i \<Rightarrow>
          if i \<in> set (fh_freed s) then Some (Inl Use_After_Free)
          else free_loop (\<lambda>_. False) (Some i) (s\<lparr>fh_nodes := (fh_nodes s)[i := (fh_nodes s ! i)\<lparr>nd_parent := None\<rparr>]\<rparr>))"

definition whole :: "pheap \<Rightarrow> fheap" where
  "whole h = \<lparr>fh_nodes = h_nodes h, fh_freed = [], fh_bufs = [], fh_names = []\<rparr>"

definition json_value_free :: "pheap \<Rightarrow> fheap cres option" where
  "json_value_free h = json_value_free_ex (h_root h) (whole h)"

text \<open>
  The end of a failed pass: the values that are not taken yet (in the first pass all) are
  freed along their list, in the second pass then those below the root.
\<close>

definition e_failed :: "bool \<Rightarrow> pheap \<Rightarrow> fheap cres option" where
  "e_failed first_pass h =
     (case free_chain (if first_pass then h_root h else h_alloc h) (whole h) of
        Inl f \<Rightarrow> Some (Inl f)
      | Inr s \<Rightarrow> if first_pass then Some (Inr s) else json_value_free_ex (h_root h) s)"

definition parse_failed :: "bool \<Rightarrow> pstop \<Rightarrow> json_value pres option" where
  "parse_failed first_pass e =
     (case e of
        P_Fault f \<Rightarrow> Some (Inl e)
      | P_Error line err h \<Rightarrow>
          (case e_failed first_pass h of
             None \<Rightarrow> None
           | Some (Inl f) \<Rightarrow> Some (Inl (P_Fault f))
           | Some (Inr s) \<Rightarrow> Some (Inl e)))"

section \<open>The parser\<close>

definition json_parse_ex :: "json_settings \<Rightarrow> float_ops \<Rightarrow> string \<Rightarrow> json_value pres option" where
  "json_parse_ex js fo json =
     (let text = skip_bom json
      in case parse_loop True js fo text (start_pass empty_heap) of
           None \<Rightarrow> None
         | Some (Inl e) \<Rightarrow> parse_failed True e
         | Some (Inr st) \<Rightarrow>
             (case parse_loop False js fo text (start_pass ((ps_heap st)\<lparr>h_alloc := h_root (ps_heap st)\<rparr>)) of
                None \<Rightarrow> None
              | Some (Inl e) \<Rightarrow> parse_failed False e
              | Some (Inr st) \<Rightarrow>
                  (case h_root (ps_heap st) of
                     None \<Rightarrow> Some (Inl (P_Fault Null_Deref))
                   | Some r \<Rightarrow> Some (Inr (node_value (length (h_nodes (ps_heap st))) (h_nodes (ps_heap st)) r)))))"

text \<open>\<^verbatim>\<open>json_parse\<close>: no limit, no comments, no extra space.\<close>

definition json_parse :: "(nat \<Rightarrow> nat \<Rightarrow> bool) \<Rightarrow> float_ops \<Rightarrow> string \<Rightarrow> json_value pres option" where
  "json_parse alloc fo json =
     json_parse_ex \<lparr>js_max_memory = 0, js_comments = False, js_value_extra = 0, js_mem_alloc = alloc\<rparr> fo json"

end
