(* ===== verification/Json_First_Pass.thy ===== *)
theory Json_First_Pass
  imports Json_Parse
begin

text \<open>
  The first pass of the parser ends for every text, with every allocator, without a fault:
  an invariant relates the flags to the type of the value at the top, and a measure of the
  remaining text and the flags decreases in every turn, also in the turns that do not
  advance.
\<close>

section \<open>The store in the first pass\<close>

definition container :: "jtype \<Rightarrow> bool" where
  "container t \<longleftrightarrow> t = T_Array \<or> t = T_Object"

fun counting :: "payload \<Rightarrow> bool" where
  "counting (F_String _ _) = False"
| "counting (F_Array _ _) = False"
| "counting (F_Object _ _ _ _ _) = False"
| "counting _ = True"

definition node_type :: "node list \<Rightarrow> nat \<Rightarrow> jtype" where
  "node_type ns i = payload_type (nd_val (ns ! i))"

definition nodes_ok :: "node list \<Rightarrow> bool" where
  "nodes_ok ns \<longleftrightarrow>
     (\<forall>i < length ns. counting (nd_val (ns ! i)) \<and> (\<forall>p. nd_parent (ns ! i) = Some p \<longrightarrow> p < i \<and> container (node_type ns p)))"

definition heap_ok :: "pheap \<Rightarrow> bool" where
  "heap_ok h \<longleftrightarrow>
     nodes_ok (h_nodes h) \<and> (\<forall>i. h_top h = Some i \<longrightarrow> i < length (h_nodes h)) \<and> (h_top h = None \<longleftrightarrow> h_nodes h = []) \<and>
     h_root h = (if h_nodes h = [] then None else Some 0)"

lemma heap_ok_fields [simp]:
  "heap_ok (h\<lparr>h_room := r\<rparr>) = heap_ok h" "heap_ok (h\<lparr>h_buf := bf\<rparr>) = heap_ok h" "heap_ok (h\<lparr>h_strlen := n\<rparr>) = heap_ok h"
  "heap_ok (h\<lparr>h_used := n\<rparr>) = heap_ok h" "heap_ok (h\<lparr>h_calls := n\<rparr>) = heap_ok h" "heap_ok (h\<lparr>h_alloc := al\<rparr>) = heap_ok h"
  by (simp_all add: heap_ok_def)

lemma top_type_fields [simp]:
  "top_type (h\<lparr>h_room := r\<rparr>) = top_type h" "top_type (h\<lparr>h_buf := bf\<rparr>) = top_type h" "top_type (h\<lparr>h_strlen := n\<rparr>) = top_type h"
  "top_type (h\<lparr>h_used := n\<rparr>) = top_type h" "top_type (h\<lparr>h_calls := n\<rparr>) = top_type h" "top_type (h\<lparr>h_alloc := al\<rparr>) = top_type h"
  by (simp_all add: top_type_def)

lemma top_val_fields [simp]:
  "top_val (h\<lparr>h_room := r\<rparr>) = top_val h" "top_val (h\<lparr>h_buf := bf\<rparr>) = top_val h" "top_val (h\<lparr>h_strlen := n\<rparr>) = top_val h"
  by (simp_all add: top_val_def split: option.split)

lemma top_parent_fields [simp]:
  "top_parent (h\<lparr>h_room := r\<rparr>) = top_parent h" "top_parent (h\<lparr>h_buf := bf\<rparr>) = top_parent h" "top_parent (h\<lparr>h_strlen := n\<rparr>) = top_parent h"
  by (simp_all add: top_parent_def split: option.split)

lemma json_alloc_fields: "json_alloc js sz h = (ok, h') \<Longrightarrow> \<exists>u c. h' = h\<lparr>h_used := u, h_calls := c\<rparr>"
  by (cases h) (auto simp: json_alloc_def Let_def split: if_splits)

lemma nodes_ok_append:
  assumes "nodes_ok ns" and "counting v" and "\<And>p. q = Some p \<Longrightarrow> p < length ns \<and> container (node_type ns p)"
  shows "nodes_ok (ns @ [\<lparr>nd_parent = q, nd_val = v\<rparr>])"
  using assms by (auto simp: nodes_ok_def node_type_def nth_append less_Suc_eq)

lemma counting_zero [simp]: "counting (zero_payload t)" "payload_type (zero_payload t) = t"
  by (cases t; simp)+

lemma new_value_first_ok:
  assumes "new_value True js t line h = Inr h'" and "heap_ok h" and "\<And>t. top_type h = Some t \<Longrightarrow> container t"
  shows "heap_ok h' \<and> top_type h' = Some t \<and> top_val h' = zero_payload t"
proof -
  obtain ok h1 where al: "json_alloc js (40 + js_value_extra js) h = (ok, h1)" by fastforce
  from json_alloc_fields [OF this] obtain u c where h1: "h1 = h\<lparr>h_used := u, h_calls := c\<rparr>" by blast
  have par: "\<And>p. h_top h = Some p \<Longrightarrow> p < length (h_nodes h) \<and> container (node_type (h_nodes h) p)"
    using assms(2,3) by (auto simp: heap_ok_def top_type_def node_type_def)
  from assms(1) al h1 have "h' = h\<lparr>h_used := u, h_calls := c, h_nodes := h_nodes h @ [\<lparr>nd_parent = h_top h, nd_val = zero_payload t\<rparr>],
      h_root := (if h_root h = None then Some (length (h_nodes h)) else h_root h),
      h_alloc := Some (length (h_nodes h)), h_top := Some (length (h_nodes h))\<rparr>"
    by (auto simp: new_value_def new_value_first_def Let_def split: if_splits)
  with assms(2) nodes_ok_append [of "h_nodes h" "zero_payload t" "h_top h"] par show ?thesis
    by (auto simp: heap_ok_def top_type_def top_val_def)
qed

lemma new_value_first_no_fault: "new_value True js t line h \<noteq> Inl (P_Fault f)"
  by (auto simp: new_value_def split: sum.split)

lemma nodes_ok_update:
  assumes "nodes_ok ns" and "i < length ns" and "counting v" and "container (node_type ns i) \<Longrightarrow> payload_type v = node_type ns i"
  shows "nodes_ok (ns[i := (ns ! i)\<lparr>nd_val := v\<rparr>])"
proof -
  let ?ns = "ns[i := (ns ! i)\<lparr>nd_val := v\<rparr>]"
  have par: "nd_parent (?ns ! k) = nd_parent (ns ! k)" for k
    using assms(2) by (cases "k = i") auto
  have ty: "container (node_type ns k) \<Longrightarrow> container (node_type ?ns k)" for k
    using assms(2,4) by (cases "k = i") (auto simp: node_type_def)
  have cnt: "counting (nd_val (?ns ! k))" if "k < length ns" for k
    using assms that by (cases "k = i") (auto simp: nodes_ok_def)
  from assms(1) par ty cnt show ?thesis by (auto simp: nodes_ok_def)
qed

lemma set_top_ok:
  assumes "heap_ok h" and "counting v" and "\<And>t. top_type h = Some t \<Longrightarrow> container t \<Longrightarrow> payload_type v = t"
  shows "heap_ok (set_top v h) \<and> top_type (set_top v h) = map_option (\<lambda>_. payload_type v) (h_top h)"
  using assms nodes_ok_update [of "h_nodes h" _ v]
  by (auto simp: heap_ok_def set_top_def set_node_def top_type_def node_type_def split: option.split)

section \<open>The flags fit the value at the top\<close>

definition ctl_ok :: "jtype option \<Rightarrow> pflags \<Rightarrow> bool" where
  "ctl_ok t f \<longleftrightarrow>
     (t = None \<longrightarrow> fl_seek_value f \<and> \<not> fl_done f) \<and>
     (fl_string f \<longrightarrow> \<not> fl_seek_value f \<and> \<not> fl_done f \<and> t \<in> {Some T_String, Some T_Object}) \<and>
     (fl_seek_value f \<and> t \<noteq> None \<longrightarrow> t \<in> {Some T_Array, Some T_Object}) \<and>
     (fl_done f \<longrightarrow> \<not> fl_seek_value f) \<and>
     (\<not> fl_string f \<and> \<not> fl_done f \<and> \<not> fl_seek_value f \<longrightarrow> t \<in> {Some T_Object, Some T_Integer, Some T_Double})"

definition first_inv :: "json_settings \<Rightarrow> string \<Rightarrow> pst \<Rightarrow> bool" where
  "first_inv js text st \<longleftrightarrow>
     ps_ptr st \<le> length text \<and> heap_ok (ps_heap st) \<and> \<not> fl_next (ps_flags st) \<and> \<not> fl_reproc (ps_flags st) \<and>
     ctl_ok (top_type (ps_heap st)) (ps_flags st) \<and>
     (fl_line_comment (ps_flags st) \<or> fl_block_comment (ps_flags st) \<longrightarrow> js_comments js \<and> \<not> fl_string (ps_flags st)) \<and>
     (fl_string (ps_flags st) \<and> top_type (ps_heap st) = Some T_String \<longrightarrow> top_val (ps_heap st) = V_String 0) \<and>
     (fl_done (ps_flags st) \<longrightarrow> top_parent (ps_heap st) = None)"

definition rank :: "jtype option \<Rightarrow> pflags \<Rightarrow> nat" where
  "rank t f =
     (if fl_line_comment f then 4 else 0) +
     (if fl_string f \<or> fl_done f then 0
      else if fl_seek_value f then (if fl_need_comma f \<or> fl_need_colon f then 0 else 3)
      else if t = Some T_Integer then 2
      else if t = Some T_Double then 1
      else 0)"

definition work :: "string \<Rightarrow> pst \<Rightarrow> nat" where
  "work text st = 8 * (length text + 1 - ps_ptr st) + rank (top_type (ps_heap st)) (ps_flags st)"

text \<open>What a section may do: no fault, and every turn leaves less work.\<close>

definition good :: "json_settings \<Rightarrow> string \<Rightarrow> nat \<Rightarrow> (pst \<Rightarrow> bool) \<Rightarrow> flow \<Rightarrow> bool" where
  "good js text m mid r \<longleftrightarrow>
     (case r of
        Fail e \<Rightarrow> (\<forall>f. e \<noteq> P_Fault f)
      | Break st \<Rightarrow> first_inv js text st \<and> fl_done (ps_flags st)
      | Continue st \<Rightarrow> first_inv js text st \<and> work text st < m
      | Fall st \<Rightarrow> mid st)"

lemma good_simps [simp]:
  "good js text m mid (Fail (P_Error n e g))" "good js text m mid (Fall st) = mid st"
  "good js text m mid (Continue st) \<longleftrightarrow> first_inv js text st \<and> work text st < m"
  "good js text m mid (fail st e)"
  by (simp_all add: good_def fail_def)

lemma good_if: "(c \<Longrightarrow> good js text m mid x) \<Longrightarrow> (\<not> c \<Longrightarrow> good js text m mid y) \<Longrightarrow> good js text m mid (if c then x else y)"
  by simp

lemma good_mono: "good js text m mid r \<Longrightarrow> (\<And>st. mid st \<Longrightarrow> mid' st) \<Longrightarrow> good js text m mid' r"
  by (cases r) (auto simp: good_def)

lemma good_then: "good js text m mid r \<Longrightarrow> (\<And>st. mid st \<Longrightarrow> good js text m mid' (g st)) \<Longrightarrow> good js text m mid' (then_flow r g)"
  by (cases r) (auto simp: good_def then_flow_def)

lemma good_heap:
  "(\<And>f. r \<noteq> Inl (P_Fault f)) \<Longrightarrow> (\<And>h. r = Inr h \<Longrightarrow> good js text m mid (k (st\<lparr>ps_heap := h\<rparr>))) \<Longrightarrow> good js text m mid (with_heap st r k)"
  by (cases r) (auto simp: with_heap_def good_def split: pstop.split)

lemma rank_bound: "rank t f < 8"
  by (simp add: rank_def)

lemma work_advance: "ps_ptr st < ps_ptr st' \<Longrightarrow> ps_ptr st' \<le> length text \<Longrightarrow> work text st' < work text st"
  using rank_bound [of "top_type (ps_heap st')" "ps_flags st'"] by (simp add: work_def)

lemma st_simps [simp]:
  "ps_ptr (advance st) = ps_ptr st + 1" "ps_flags (advance st) = ps_flags st" "ps_heap (advance st) = ps_heap st" "ps_line (advance st) = ps_line st"
  "ps_num_digits (advance st) = ps_num_digits st" "ps_num_e (advance st) = ps_num_e st" "ps_num_fraction (advance st) = ps_num_fraction st"
  "ps_ptr (upd_flags g st) = ps_ptr st" "ps_flags (upd_flags g st) = g (ps_flags st)" "ps_heap (upd_flags g st) = ps_heap st" "ps_line (upd_flags g st) = ps_line st"
  "ps_num_digits (upd_flags g st) = ps_num_digits st" "ps_num_e (upd_flags g st) = ps_num_e st" "ps_num_fraction (upd_flags g st) = ps_num_fraction st"
  "ps_ptr (upd_heap k st) = ps_ptr st" "ps_flags (upd_heap k st) = ps_flags st" "ps_heap (upd_heap k st) = k (ps_heap st)" "ps_line (upd_heap k st) = ps_line st"
  "ps_num_digits (upd_heap k st) = ps_num_digits st" "ps_num_e (upd_heap k st) = ps_num_e st" "ps_num_fraction (upd_heap k st) = ps_num_fraction st"
  by (simp_all add: advance_def upd_flags_def upd_heap_def)

text \<open>A finished value, and a state whose next turn is certain.\<close>

definition finished :: "json_settings \<Rightarrow> string \<Rightarrow> nat \<Rightarrow> pst \<Rightarrow> bool" where
  "finished js text m st \<longleftrightarrow>
     (let f = ps_flags st; i = (if fl_reproc f then ps_ptr st else ps_ptr st + 1)
      in heap_ok (ps_heap st) \<and> h_top (ps_heap st) \<noteq> None \<and> fl_next f \<and> \<not> fl_string f \<and> \<not> fl_seek_value f \<and> \<not> fl_done f \<and>
         (fl_line_comment f \<or> fl_block_comment f \<longrightarrow> js_comments js) \<and>
         i \<le> length text \<and> 8 * (length text + 1 - i) + (if fl_line_comment f then 4 else 0) < m)"

definition goes_on :: "json_settings \<Rightarrow> string \<Rightarrow> nat \<Rightarrow> pst \<Rightarrow> bool" where
  "goes_on js text m st \<longleftrightarrow>
     \<not> fl_next (ps_flags st) \<and>
     (let st' = (if fl_reproc (ps_flags st) then upd_flags (\<lambda>f. f\<lparr>fl_reproc := False\<rparr>) st else advance st)
      in first_inv js text st' \<and> work text st' < m)"

lemma link_value_ok:
  assumes "heap_ok h" and "h_top h = Some i" and "top_parent h = Some p" and "link_value line i p h = r"
  shows "(\<exists>e g. r = Inl (P_Error line e g)) \<or> (\<exists>h'. r = Inr h' \<and> heap_ok h' \<and> top_type h' = parent_type h)"
proof -
  have i: "i < length (h_nodes h)" "nd_parent (h_nodes h ! i) = Some p" using assms(1-3) by (auto simp: heap_ok_def top_parent_def)
  with assms(1) have p: "p < i" "container (node_type (h_nodes h) p)" by (auto simp: heap_ok_def nodes_ok_def)
  with i have pl: "p < length (h_nodes h)" by simp
  with assms(1) have cp: "counting (nd_val (h_nodes h ! p))" by (simp add: heap_ok_def nodes_ok_def)
  have pt: "parent_type h = Some (node_type (h_nodes h) p)" using assms(3) by (simp add: parent_type_def node_type_def)
  have upd: "heap_ok ((set_node p v h)\<lparr>h_top := Some p\<rparr>) \<and> top_type ((set_node p v h)\<lparr>h_top := Some p\<rparr>) = parent_type h"
    if "counting v" "payload_type v = node_type (h_nodes h) p" for v
    using nodes_ok_update [of "h_nodes h" p v] that assms(1) p pl i pt by (auto simp: heap_ok_def set_node_def top_type_def)
  show ?thesis
  proof (cases "nd_val (h_nodes h ! p)")
    case (V_Array n)
    with upd [of "V_Array (n + 1)"] assms(4) show ?thesis
      by (cases "4294967286 < n") (auto simp: link_value_def node_type_def)
  next
    case (V_Object n m)
    with upd [of "V_Object (n + 1) m"] assms(4) show ?thesis
      by (cases "4294967286 < n") (auto simp: link_value_def node_type_def)
  qed (use p cp in \<open>simp_all add: container_def node_type_def\<close>)
qed

lemma next_section_good:
  assumes "finished js text m st \<or> goes_on js text m st"
  shows "good js text m mid (next_section st)"
  using assms
proof
  assume g: "goes_on js text m st"
  then show ?thesis by (auto simp: goes_on_def next_section_def Let_def)
next
  assume f: "finished js text m st"
  then obtain i where i: "h_top (ps_heap st) = Some i" by (auto simp: finished_def Let_def)
  show ?thesis
  proof (cases "top_parent (ps_heap st)")
    case None
    with f i show ?thesis
      by (auto simp: next_section_def finished_def Let_def first_inv_def ctl_ok_def work_def rank_def top_type_def)
  next
    case (Some p)
    from f have ok: "heap_ok (ps_heap st)" by (simp add: finished_def Let_def)
    have par: "parent_type (ps_heap st) = Some T_Array \<or> parent_type (ps_heap st) = Some T_Object"
      using ok i Some by (auto simp: heap_ok_def nodes_ok_def top_parent_def parent_type_def container_def node_type_def)
    note lv = link_value_ok [OF ok i Some refl, of "ps_line st"]
    show ?thesis
      unfolding next_section_def Let_def
      using f i Some par lv
      by (auto simp: finished_def Let_def first_inv_def ctl_ok_def work_def rank_def intro!: good_heap)
  qed
qed

section \<open>The sections of the first pass\<close>

lemma string_ops_ok:
  "string_add True bs h = Inr (h\<lparr>h_strlen := h_strlen h + length bs\<rparr>)" "string_close True h = Inr (h\<lparr>h_room := 0\<rparr>)"
  "heap_ok (open_string h) = heap_ok h" "top_type (open_string h) = top_type h" "heap_ok (open_name h) = heap_ok h" "top_type (open_name h) = top_type h"
  "top_val (open_string h) = top_val h"
  by (simp_all add: string_add_def string_close_def open_string_def open_name_def)

lemma end_name_ok:
  assumes "heap_ok h" and "top_type h = Some T_Object"
  shows "\<exists>h'. end_name True h = Inr h' \<and> heap_ok h' \<and> top_type h' = Some T_Object"
proof -
  obtain i where i: "h_top h = Some i" "payload_type (nd_val (h_nodes h ! i)) = T_Object" using assms(2) by (auto simp: top_type_def)
  have "heap_ok (set_top (V_Object n k) h) \<and> top_type (set_top (V_Object n k) h) = Some T_Object" for n k
    using set_top_ok [OF assms(1), of "V_Object n k"] assms(2) i by (auto simp: container_def)
  with i assms show ?thesis by (auto simp: end_name_def top_val_def split: payload.split)
qed

lemma end_string_ok:
  assumes "heap_ok h" and "top_type h = Some T_String"
  shows "heap_ok (end_string h) \<and> top_type (end_string h) = Some T_String \<and> h_top (end_string h) = h_top h"
proof -
  obtain i where i: "h_top h = Some i" "i < length (h_nodes h)" "payload_type (nd_val (h_nodes h ! i)) = T_String"
    using assms by (auto simp: top_type_def heap_ok_def)
  moreover have "counting (nd_val (h_nodes h ! i))" using i assms(1) by (simp add: heap_ok_def nodes_ok_def)
  ultimately obtain n where "nd_val (h_nodes h ! i) = V_String n" by (cases "nd_val (h_nodes h ! i)") auto
  with i set_top_ok [OF assms(1), of "V_String (h_strlen h)"] assms(2) show ?thesis
    by (auto simp: end_string_def top_val_def container_def set_top_def set_node_def)
qed

lemma unicode_escape_range: "unicode_escape text i = Some (u, j) \<Longrightarrow> i < j \<and> j < length text"
  by (auto simp: unicode_escape_def split: if_splits option.splits)

lemma ctl_ok_same:
  "ctl_ok t (f\<lparr>fl_escaped := e\<rparr>) = ctl_ok t f" "ctl_ok t (f\<lparr>fl_need_comma := e\<rparr>) = ctl_ok t f"
  "ctl_ok t (f\<lparr>fl_need_colon := e\<rparr>) = ctl_ok t f" "ctl_ok t (f\<lparr>fl_line_comment := e\<rparr>) = ctl_ok t f"
  "ctl_ok t (f\<lparr>fl_block_comment := e\<rparr>) = ctl_ok t f"
  by (simp_all add: ctl_ok_def)

lemma advance_good:
  assumes "first_inv js text st" and "ps_ptr st < length text" and "heap_ok h" and "top_type h = top_type (ps_heap st)" and "top_val h = top_val (ps_heap st)" and "top_parent h = top_parent (ps_heap st)"
    and "ps_ptr st \<le> ps_ptr st'" and "ps_ptr st' < length text" and "ps_heap st' = h" and "ps_flags st' = (ps_flags st)\<lparr>fl_escaped := e\<rparr>"
  shows "good js text (work text st) mid (Continue (advance st'))"
  using assms work_advance [of st "advance st'" "text"] by (simp add: first_inv_def ctl_ok_same)

lemma escape_section_good:
  assumes "first_inv js text st" and "ps_ptr st < length text"
  shows "good js text (work text st) mid (escape_section True text b st)"
proof -
  have add: "good js text (work text st) mid (with_heap st' (string_add True bs (ps_heap st')) (\<lambda>st. Continue (advance st)))"
    if "st' = (upd_flags (\<lambda>f. f\<lparr>fl_escaped := False\<rparr>) st)\<lparr>ps_ptr := i\<rparr>" "ps_ptr st \<le> i" "i < length text" for st' bs i
    using that assms
    by (simp add: with_heap_def string_ops_ok del: good_simps)
      (rule advance_good, auto simp: first_inv_def)
  have add1: "good js text (work text st) mid (with_heap (upd_flags (\<lambda>f. f\<lparr>fl_escaped := False\<rparr>) st) (string_add True bs (ps_heap st)) (\<lambda>st. Continue (advance st)))" for bs
    using add [of "upd_flags (\<lambda>f. f\<lparr>fl_escaped := False\<rparr>) st" "ps_ptr st" bs] assms(2) by (simp add: upd_flags_def)
  show ?thesis
  proof (cases "b = CHR ''u''")
    case True
    with add [OF refl] unicode_escape_range [of "text" "ps_ptr st"] show ?thesis
      by (auto simp: escape_section_def Let_def less_imp_le split: option.split)
  qed (simp add: escape_section_def Let_def add1)
qed

definition after_string :: "json_settings \<Rightarrow> string \<Rightarrow> pst \<Rightarrow> char \<Rightarrow> pst \<Rightarrow> bool" where
  "after_string js text st0 b st \<longleftrightarrow>
     st = st0 \<and> \<not> fl_string (ps_flags st) \<or>
     b = CHR 0x22 \<and> finished js text (work text st0) st \<and> top_type (ps_heap st) = Some T_String \<and>
       \<not> fl_line_comment (ps_flags st) \<and> \<not> fl_block_comment (ps_flags st)"

lemma string_section_good:
  assumes "first_inv js text st" and "b = (if ps_ptr st = length text then NUL else text ! ps_ptr st)"
  shows "good js text (work text st) (after_string js text st b) (string_section True text b st)"
proof (cases "fl_string (ps_flags st) \<and> b \<noteq> NUL")
  case True
  have ptr: "ps_ptr st < length text" using assms True by (auto simp: first_inv_def split: if_splits)
  let ?st = "upd_flags (\<lambda>f. f\<lparr>fl_string := False\<rparr>) (st\<lparr>ps_heap := (ps_heap st)\<lparr>h_room := 0\<rparr>\<rparr>)"
  have inv: "heap_ok (ps_heap ?st)" "top_type (ps_heap ?st) = top_type (ps_heap st)" using assms(1) by (simp_all add: first_inv_def)
  have top: "top_type (ps_heap st) = Some T_String \<or> top_type (ps_heap st) = Some T_Object"
    using assms(1) True by (auto simp: first_inv_def ctl_ok_def)
  show ?thesis
  proof (cases "b = CHR 0x22 \<and> \<not> fl_escaped (ps_flags st)")
    case quote: True
    show ?thesis
      using top
    proof
      assume t: "top_type (ps_heap st) = Some T_String"
      with quote ptr True assms(1) end_string_ok [OF inv(1)] inv(2) show ?thesis
        by (auto simp: string_section_def with_heap_def string_ops_ok Let_def after_string_def finished_def first_inv_def ctl_ok_def
            top_type_def work_def rank_def)
    next
      assume t: "top_type (ps_heap st) = Some T_Object"
      with quote ptr True assms(1) end_name_ok [OF inv(1)] inv(2) show ?thesis
        by (auto simp: string_section_def with_heap_def string_ops_ok Let_def first_inv_def ctl_ok_def intro!: work_advance)
    qed
  next
    case False
    have esc: "good js text (work text st) mid (Continue (advance (upd_flags (\<lambda>f. f\<lparr>fl_escaped := True\<rparr>) st)))" for mid
      using assms(1) ptr by (intro advance_good) (auto simp: first_inv_def)
    have add: "good js text (work text st) mid (with_heap st (string_add True bs (ps_heap st)) (\<lambda>st. Continue (advance st)))" for mid bs
      using assms(1) ptr
      by (simp add: with_heap_def string_ops_ok del: good_simps) (rule advance_good [where e = "fl_escaped (ps_flags st)"], auto simp: first_inv_def)
    from False True escape_section_good [OF assms(1) ptr] esc add show ?thesis by (simp add: string_section_def del: good_simps(3))
  qed
qed (auto simp: string_section_def after_string_def)

lemma good_advance:
  assumes "first_inv js text (advance st')" and "ps_ptr st \<le> ps_ptr st'"
  shows "good js text (work text st) mid (Continue (advance st'))"
proof -
  have "work text (advance st') < work text st"
    using assms by (intro work_advance) (auto simp: first_inv_def)
  with assms(1) show ?thesis by simp
qed

lemma skip_ws_good:
  assumes "first_inv js text st" and "ps_ptr st < length text"
  shows "good js text (work text st) mid (skip_ws b st)"
  unfolding skip_ws_def using assms by (intro good_advance) (auto simp: first_inv_def)

lemma comment_section_good:
  assumes "first_inv js text st" and "\<not> fl_string (ps_flags st)" and "b = (if ps_ptr st = length text then NUL else text ! ps_ptr st)"
  shows "good js text (work text st) (\<lambda>st'. st' = st \<and> (js_comments js \<longrightarrow> \<not> fl_line_comment (ps_flags st) \<and> \<not> fl_block_comment (ps_flags st)))
    (comment_section js text b st)"
proof -
  have ptr: "b \<noteq> NUL \<Longrightarrow> ps_ptr st < length text" using assms(1,3) by (auto simp: first_inv_def split: if_splits)
  have adv: "ps_ptr st' < length text \<Longrightarrow> ps_ptr st \<le> ps_ptr st' \<Longrightarrow> ps_heap st' = ps_heap st \<Longrightarrow>
      ps_flags st' = (ps_flags st)\<lparr>fl_line_comment := l, fl_block_comment := k\<rparr> \<Longrightarrow> js_comments js \<Longrightarrow>
      good js text (work text st) mid (Continue (advance st'))" for st' l k mid
    using assms(1,2) by (intro good_advance) (simp_all add: first_inv_def ctl_ok_same)
  note adv0 = adv [where l = "fl_line_comment (ps_flags st)" and k = "fl_block_comment (ps_flags st)"]
  note advl = adv [where k = "fl_block_comment (ps_flags st)"]
  note advb = adv [where l = "fl_line_comment (ps_flags st)"]
  have line: "good js text (work text st) mid (Continue (upd_flags (\<lambda>f. f\<lparr>fl_line_comment := False\<rparr>) st))" if "fl_line_comment (ps_flags st)" for mid
    using that assms(1,2) by (auto simp: first_inv_def ctl_ok_def work_def rank_def)
  show ?thesis
  proof (cases "js_comments js \<and> (fl_line_comment (ps_flags st) \<or> fl_block_comment (ps_flags st) \<or> b = CHR ''/'')")
    case False
    then show ?thesis by (auto simp: comment_section_def)
  next
    case True
    show ?thesis
    proof (cases "fl_line_comment (ps_flags st) \<or> fl_block_comment (ps_flags st)")
      case opened: True
      have stay: "good js text (work text st) mid (Continue (advance st))" if "b \<noteq> NUL" for mid
        by (rule adv0) (use True ptr [OF that] in simp_all)
      have close: "good js text (work text st) mid (Continue (advance (advance (upd_flags (\<lambda>f. f\<lparr>fl_block_comment := False\<rparr>) st))))"
        if "ps_ptr st + 1 < length text" for mid
        by (rule advb [where k = False]) (use True that in simp_all)
      from True opened stay close line show ?thesis
        by (cases "fl_line_comment (ps_flags st)") (simp_all add: comment_section_def del: good_simps(3))
    next
      case False
      with True have b: "b = CHR ''/''" by simp
      have line: "good js text (work text st) mid (Continue (advance (upd_flags (\<lambda>f. f\<lparr>fl_line_comment := True\<rparr>) (advance st))))"
        if "ps_ptr st + 1 < length text" for mid
        by (rule advl [where l = True]) (use True that in simp_all)
      have block: "good js text (work text st) mid (Continue (advance (upd_flags (\<lambda>f. f\<lparr>fl_block_comment := True\<rparr>) (advance st))))"
        if "ps_ptr st + 1 < length text" for mid
        by (rule advb [where k = True]) (use True that in simp_all)
      have "ps_ptr st + 1 \<noteq> length text \<Longrightarrow> ps_ptr st + 1 < length text" using ptr b by simp
      moreover have "fl_seek_value (ps_flags st) \<or> fl_done (ps_flags st) \<or> top_type (ps_heap st) \<noteq> None"
        using assms(1) by (auto simp: first_inv_def ctl_ok_def)
      ultimately show ?thesis
        using True False b line block by (auto simp: comment_section_def Let_def simp del: good_simps(3))
    qed
  qed
qed

text \<open>Inside a number the top stays an integer or becomes a double.\<close>

definition num_type :: "jtype option \<Rightarrow> bool" where
  "num_type t \<longleftrightarrow> t = Some T_Integer \<or> t = Some T_Double"

lemma put_ok:
  assumes "heap_ok (ps_heap st)" and "num_type (top_type (ps_heap st))"
  shows "heap_ok (ps_heap (put_int i st)) \<and> top_type (ps_heap (put_int i st)) = Some T_Integer \<and> h_top (ps_heap (put_int i st)) = h_top (ps_heap st)"
    "heap_ok (ps_heap (put_dbl d st)) \<and> top_type (ps_heap (put_dbl d st)) = Some T_Double \<and> h_top (ps_heap (put_dbl d st)) = h_top (ps_heap st)"
  using assms set_top_ok [OF assms(1), of "V_Integer i"] set_top_ok [OF assms(1), of "V_Double d"]
  by (auto simp: put_int_def put_dbl_def container_def top_type_def set_top_def set_node_def num_type_def)

lemma put_number_simps [simp]:
  "ps_flags (put_int i st) = ps_flags st" "ps_flags (put_dbl d st) = ps_flags st"
  "ps_ptr (put_int i st) = ps_ptr st" "ps_ptr (put_dbl d st) = ps_ptr st"
  "ps_line (put_int i st) = ps_line st" "ps_line (put_dbl d st) = ps_line st"
  "ps_num_digits (put_int i st) = ps_num_digits st" "ps_num_digits (put_dbl d st) = ps_num_digits st"
  by (simp_all add: put_int_def put_dbl_def)

text \<open>A state inside a number, before the character at its position is consumed.\<close>

definition in_number :: "json_settings \<Rightarrow> string \<Rightarrow> pst \<Rightarrow> bool" where
  "in_number js text st \<longleftrightarrow>
     first_inv js text st \<and> \<not> fl_string (ps_flags st) \<and> \<not> fl_done (ps_flags st) \<and> \<not> fl_seek_value (ps_flags st) \<and>
     num_type (top_type (ps_heap st))"

text \<open>Flags that agree but for those of numbers.\<close>

definition num_flags_eq :: "pflags \<Rightarrow> pflags \<Rightarrow> bool" where
  "num_flags_eq f g \<longleftrightarrow>
     fl_next f = fl_next g \<and> fl_reproc f = fl_reproc g \<and> fl_need_comma f = fl_need_comma g \<and> fl_seek_value f = fl_seek_value g \<and>
     fl_escaped f = fl_escaped g \<and> fl_string f = fl_string g \<and> fl_need_colon f = fl_need_colon g \<and> fl_done f = fl_done g \<and>
     fl_line_comment f = fl_line_comment g \<and> fl_block_comment f = fl_block_comment g"

lemma ctl_ok_num: "num_type t \<Longrightarrow> \<not> fl_string f \<Longrightarrow> \<not> fl_seek_value f \<Longrightarrow> \<not> fl_done f \<Longrightarrow> ctl_ok t f"
  by (auto simp: ctl_ok_def num_type_def)

lemma in_number_advance:
  assumes "in_number js text st" and "ps_ptr st < length text" and "ps_ptr st' = ps_ptr st" and "num_flags_eq (ps_flags st') (ps_flags st)"
    and "heap_ok (ps_heap st')" and "num_type (top_type (ps_heap st'))"
  shows "good js text (work text st) mid (Continue (advance st'))"
  using assms by (intro good_advance) (simp_all add: in_number_def first_inv_def ctl_ok_num num_flags_eq_def)

lemma is_int_simp: "ps_heap st = ps_heap st' \<Longrightarrow> is_int st = is_int st'"
  by (simp add: is_int_def)

lemma digit_section_good:
  assumes "in_number js text st" and "ps_ptr st < length text"
  shows "good js text (work text st) mid (digit_section fo b st)"
proof -
  have ok: "heap_ok (ps_heap st)" "num_type (top_type (ps_heap st))" using assms(1) by (simp_all add: in_number_def first_inv_def)
  let ?s = "st\<lparr>ps_num_digits := ps_num_digits st + 1\<rparr>"
  let ?z = "if ps_num_digits ?s = 1 \<and> b = CHR ''0'' then upd_flags (\<lambda>f. f\<lparr>fl_num_zero := True\<rparr>) ?s else ?s"
  have z: "ps_heap ?z = ps_heap st" "ps_ptr ?z = ps_ptr st" "num_flags_eq (ps_flags ?z) (ps_flags st)" by (simp_all add: num_flags_eq_def)
  note adv = in_number_advance [OF assms]
  have e: "good js text (work text st) mid
      (Continue (advance (upd_flags (\<lambda>f. f\<lparr>fl_num_e_got_sign := True\<rparr>) (?s\<lparr>ps_num_e := x\<rparr>))))" for x
    by (rule adv) (use ok in \<open>simp_all add: num_flags_eq_def\<close>)
  have i: "good js text (work text st) mid (Continue (advance (put_int n ?z)))" for n
    by (rule adv) (use z put_ok(1) [of ?z n] ok in \<open>simp_all add: num_type_def\<close>)
  have f: "good js text (work text st) mid (Continue (advance (?s\<lparr>ps_num_fraction := x\<rparr>)))" for x
    by (rule adv) (use ok in \<open>simp_all add: num_flags_eq_def\<close>)
  have d: "good js text (work text st) mid (Continue (advance (put_dbl x ?s)))" for x
    by (rule adv) (use put_ok(2) [of ?s x] ok in \<open>simp_all add: num_flags_eq_def num_type_def\<close>)
  have o: "good js text (work text st) mid (Continue (put_dbl x (?z\<lparr>ps_num_digits := k\<rparr>)))" if "is_int st" for x k
    using that z put_ok(2) [of "?z\<lparr>ps_num_digits := k\<rparr>" x] ok assms(1)
    by (simp add: in_number_def first_inv_def ctl_ok_num num_flags_eq_def num_type_def is_int_def work_def rank_def)
  have "is_int ?s = is_int st" by (simp add: is_int_def)
  with e i f d o show ?thesis unfolding digit_section_def Let_def by (simp del: good_simps(3))
qed

lemma finish_number_finished:
  assumes "in_number js text st0" and "heap_ok (ps_heap st)" and "num_type (top_type (ps_heap st))"
    and "ps_ptr st = ps_ptr st0" and "ps_flags st = ps_flags st0"
  shows "good js text (work text st0) (finished js text (work text st0)) (finish_number fo st)"
proof -
  let ?st = "if fl_num_negative (ps_flags st)
                then (if is_int st then put_int (- top_int st) st else put_dbl (fo_neg fo (top_dbl st)) st)
                else st"
  have "heap_ok (ps_heap ?st)" "h_top (ps_heap ?st) = h_top (ps_heap st)" "ps_flags ?st = ps_flags st" "ps_ptr ?st = ps_ptr st"
    using put_ok [OF assms(2,3)] assms(2) by simp_all
  moreover have "h_top (ps_heap st) \<noteq> None" using assms(3) by (auto simp: top_type_def num_type_def)
  ultimately show ?thesis
    using assms unfolding finish_number_def Let_def
    by (simp add: finished_def in_number_def first_inv_def work_def rank_def num_type_def) auto
qed

lemma end_number_good:
  assumes "in_number js text st" and "b \<noteq> NUL \<Longrightarrow> ps_ptr st < length text"
  shows "good js text (work text st) (finished js text (work text st)) (end_number fo b st)"
proof -
  have ok: "heap_ok (ps_heap st)" "num_type (top_type (ps_heap st))" using assms(1) by (simp_all add: in_number_def first_inv_def)
  let ?f = "if is_int st then st else put_dbl (fo_fraction fo (top_dbl st) (ps_num_fraction st) (ps_num_digits st)) st"
  let ?e = "if is_int ?f then put_dbl (fo_of_int fo (top_int ?f)) ?f else ?f"
  have f: "heap_ok (ps_heap ?f)" "num_type (top_type (ps_heap ?f))" "ps_ptr ?f = ps_ptr st" "ps_flags ?f = ps_flags st"
    using put_ok(2) [OF ok] ok by (simp_all add: num_type_def)
  have e: "heap_ok (ps_heap ?e)" "num_type (top_type (ps_heap ?e))" "ps_ptr ?e = ps_ptr st" "ps_flags ?e = ps_flags st"
    using put_ok(2) [OF f(1,2)] f by (simp_all add: num_type_def)
  have exp: "good js text (work text st) mid
      (Continue (advance (upd_flags (\<lambda>f. f\<lparr>fl_num_e := True, fl_num_zero := False\<rparr>) (?e\<lparr>ps_num_digits := 0\<rparr>))))" if "b \<noteq> NUL" for mid
    by (rule in_number_advance [OF assms(1) assms(2) [OF that]]) (use e in \<open>simp_all add: num_flags_eq_def\<close>)
  have fin: "good js text (work text st) (finished js text (work text st)) (finish_number fo ?f)"
    by (rule finish_number_finished [OF assms(1)]) (use f in simp_all)
  have scale: "good js text (work text st) (finished js text (work text st)) (finish_number fo (put_dbl x st))" for x
    by (rule finish_number_finished [OF assms(1)]) (use put_ok(2) [OF ok] in \<open>simp_all add: num_type_def\<close>)
  show ?thesis
    unfolding end_number_def Let_def using exp fin scale by (cases "is_int st") (simp_all del: good_simps(3))
qed

lemma number_section_good:
  assumes "in_number js text st" and "b \<noteq> NUL \<Longrightarrow> ps_ptr st < length text"
  shows "good js text (work text st) (finished js text (work text st)) (number_section fo b st)"
proof -
  have ok: "heap_ok (ps_heap st)" "num_type (top_type (ps_heap st))" using assms(1) by (simp_all add: in_number_def first_inv_def)
  have nul: "\<not> is_digit NUL" by (simp add: is_digit_def)
  note adv = in_number_advance [OF assms(1) assms(2)]
  have sign: "good js text (work text st) mid (Continue (advance (upd_flags (\<lambda>f. f\<lparr>fl_num_e_got_sign := True, fl_num_e_negative := n f\<rparr>) st)))"
    if "(b = CHR ''+'' \<or> b = CHR ''-'') \<and> P" for n mid P
    by (rule adv) (use ok that in \<open>auto simp: num_flags_eq_def\<close>)
  have dot: "good js text (work text st) mid (Continue (advance (put_dbl x
      (upd_flags (\<lambda>f. f\<lparr>fl_num_got_decimal := True\<rparr>) (st\<lparr>ps_num_digits := 0\<rparr>)))))"
    if "b = CHR ''.'' \<and> P" for x mid P
    by (rule adv) (use that put_ok(2) [of "upd_flags (\<lambda>f. f\<lparr>fl_num_got_decimal := True\<rparr>) (st\<lparr>ps_num_digits := 0\<rparr>)" x] ok in \<open>simp_all add: num_flags_eq_def num_type_def\<close>)
  have digit: "good js text (work text st) (finished js text (work text st)) (digit_section fo b st)" if "is_digit b"
    using that nul digit_section_good [OF assms(1) assms(2)] by metis
  show ?thesis
    unfolding number_section_def
    by (intro good_if good_simps(4)) (rule digit sign dot end_number_good [OF assms], blast?)+
qed

section \<open>Values and objects\<close>

lemma new_value_good:
  assumes "heap_ok (ps_heap st)" and "\<And>t. top_type (ps_heap st) = Some t \<Longrightarrow> container t"
    and "\<And>h. heap_ok h \<Longrightarrow> top_type h = Some t \<Longrightarrow> top_val h = zero_payload t \<Longrightarrow> good js text m mid (k (st\<lparr>ps_heap := h\<rparr>))"
  shows "good js text m mid (with_heap st (new_value True js t (ps_line st) (ps_heap st)) k)"
  by (rule good_heap) (use new_value_first_no_fault new_value_first_ok [OF _ assms(1,2)] assms(3) in blast)+

text \<open>Before a value: the flag to seek one has just been cleared.\<close>

definition at_value :: "json_settings \<Rightarrow> string \<Rightarrow> nat \<Rightarrow> pst \<Rightarrow> bool" where
  "at_value js text m st \<longleftrightarrow>
     heap_ok (ps_heap st) \<and> (\<forall>t. top_type (ps_heap st) = Some t \<longrightarrow> container t) \<and>
     (let f = ps_flags st
      in \<not> fl_next f \<and> \<not> fl_reproc f \<and> \<not> fl_string f \<and> \<not> fl_done f \<and> \<not> fl_seek_value f \<and> \<not> fl_need_comma f \<and> \<not> fl_need_colon f \<and>
         (js_comments js \<or> \<not> fl_line_comment f) \<and> \<not> fl_line_comment f \<and> \<not> fl_block_comment f) \<and>
     ps_ptr st \<le> length text \<and> m = 8 * (length text + 1 - ps_ptr st) + 3"

lemma literal_at_range: "literal_at text i w \<Longrightarrow> i + length w < length text"
  by (auto simp: literal_at_def)

text \<open>What the first character of a value leads to, for a new top of the right type.\<close>

lemma at_value_heap:
  assumes "at_value js text m st" and "heap_ok h" and "top_type h = Some t" and "t = T_String \<Longrightarrow> top_val h = V_String 0" and "ps_ptr st \<le> i" and "i < length text"
  shows at_value_object: "t = T_Object \<Longrightarrow> good js text m mid (Continue (advance (st\<lparr>ps_heap := h\<rparr>)))"
    and at_value_array: "t = T_Array \<Longrightarrow>
      good js text m mid (Continue (advance (upd_flags (\<lambda>f. f\<lparr>fl_seek_value := True\<rparr>) (st\<lparr>ps_heap := h\<rparr>))))"
    and at_value_string: "t = T_String \<Longrightarrow>
      good js text m mid (Continue (advance (upd_heap open_string (upd_flags (\<lambda>f. f\<lparr>fl_string := True\<rparr>) (st\<lparr>ps_heap := h\<rparr>)))))"
    and at_value_literal: "finished js text m (upd_flags (\<lambda>f. f\<lparr>fl_next := True\<rparr>) (st\<lparr>ps_ptr := i, ps_heap := h\<rparr>))"
    and at_value_number: "t = T_Integer \<Longrightarrow> good js text m (goes_on js text m) (start_number True text b (st\<lparr>ps_heap := h\<rparr>))"
proof -
  have "h_top h \<noteq> None" using assms(3) by (auto simp: top_type_def)
  with assms show "t = T_Object \<Longrightarrow> good js text m mid (Continue (advance (st\<lparr>ps_heap := h\<rparr>)))"
    "t = T_Array \<Longrightarrow> good js text m mid (Continue (advance (upd_flags (\<lambda>f. f\<lparr>fl_seek_value := True\<rparr>) (st\<lparr>ps_heap := h\<rparr>))))"
    "t = T_String \<Longrightarrow>
      good js text m mid (Continue (advance (upd_heap open_string (upd_flags (\<lambda>f. f\<lparr>fl_string := True\<rparr>) (st\<lparr>ps_heap := h\<rparr>)))))"
    "finished js text m (upd_flags (\<lambda>f. f\<lparr>fl_next := True\<rparr>) (st\<lparr>ps_ptr := i, ps_heap := h\<rparr>))"
    "t = T_Integer \<Longrightarrow> good js text m (goes_on js text m) (start_number True text b (st\<lparr>ps_heap := h\<rparr>))"
    by (simp_all add: at_value_def Let_def first_inv_def ctl_ok_def work_def rank_def string_ops_ok finished_def start_number_def goes_on_def) auto
qed

lemma begin_value_good:
  assumes "at_value js text m st" and "b \<noteq> NUL \<Longrightarrow> ps_ptr st < length text"
  shows "good js text m (\<lambda>st. finished js text m st \<or> goes_on js text m st) (begin_value True js text b st)"
proof -
  let ?mid = "\<lambda>st. finished js text m st \<or> goes_on js text m st"
  have v: "heap_ok (ps_heap st)" "\<And>t. top_type (ps_heap st) = Some t \<Longrightarrow> container t" using assms(1) by (auto simp: at_value_def)
  note av = at_value_heap [OF assms(1)]
  have new: "good js text m ?mid (with_heap (st\<lparr>ps_ptr := i\<rparr>) (new_value True js t (ps_line (st\<lparr>ps_ptr := i\<rparr>)) (ps_heap (st\<lparr>ps_ptr := i\<rparr>))) k)"
    if "\<And>h. heap_ok h \<Longrightarrow> top_type h = Some t \<Longrightarrow> top_val h = zero_payload t \<Longrightarrow> good js text m ?mid (k (st\<lparr>ps_ptr := i, ps_heap := h\<rparr>))" for t k i
    using new_value_good [of "st\<lparr>ps_ptr := i\<rparr>" t js "text" m ?mid k] v that by simp
  note new0 = new [where i = "ps_ptr st", simplified]
  have nul: "\<not> is_digit NUL" by (simp add: is_digit_def)
  have lit: "good js text m ?mid (Fall (upd_flags (\<lambda>f. f\<lparr>fl_next := True\<rparr>) (st\<lparr>ps_ptr := i, ps_heap := h\<rparr>)))"
    if "heap_ok h" "top_type h = Some t" "t \<noteq> T_String" "ps_ptr st \<le> i" "i < length text" for h t i
    using at_value_literal [OF assms(1) that(1,2) _ that(4,5)] that(3) by simp
  have num: "good js text m ?mid (start_number True text b (st\<lparr>ps_heap := h\<rparr>))"
    if "heap_ok h" "top_type h = Some T_Integer" "b \<noteq> NUL" for h
    using at_value_number [OF assms(1) that(1,2) _ order_refl assms(2) [OF that(3)] refl, of b]
    by (rule good_mono) simp_all
  have bool: "heap_ok (set_top (V_Boolean 1) h) \<and> top_type (set_top (V_Boolean 1) h) = Some T_Boolean"
    if "heap_ok h" "top_type h = Some T_Boolean" for h
    using set_top_ok [OF that(1), of "V_Boolean 1"] that(2) by (auto simp: container_def top_type_def)
  show ?thesis
  proof (cases "b = NUL")
    case False
    note i = order_refl assms(2) [OF False]
    let ?new = "\<lambda>t st. with_heap st (new_value True js t (ps_line st) (ps_heap st))"
    let ?next = "upd_flags (\<lambda>f. f\<lparr>fl_next := True\<rparr>)"
    have obj: "good js text m ?mid (?new T_Object st (\<lambda>st. Continue (advance st)))"
      by (rule new0) (rule av(1) [OF _ _ _ i refl], simp_all)
    have arr: "good js text m ?mid (?new T_Array st (\<lambda>st. Continue (advance (upd_flags (\<lambda>f. f\<lparr>fl_seek_value := True\<rparr>) st))))"
      by (rule new0) (rule av(2) [OF _ _ _ i refl], simp_all)
    have str: "good js text m ?mid (?new T_String st
        (\<lambda>st. Continue (advance (upd_heap open_string (upd_flags (\<lambda>f. f\<lparr>fl_string := True\<rparr>) st)))))"
      by (rule new0) (rule av(3) [OF _ _ _ i refl], simp_all)
    have tru: "good js text m ?mid (?new T_Boolean (st\<lparr>ps_ptr := k\<rparr>) (\<lambda>st. Fall (?next (upd_heap (set_top (V_Boolean 1)) st))))"
      if "ps_ptr st \<le> k" "k < length text" for k
      by (rule new) (use lit [OF _ _ _ that] bool in \<open>simp add: upd_heap_def\<close>)
    have fls: "good js text m ?mid (?new t (st\<lparr>ps_ptr := k\<rparr>) (\<lambda>st. Fall (?next st)))" if "ps_ptr st \<le> k" "k < length text" "t \<noteq> T_String" for t k
      by (rule new) (use lit [OF _ _ that(3,1,2)] in simp)
    have number: "good js text m ?mid (?new T_Integer st (start_number True text b))"
      by (rule new0) (rule num [OF _ _ False])
    have "good js text m ?mid (if \<not> literal_at text (ps_ptr st) w then fail st E_Unknown_Value else x)"
      if "ps_ptr st + length w < length text \<Longrightarrow> good js text m ?mid x" for w x
      using that by (auto dest: literal_at_range)
    note lits = this [of "''rue''"] this [of "''alse''"] this [of "''ull''"]
    show ?thesis
      unfolding begin_value_def Let_def
      by (intro good_if [where x = "?new _ _ _"] good_if [of "_ = _"] lits obj arr str tru fls number good_simps(4)) simp_all
  qed (use nul in \<open>simp add: begin_value_def Let_def\<close>)
qed

definition value_mid :: "json_settings \<Rightarrow> string \<Rightarrow> nat \<Rightarrow> pst \<Rightarrow> bool" where
  "value_mid js text m st \<longleftrightarrow> finished js text m st \<or> goes_on js text m st"

lemma seek_section_good:
  assumes "first_inv js text st" and "fl_seek_value (ps_flags st)" and "b \<noteq> NUL \<Longrightarrow> ps_ptr st < length text"
    and "\<not> fl_line_comment (ps_flags st)" and "\<not> fl_block_comment (ps_flags st)"
  shows "good js text (work text st) (value_mid js text (work text st)) (seek_section True js text b st)"
proof -
  have c: "\<not> fl_string (ps_flags st)" "\<not> fl_done (ps_flags st)" "heap_ok (ps_heap st)" "\<not> fl_next (ps_flags st)" "\<not> fl_reproc (ps_flags st)"
    using assms(1,2) by (auto simp: first_inv_def ctl_ok_def)
  have close: "value_mid js text (work text st)
      (upd_flags (\<lambda>f. f\<lparr>fl_need_comma := False, fl_seek_value := False, fl_next := True\<rparr>) st)" if "b \<noteq> NUL" "top_type (ps_heap st) = Some T_Array"
    using assms c that by (auto simp: value_mid_def finished_def top_type_def work_def rank_def)
  have skip: "good js text (work text st) mid (Continue (advance (upd_flags g st)))"
    if "b \<noteq> NUL" "g = (\<lambda>f. f\<lparr>fl_need_comma := False\<rparr>) \<or> g = (\<lambda>f. f\<lparr>fl_need_colon := False\<rparr>)" for g mid
    using that(2) by (elim disjE; intro good_advance) (use assms(1) assms(3) [OF that(1)] in \<open>simp_all add: first_inv_def ctl_ok_same\<close>)
  have val: "good js text (work text st) (value_mid js text (work text st))
      (begin_value True js text b (upd_flags (\<lambda>f. f\<lparr>fl_seek_value := False\<rparr>) st))"
    if "\<not> fl_need_comma (ps_flags st)" "\<not> fl_need_colon (ps_flags st)"
    unfolding value_mid_def
    by (rule begin_value_good) (use assms c that in \<open>auto simp: at_value_def first_inv_def ctl_ok_def container_def work_def rank_def\<close>)
  have ws: "is_ws b \<Longrightarrow> b \<noteq> NUL" by (auto simp: is_ws_def)
  show ?thesis
    unfolding seek_section_def
    using ws assms(3) skip_ws_good [OF assms(1)] close skip val by (auto simp del: good_simps(3))
qed

lemma object_section_good:
  assumes "first_inv js text st" and "\<not> fl_string (ps_flags st)" "\<not> fl_done (ps_flags st)" "\<not> fl_seek_value (ps_flags st)"
    and "top_type (ps_heap st) = Some T_Object" and "b \<noteq> NUL \<Longrightarrow> ps_ptr st < length text"
    and "\<not> fl_line_comment (ps_flags st)" and "\<not> fl_block_comment (ps_flags st)"
  shows "good js text (work text st) (value_mid js text (work text st)) (object_section b st)"
proof -
  have ws: "is_ws b \<Longrightarrow> b \<noteq> NUL" by (auto simp: is_ws_def)
  have "value_mid js text (work text st) (upd_flags (\<lambda>f. f\<lparr>fl_need_comma := False, fl_next := True\<rparr>) st)" if "b \<noteq> NUL"
    using assms that by (auto simp: value_mid_def finished_def top_type_def first_inv_def work_def rank_def)
  moreover have "value_mid js text (work text st) (upd_flags (\<lambda>f. f\<lparr>fl_need_comma := False\<rparr>) st)" if "b \<noteq> NUL"
    using assms that by (simp add: value_mid_def goes_on_def first_inv_def ctl_ok_def work_def rank_def) linarith
  moreover have "value_mid js text (work text st) (upd_heap open_name (upd_flags (\<lambda>f. f\<lparr>fl_string := True\<rparr>) st))" if "b \<noteq> NUL"
    using assms that by (simp add: value_mid_def goes_on_def first_inv_def ctl_ok_def work_def rank_def string_ops_ok) linarith
  ultimately show ?thesis
    using ws assms(6) skip_ws_good [OF assms(1)] by (auto simp: object_section_def simp del: good_simps(3))
qed

lemma value_section_good:
  assumes "first_inv js text st" and "\<not> fl_string (ps_flags st)" and "\<not> fl_done (ps_flags st)" and "b \<noteq> NUL \<Longrightarrow> ps_ptr st < length text"
    and "\<not> fl_line_comment (ps_flags st)" and "\<not> fl_block_comment (ps_flags st)"
  shows "good js text (work text st) (value_mid js text (work text st)) (value_section True js fo text b st)"
proof (cases "fl_seek_value (ps_flags st)")
  case True
  with seek_section_good [OF assms(1) True assms(4-6)] show ?thesis by (simp add: value_section_def)
next
  case False
  have num: "good js text (work text st) (value_mid js text (work text st)) (number_section fo b st)" if "num_type (top_type (ps_heap st))"
  proof -
    have "in_number js text st" unfolding in_number_def using that assms(1-3) False by blast
    from number_section_good [OF this assms(4)] show ?thesis by (rule good_mono) (simp_all add: value_mid_def)
  qed
  have "top_type (ps_heap st) = Some T_Object \<or> num_type (top_type (ps_heap st))"
    using assms(1-3) False by (auto simp: first_inv_def ctl_ok_def num_type_def)
  then show ?thesis
  proof
    assume "top_type (ps_heap st) = Some T_Object"
    with object_section_good [OF assms(1-3) False this assms(4-6)] False show ?thesis by (simp add: value_section_def)
  next
    assume n: "num_type (top_type (ps_heap st))"
    with num [OF n] False show ?thesis by (auto simp: value_section_def num_type_def simp del: good_simps)
  qed
qed

lemma then_flow_skip [simp]: "then_flow (skip_ws b st) g = skip_ws b st" "then_flow (fail st e) g = fail st e"
  by (simp_all add: then_flow_def skip_ws_def fail_def)

text \<open>A turn is the string section followed by the rest.\<close>

definition after_section :: "bool \<Rightarrow> json_settings \<Rightarrow> float_ops \<Rightarrow> string \<Rightarrow> char \<Rightarrow> pst \<Rightarrow> flow" where
  "after_section first_pass js fo text b st =
     then_flow (comment_section js text b st) (\<lambda>st.
       then_flow (done_section b st) (\<lambda>st. then_flow (value_section first_pass js fo text b st) next_section))"

lemma parse_step_sections:
  "ps_ptr st \<le> length text \<Longrightarrow> b = (if ps_ptr st = length text then NUL else text ! ps_ptr st) \<Longrightarrow>
   parse_step first_pass js fo text st = then_flow (string_section first_pass text b st) (after_section first_pass js fo text b)"
  by (simp add: parse_step_def after_section_def [abs_def] Let_def cong: if_cong)

lemma first_done_good:
  assumes "first_inv js text st" and "b \<noteq> NUL \<Longrightarrow> ps_ptr st < length text"
    and "\<not> fl_string (ps_flags st)" "\<not> fl_line_comment (ps_flags st)" "\<not> fl_block_comment (ps_flags st)"
  shows "good js text (work text st) (\<lambda>_. False)
    (then_flow (done_section b st) (\<lambda>st. then_flow (value_section True js fo text b st) next_section))"
proof (cases "fl_done (ps_flags st)")
  case True
  have brk: "good js text (work text st) mid (Break st)" for mid using assms(1) True by (simp add: good_def)
  have "is_ws b \<Longrightarrow> b \<noteq> NUL" by (auto simp: is_ws_def)
  with True assms(2) skip_ws_good [OF assms(1)] brk show ?thesis
    by (simp add: done_section_def) (simp add: then_flow_def)
next
  case False
  have "good js text (work text st) (\<lambda>_. False) (then_flow (value_section True js fo text b st) next_section)"
    by (rule good_then [OF value_section_good [OF assms(1,3) False _ assms(4,5)]], erule assms(2), rule next_section_good)
      (simp add: value_mid_def)
  with False show ?thesis by (simp add: done_section_def then_flow_def)
qed

lemma first_after_good:
  assumes "first_inv js text st" and b: "b = (if ps_ptr st = length text then NUL else text ! ps_ptr st)"
    and "after_string js text st b st'"
  shows "good js text (work text st) (\<lambda>_. False) (after_section True js fo text b st')"
proof -
  have "b \<noteq> NUL \<Longrightarrow> ps_ptr st < length text" using assms(1) b by (auto simp: first_inv_def split: if_splits)
  note rest = first_done_good [OF assms(1) this]
  from assms(3) show ?thesis
    unfolding after_string_def
  proof (elim disjE conjE)
    assume st: "st' = st" "\<not> fl_string (ps_flags st')"
    have "\<not> js_comments js \<Longrightarrow> \<not> fl_line_comment (ps_flags st) \<and> \<not> fl_block_comment (ps_flags st)"
      using assms(1) by (auto simp: first_inv_def)
    with st rest show ?thesis
      unfolding after_section_def st(1)
      by (intro good_then [OF comment_section_good [OF assms(1) _ b]]) auto
  next
    assume q: "b = CHR 0x22" "finished js text (work text st) st'" "top_type (ps_heap st') = Some T_String"
      "\<not> fl_line_comment (ps_flags st')" "\<not> fl_block_comment (ps_flags st')"
    then have "after_section True js fo text b st' = next_section st'"
      by (simp add: after_section_def comment_section_def done_section_def value_section_def then_flow_def finished_def Let_def)
    with next_section_good [of js "text" "work text st" st'] q(2) show ?thesis by simp
  qed
qed

lemma first_step_good:
  assumes "first_inv js text st"
  shows "good js text (work text st) (\<lambda>_. False) (parse_step True js fo text st)"
proof -
  define b where "b = (if ps_ptr st = length text then NUL else text ! ps_ptr st)"
  have "ps_ptr st \<le> length text" using assms by (simp add: first_inv_def)
  from parse_step_sections [OF this b_def] show ?thesis
    using good_then [OF string_section_good [OF assms b_def] first_after_good [OF assms b_def]] by simp
qed

section \<open>The first pass ends\<close>

lemma first_pass_ends:
  assumes "first_inv js text st"
  shows "\<exists>r. parse_loop True js fo text st = Some r \<and> (\<forall>f. r \<noteq> Inl (P_Fault f)) \<and>
    (\<forall>st'. r = Inr st' \<longrightarrow> first_inv js text st' \<and> fl_done (ps_flags st'))"
  using assms
proof (induction "work text st" arbitrary: st rule: less_induct)
  case less
  show ?case
  proof (cases "parse_step True js fo text st")
    case (Continue st')
    with first_step_good [OF less.prems, of fo] have "first_inv js text st'" "work text st' < work text st" by simp_all
    from less.hyps [OF this(2,1)] Continue show ?thesis by (simp add: parse_loop.simps [of True js fo "text" st])
  qed (use first_step_good [OF less.prems, of fo] in \<open>auto simp: parse_loop.simps [of True js fo "text" st] good_def\<close>)
qed

end
