(* ===== verification/Json_Counts.thy ===== *)
theory Json_Counts
  imports Json_First_Pass
begin

text \<open>
  What the first pass counts only grows: at every moment the values created so far are
  within the sizes they have at the end, with room for every entry, name and string that is
  still open. This is what the second pass relies on when it allocates.
\<close>

section \<open>What the first pass counts only grows\<close>

text \<open>The values above the top, whose last element or entry is still open.\<close>

function chain :: "node list \<Rightarrow> nat \<Rightarrow> nat list" where
  "chain ns i = (case nd_parent (ns ! i) of None \<Rightarrow> [] | Some p \<Rightarrow> if p < i then p # chain ns p else [])"
  by pat_completeness auto
termination by (relation "measure snd") auto

declare chain.simps [simp del]

fun cnt :: "payload \<Rightarrow> nat" where
  "cnt (V_Array n) = n"
| "cnt (V_Object n m) = n"
| "cnt _ = 0"

fun le_payload :: "payload \<Rightarrow> payload \<Rightarrow> bool" where
  "le_payload V_Null w = (w = V_Null)"
| "le_payload (V_Boolean b) w = (\<exists>b'. w = V_Boolean b' \<and> (b = 0 \<or> b' = b))"
| "le_payload (V_Integer i) w = (payload_type w = T_Integer \<or> payload_type w = T_Double)"
| "le_payload (V_Double x) w = (payload_type w = T_Double)"
| "le_payload (V_String n) w = (\<exists>n'. w = V_String n' \<and> n \<le> n')"
| "le_payload (V_Array n) w = (\<exists>n'. w = V_Array n' \<and> n \<le> n')"
| "le_payload (V_Object n m) w = (\<exists>n' m'. w = V_Object n' m' \<and> n \<le> n' \<and> m \<le> m')"
| "le_payload _ w = False"

definition open_above :: "pheap \<Rightarrow> nat list" where
  "open_above h = (case h_top h of None \<Rightarrow> [] | Some i \<Rightarrow> chain (h_nodes h) i)"

text \<open>
  The state of the first pass is on the way to the final values \<open>H\<close>: what it has counted
  so far is within what \<open>H\<close> has, with room for the entries and bytes that are open.
\<close>

definition sized :: "node list \<Rightarrow> node list \<Rightarrow> bool" where
  "sized H ns \<longleftrightarrow> length ns \<le> length H \<and>
     (\<forall>i < length ns. nd_parent (H ! i) = nd_parent (ns ! i) \<and> le_payload (nd_val (ns ! i)) (nd_val (H ! i)))"

definition chain_room :: "node list \<Rightarrow> pheap \<Rightarrow> bool" where
  "chain_room H h \<longleftrightarrow> (\<forall>p \<in> set (open_above h). cnt (nd_val (h_nodes h ! p)) < cnt (nd_val (H ! p)))"

definition entry_room :: "node list \<Rightarrow> pflags \<Rightarrow> pheap \<Rightarrow> bool" where
  "entry_room H f h \<longleftrightarrow>
     (\<forall>i n m. h_top h = Some i \<and> nd_val (h_nodes h ! i) = V_Object n m \<and> (fl_seek_value f \<or> fl_string f) \<longrightarrow> n < cnt (nd_val (H ! i)))"

definition name_room :: "node list \<Rightarrow> pflags \<Rightarrow> pheap \<Rightarrow> bool" where
  "name_room H f h \<longleftrightarrow>
     (\<forall>i n m. h_top h = Some i \<and> nd_val (h_nodes h ! i) = V_Object n m \<and> fl_string f \<longrightarrow>
        (\<exists>n' m'. nd_val (H ! i) = V_Object n' m' \<and> m + h_strlen h + 1 \<le> m'))"

definition string_room :: "node list \<Rightarrow> pflags \<Rightarrow> pheap \<Rightarrow> bool" where
  "string_room H f h \<longleftrightarrow>
     (\<forall>i n. h_top h = Some i \<and> nd_val (h_nodes h ! i) = V_String n \<and> fl_string f \<longrightarrow>
        (\<exists>n'. nd_val (H ! i) = V_String n' \<and> h_strlen h \<le> n'))"

definition fits :: "node list \<Rightarrow> pst \<Rightarrow> bool" where
  "fits H st \<longleftrightarrow>
     sized H (h_nodes (ps_heap st)) \<and> chain_room H (ps_heap st) \<and> entry_room H (ps_flags st) (ps_heap st) \<and>
     name_room H (ps_flags st) (ps_heap st) \<and> string_room H (ps_flags st) (ps_heap st)"

definition grows :: "pst \<Rightarrow> pst \<Rightarrow> bool" where
  "grows st st' \<longleftrightarrow> (\<forall>H. fits H st' \<longrightarrow> fits H st)"

lemma grows_refl [simp]: "grows st st"
  by (simp add: grows_def)

lemma grows_trans: "grows st st' \<Longrightarrow> grows st' st'' \<Longrightarrow> grows st st''"
  by (simp add: grows_def)

lemma chain_update: "i < length ns \<Longrightarrow> nd_parent n = nd_parent (ns ! i) \<Longrightarrow> chain (ns[i := n]) k = chain ns k"
proof (induction ns k rule: chain.induct)
  case (1 ns k)
  have "nd_parent (ns[i := n] ! k) = nd_parent (ns ! k)" using 1(2,3) by (cases "k = i") auto
  with 1 show ?case by (simp add: chain.simps [of _ k] split: option.split)
qed

lemma chain_append: "k < length ns \<Longrightarrow> chain (ns @ xs) k = chain ns k"
proof (induction ns k rule: chain.induct)
  case (1 ns k)
  then show ?case by (simp add: chain.simps [of _ k] nth_append split: option.split)
qed

lemma chain_less: "p \<in> set (chain ns i) \<Longrightarrow> p < i"
proof (induction ns i rule: chain.induct)
  case (1 ns i)
  from 1(2) show ?case
    unfolding chain.simps [of ns i] using 1(1) by (auto split: option.splits if_splits) (metis less_trans)
qed

lemma open_above_simps:
  "open_above (h\<lparr>h_room := r\<rparr>) = open_above h" "open_above (h\<lparr>h_buf := bf\<rparr>) = open_above h" "open_above (h\<lparr>h_strlen := n\<rparr>) = open_above h"
  by (simp_all add: open_above_def split: option.split)

lemma open_above_set_node: "i < length (h_nodes h) \<Longrightarrow> open_above (set_node i v h) = open_above h"
  by (simp add: open_above_def set_node_def chain_update split: option.split)

text \<open>Only the position or flags that do not matter change, or the string gets longer.\<close>

lemma grows_same:
  assumes "h_nodes (ps_heap st') = h_nodes (ps_heap st)" and "h_top (ps_heap st') = h_top (ps_heap st)"
    and "fl_string (ps_flags st) \<Longrightarrow> fl_string (ps_flags st') \<and> h_strlen (ps_heap st) \<le> h_strlen (ps_heap st')"
    and "fl_seek_value (ps_flags st) \<Longrightarrow> top_type (ps_heap st) = Some T_Object \<Longrightarrow> fl_seek_value (ps_flags st') \<or> fl_string (ps_flags st')"
  shows "grows st st'"
proof -
  have open_above: "open_above (ps_heap st') = open_above (ps_heap st)" using assms(1,2) by (simp add: open_above_def split: option.split)
  show ?thesis
    unfolding grows_def
  proof (intro allI impI)
    fix H
    assume f: "fits H st'"
    have obj: "h_top (ps_heap st) = Some i \<Longrightarrow> nd_val (h_nodes (ps_heap st) ! i) = V_Object n m \<Longrightarrow> top_type (ps_heap st) = Some T_Object" for i n m
      by (simp add: top_type_def)
    have seek: "fl_seek_value (ps_flags st') \<or> fl_string (ps_flags st')"
      if "h_top (ps_heap st) = Some i" "nd_val (h_nodes (ps_heap st) ! i) = V_Object n m" "fl_seek_value (ps_flags st) \<or> fl_string (ps_flags st)" for i n m
      using obj [OF that(1,2)] that(3) assms(3,4) by blast
    have "chain_room H (ps_heap st)" using f open_above assms(1) by (simp add: fits_def chain_room_def)
    moreover have "entry_room H (ps_flags st) (ps_heap st)"
      using f seek assms(1,2) unfolding fits_def entry_room_def by metis
    moreover have "name_room H (ps_flags st) (ps_heap st)"
      using f assms(1-3) unfolding fits_def name_room_def by (metis add_le_mono1 nat_add_left_cancel_le order.trans)
    moreover have "string_room H (ps_flags st) (ps_heap st)"
      using f assms(1-3) unfolding fits_def string_room_def by (metis order.trans)
    ultimately show "fits H st" using f assms(1) by (simp add: fits_def)
  qed
qed

lemma top_typeD: "top_type h = Some t \<Longrightarrow> \<exists>i. h_top h = Some i \<and> payload_type (nd_val (h_nodes h ! i)) = t"
  by (auto simp: top_type_def)

lemma le_payload_refl: "counting v \<Longrightarrow> le_payload v v"
  by (cases v) auto

lemma le_payload_trans: "le_payload u v \<Longrightarrow> le_payload v w \<Longrightarrow> le_payload u w"
  by (cases u; cases v) auto

lemma cnt_le: "le_payload v w \<Longrightarrow> cnt v \<le> cnt w"
  by (cases v) auto

text \<open>One value changes to a larger one, the top stays.\<close>

lemma grows_set_top:
  assumes "heap_ok (ps_heap st)" and "h_top (ps_heap st) = Some i"
    and "ps_heap st' = set_node i v h" and "h_nodes h = h_nodes (ps_heap st)" and "h_top h = h_top (ps_heap st)"
    and "le_payload (nd_val (h_nodes (ps_heap st) ! i)) v"
    and "\<And>H n m. fits H st' \<Longrightarrow> nd_val (h_nodes (ps_heap st) ! i) = V_Object n m \<Longrightarrow> fl_seek_value (ps_flags st) \<or> fl_string (ps_flags st) \<Longrightarrow>
      n < cnt (nd_val (H ! i))"
    and "\<And>n m. nd_val (h_nodes (ps_heap st) ! i) = V_Object n m \<Longrightarrow> fl_string (ps_flags st) \<Longrightarrow>
      \<exists>n' m'. v = V_Object n' m' \<and> m + h_strlen (ps_heap st) + 1 \<le> m'"
    and "\<And>n. nd_val (h_nodes (ps_heap st) ! i) = V_String n \<Longrightarrow> fl_string (ps_flags st) \<Longrightarrow>
      \<exists>n'. v = V_String n' \<and> h_strlen (ps_heap st) \<le> n'"
  shows "grows st st'"
  unfolding grows_def
proof (intro allI impI)
  fix H
  assume f: "fits H st'"
  let ?ns = "h_nodes (ps_heap st)"
  have i: "i < length ?ns" using assms(1,2) by (simp add: heap_ok_def)
  have ns': "h_nodes (ps_heap st') = ?ns[i := (?ns ! i)\<lparr>nd_val := v\<rparr>]" using assms(3,4) by (simp add: set_node_def)
  have ab: "open_above (ps_heap st') = open_above (ps_heap st)"
    using assms(2-5) i by (simp add: open_above_def set_node_def chain_update)
  have nab: "p \<noteq> i" "p < i" if "p \<in> set (open_above (ps_heap st))" for p
    using that assms(2) chain_less by (auto simp: open_above_def)
  have vH: "le_payload v (nd_val (H ! i))" "nd_parent (H ! i) = nd_parent (?ns ! i)" "length ?ns \<le> length H"
    using f ns' i by (auto simp: fits_def sized_def)
  have le: "nd_parent (H ! k) = nd_parent (?ns ! k) \<and> le_payload (nd_val (?ns ! k)) (nd_val (H ! k))" if "k < length ?ns" for k
  proof (cases "k = i")
    case True
    with vH assms(6) le_payload_trans show ?thesis by blast
  next
    case False
    with f ns' that show ?thesis by (auto simp: fits_def sized_def)
  qed
  have "chain_room H (ps_heap st)" using f ns' ab nab(1) by (simp add: fits_def chain_room_def) (metis nth_list_update_neq)
  moreover have "entry_room H (ps_flags st) (ps_heap st)" using assms(2) assms(7) [OF f] by (auto simp: entry_room_def)
  moreover have "name_room H (ps_flags st) (ps_heap st)"
  proof -
    have "\<exists>n' m'. nd_val (H ! i) = V_Object n' m' \<and> m + h_strlen (ps_heap st) + 1 \<le> m'"
      if "nd_val (?ns ! i) = V_Object n m" "fl_string (ps_flags st)" for n m
      using assms(8) [OF that] vH(1) by auto
    with assms(2) show ?thesis unfolding name_room_def by auto
  qed
  moreover have "string_room H (ps_flags st) (ps_heap st)"
  proof -
    have "\<exists>n'. nd_val (H ! i) = V_String n' \<and> h_strlen (ps_heap st) \<le> n'"
      if "nd_val (?ns ! i) = V_String n" "fl_string (ps_flags st)" for n
      using assms(9) [OF that] vH(1) by auto
    with assms(2) show ?thesis unfolding string_room_def by auto
  qed
  ultimately show "fits H st" using le vH(3) by (simp add: fits_def sized_def)
qed

lemma new_value_first_heap:
  assumes "new_value True js t line h = Inr h'"
  shows "h_nodes h' = h_nodes h @ [\<lparr>nd_parent = h_top h, nd_val = zero_payload t\<rparr>] \<and> h_top h' = Some (length (h_nodes h)) \<and>
    h_strlen h' = h_strlen h \<and> h_root h' = (if h_root h = None then Some (length (h_nodes h)) else h_root h)"
proof -
  obtain ok h1 where al: "json_alloc js (40 + js_value_extra js) h = (ok, h1)" by fastforce
  from json_alloc_fields [OF this] assms al show ?thesis
    by (auto simp: new_value_def new_value_first_def Let_def split: if_splits)
qed

lemma sized_append: "sized H (ns @ xs) \<Longrightarrow> sized H ns"
proof -
  assume s: "sized H (ns @ xs)"
  have "(ns @ xs) ! i = ns ! i" if "i < length ns" for i using that by (simp add: nth_append)
  with s show ?thesis unfolding sized_def by (metis length_append le_add1 order.trans trans_less_add1)
qed

lemma grows_new_value:
  assumes "heap_ok (ps_heap st)" and "new_value True js t line (ps_heap st) = Inr h'"
    and "h_nodes (ps_heap st') = h_nodes h'" and "h_top (ps_heap st') = h_top h'" and "\<not> fl_string (ps_flags st)"
    and "\<And>t. top_type (ps_heap st) = Some t \<Longrightarrow> container t"
  shows "grows st st'"
  unfolding grows_def
proof (intro allI impI)
  fix H
  assume f: "fits H st'"
  let ?ns = "h_nodes (ps_heap st)"
  note h' = new_value_first_heap [OF assms(2)]
  have ns': "h_nodes (ps_heap st') = ?ns @ [\<lparr>nd_parent = h_top (ps_heap st), nd_val = zero_payload t\<rparr>]" "h_top (ps_heap st') = Some (length ?ns)"
    using h' assms(3,4) by auto
  have sz: "sized H ?ns" using f ns'(1) sized_append by (fastforce simp: fits_def)
  show "fits H st"
  proof (cases "h_top (ps_heap st)")
    case None
    with sz assms(5) show ?thesis by (simp add: fits_def chain_room_def open_above_def entry_room_def name_room_def string_room_def)
  next
    case (Some i)
    have i: "i < length ?ns" using assms(1) Some by (simp add: heap_ok_def)
    have ch: "open_above (ps_heap st') = i # open_above (ps_heap st)"
      using ns' Some i by (simp add: open_above_def chain.simps [of _ "length ?ns"] chain_append)
    have room: "cnt (nd_val (?ns ! p)) < cnt (nd_val (H ! p))" if "p = i \<or> p \<in> set (open_above (ps_heap st))" for p
    proof -
      have "p < length ?ns" using that i Some chain_less [of p ?ns i] by (auto simp: open_above_def)
      moreover have "cnt (nd_val (h_nodes (ps_heap st') ! p)) < cnt (nd_val (H ! p))" using f ch that by (auto simp: fits_def chain_room_def)
      ultimately show ?thesis using ns' by (simp add: nth_append)
    qed
    then have "chain_room H (ps_heap st)" by (simp add: chain_room_def)
    moreover have "entry_room H (ps_flags st) (ps_heap st)"
      unfolding entry_room_def using room [of i] Some by (metis cnt.simps(2) option.inject)
    ultimately show ?thesis using sz assms(5) by (simp add: fits_def name_room_def string_room_def)
  qed
qed

lemma grows_link:
  assumes "heap_ok (ps_heap st)" and "h_top (ps_heap st) = Some i" and "top_parent (ps_heap st) = Some p"
    and "link_value line i p (ps_heap st) = Inr h'" and "ps_heap st' = h'" and "\<not> fl_string (ps_flags st)" and "\<not> fl_seek_value (ps_flags st)"
  shows "grows st st'"
  unfolding grows_def
proof (intro allI impI)
  fix H
  assume f: "fits H st'"
  let ?ns = "h_nodes (ps_heap st)"
  have i: "i < length ?ns" "nd_parent (?ns ! i) = Some p" using assms(1-3) by (auto simp: heap_ok_def top_parent_def)
  with assms(1) have p: "p < i" "container (node_type ?ns p)" by (auto simp: heap_ok_def nodes_ok_def)
  with i(1) have pl: "p < length ?ns" by simp
  with assms(1) have cp: "counting (nd_val (?ns ! p))" by (simp add: heap_ok_def nodes_ok_def)
  obtain v where v: "h' = (set_node p v (ps_heap st))\<lparr>h_top := Some p\<rparr>" "le_payload (nd_val (?ns ! p)) v" "cnt v = Suc (cnt (nd_val (?ns ! p)))"
    using assms(4) p(2) cp
    by (cases "nd_val (?ns ! p)") (auto simp: link_value_def container_def node_type_def split: if_splits)
  have ns': "h_nodes (ps_heap st') = ?ns[p := (?ns ! p)\<lparr>nd_val := v\<rparr>]" "h_top (ps_heap st') = Some p"
    using v assms(5) by (simp_all add: set_node_def)
  have vH: "le_payload v (nd_val (H ! p))" "nd_parent (H ! p) = nd_parent (?ns ! p)" "length ?ns \<le> length H"
    using f ns' pl by (auto simp: fits_def sized_def)
  have le: "nd_parent (H ! k) = nd_parent (?ns ! k) \<and> le_payload (nd_val (?ns ! k)) (nd_val (H ! k))" if "k < length ?ns" for k
  proof (cases "k = p")
    case True
    with vH v(2) le_payload_trans show ?thesis by blast
  next
    case False
    with f ns' that show ?thesis by (auto simp: fits_def sized_def)
  qed
  have ch: "open_above (ps_heap st) = p # open_above (ps_heap st')"
    using assms(2) ns' i p pl by (simp add: open_above_def chain.simps [of ?ns i] chain_update)
  have "cnt (nd_val (?ns ! q)) < cnt (nd_val (H ! q))" if "q \<in> set (open_above (ps_heap st))" for q
  proof (cases "q = p")
    case True
    with cnt_le [OF vH(1)] v(3) show ?thesis by simp
  next
    case False
    with that ch f ns' show ?thesis by (auto simp: fits_def chain_room_def)
  qed
  then have "chain_room H (ps_heap st)" by (simp add: chain_room_def)
  with le vH(3) assms(6,7) show "fits H st" by (simp add: fits_def sized_def entry_room_def name_room_def string_room_def)
qed

section \<open>Every turn of the first pass grows\<close>

definition grow :: "pst \<Rightarrow> flow \<Rightarrow> bool" where
  "grow st r \<longleftrightarrow> (case r of Fail e \<Rightarrow> True | Break st' \<Rightarrow> grows st st' | Continue st' \<Rightarrow> grows st st' | Fall st' \<Rightarrow> grows st st')"

lemma grow_simps [simp]:
  "grow st (Fail e)" "grow st (fail st' err)" "grow st (Break st') = grows st st'" "grow st (Continue st') = grows st st'" "grow st (Fall st') = grows st st'"
  by (simp_all add: grow_def fail_def)

lemma grow_trans: "grows st st' \<Longrightarrow> grow st' r \<Longrightarrow> grow st r"
  by (cases r) (auto intro: grows_trans)

lemma grow_then: "grow st r \<Longrightarrow> (\<And>st'. r = Fall st' \<Longrightarrow> grow st' (g st')) \<Longrightarrow> grow st (then_flow r g)"
proof (cases r)
  case (Fall st')
  assume "grow st r" "\<And>st'. r = Fall st' \<Longrightarrow> grow st' (g st')"
  with Fall have "grows st st'" "grow st' (g st')" by simp_all
  with Fall show ?thesis by (cases "g st'") (auto simp: then_flow_def intro: grows_trans)
qed (simp_all add: then_flow_def)

lemma grow_heap: "(\<And>h. r = Inr h \<Longrightarrow> grow st (k (st'\<lparr>ps_heap := h\<rparr>))) \<Longrightarrow> grow st (with_heap st' r k)"
  by (cases r) (auto simp: with_heap_def)

lemma grow_if: "(c \<Longrightarrow> grow st x) \<Longrightarrow> (\<not> c \<Longrightarrow> grow st y) \<Longrightarrow> grow st (if c then x else y)"
  by simp

lemma grows_flags:
  "ps_heap st' = ps_heap st \<Longrightarrow> fl_string (ps_flags st') = fl_string (ps_flags st) \<Longrightarrow>
   fl_seek_value (ps_flags st') = fl_seek_value (ps_flags st) \<Longrightarrow> grows st st'"
  by (rule grows_same) simp_all

lemma skip_ws_grow: "grow st (skip_ws b st)"
  by (simp add: skip_ws_def grows_flags)

lemma string_add_grow:
  assumes "ps_heap st' = ps_heap st" and "fl_string (ps_flags st')" and "\<not> fl_seek_value (ps_flags st)"
  shows "grow st (with_heap st' (string_add True bs (ps_heap st')) (\<lambda>st. Continue (advance st)))"
  using assms by (auto simp: with_heap_def string_ops_ok intro!: grows_same)

lemma escape_section_grow:
  assumes "fl_string (ps_flags st)" and "\<not> fl_seek_value (ps_flags st)"
  shows "grow st (escape_section True text b st)"
proof -
  have add: "grow st (with_heap st' (string_add True bs (ps_heap st')) (\<lambda>st. Continue (advance st)))"
    if "st' = (upd_flags (\<lambda>f. f\<lparr>fl_escaped := False\<rparr>) st)\<lparr>ps_ptr := i\<rparr>" for st' bs i
    by (rule string_add_grow) (use that assms in simp_all)
  have add1: "grow st (with_heap (upd_flags (\<lambda>f. f\<lparr>fl_escaped := False\<rparr>) st) (string_add True bs (ps_heap st)) (\<lambda>st. Continue (advance st)))" for bs
    using add [of "upd_flags (\<lambda>f. f\<lparr>fl_escaped := False\<rparr>) st" "ps_ptr st" bs] by (simp add: upd_flags_def)
  show ?thesis
  proof (cases "b = CHR ''u''")
    case True
    with add [OF refl] show ?thesis by (auto simp: escape_section_def Let_def split: option.split)
  qed (simp add: escape_section_def Let_def add1)
qed

lemma end_string_grow:
  assumes "heap_ok (ps_heap st)" and "top_type (ps_heap st) = Some T_String" and "\<not> fl_seek_value (ps_flags st)"
    and "ps_heap st' = end_string ((ps_heap st)\<lparr>h_room := 0\<rparr>)" and "top_val (ps_heap st) = V_String 0"
  shows "grows st st'"
proof -
  obtain i where i: "h_top (ps_heap st) = Some i" "i < length (h_nodes (ps_heap st))" "payload_type (nd_val (h_nodes (ps_heap st) ! i)) = T_String"
    using assms by (auto simp: top_type_def heap_ok_def)
  moreover have "counting (nd_val (h_nodes (ps_heap st) ! i))" using i assms(1) by (simp add: heap_ok_def nodes_ok_def)
  ultimately obtain n where n: "nd_val (h_nodes (ps_heap st) ! i) = V_String n" by (cases "nd_val (h_nodes (ps_heap st) ! i)") auto
  have st': "ps_heap st' = set_node i (V_String (h_strlen (ps_heap st))) ((ps_heap st)\<lparr>h_room := 0\<rparr>)"
    using assms(4) i n by (simp add: end_string_def top_val_def set_top_def)
  have "n = 0" using assms(5) i n by (simp add: top_val_def)
  show ?thesis
    by (rule grows_set_top [OF assms(1) i(1) st']) (use n i \<open>n = 0\<close> in simp_all)
qed

lemma end_name_grow:
  assumes "heap_ok (ps_heap st)" and "top_type (ps_heap st) = Some T_Object"
    and "end_name True ((ps_heap st)\<lparr>h_room := 0\<rparr>) = Inr h'" and "ps_heap st' = h'" and "fl_seek_value (ps_flags st')"
  shows "grows st st'"
proof -
  obtain i where i: "h_top (ps_heap st) = Some i" "i < length (h_nodes (ps_heap st))" "payload_type (nd_val (h_nodes (ps_heap st) ! i)) = T_Object"
    using assms by (auto simp: top_type_def heap_ok_def)
  moreover have "counting (nd_val (h_nodes (ps_heap st) ! i))" using i assms(1) by (simp add: heap_ok_def nodes_ok_def)
  ultimately obtain n m where n: "nd_val (h_nodes (ps_heap st) ! i) = V_Object n m" by (cases "nd_val (h_nodes (ps_heap st) ! i)") auto
  let ?v = "V_Object n (m + h_strlen (ps_heap st) + 1)"
  have st': "ps_heap st' = set_node i ?v ((ps_heap st)\<lparr>h_room := 0\<rparr>)"
    using assms(3,4) i n by (auto simp: end_name_def top_val_def set_top_def)
  have "n < cnt (nd_val (H ! i))" if "fits H st'" for H
    using that i assms(5) unfolding fits_def entry_room_def st' by (auto simp: set_node_def)
  then show ?thesis
    by (intro grows_set_top [OF assms(1) i(1) st']) (use n i in simp_all)
qed

lemma string_section_grow:
  assumes "first_inv js text st"
  shows "grow st (string_section True text b st)"
proof (cases "fl_string (ps_flags st)")
  case True
  then have c: "\<not> fl_seek_value (ps_flags st)" "heap_ok (ps_heap st)" "top_type (ps_heap st) = Some T_String \<or> top_type (ps_heap st) = Some T_Object"
    "top_type (ps_heap st) = Some T_String \<Longrightarrow> top_val (ps_heap st) = V_String 0"
    using assms by (auto simp: first_inv_def ctl_ok_def)
  have esc: "grows st (advance (upd_flags (\<lambda>f. f\<lparr>fl_escaped := True\<rparr>) st))" by (rule grows_same) simp_all
  have quote: "grow st (with_heap st (string_close True (ps_heap st)) (\<lambda>st.
          let st = upd_flags (\<lambda>f. f\<lparr>fl_string := False\<rparr>) st
          in case top_type (ps_heap st) of
               Some T_String \<Rightarrow> Fall (upd_flags (\<lambda>f. f\<lparr>fl_next := True\<rparr>) (upd_heap end_string st))
             | Some T_Object \<Rightarrow>
                 with_heap st (end_name True (ps_heap st)) (\<lambda>st.
                   Continue (advance (upd_flags (\<lambda>f. f\<lparr>fl_seek_value := True, fl_need_colon := True\<rparr>) st)))
             | None \<Rightarrow> Fail (P_Fault Null_Deref)
             | _ \<Rightarrow> Fall st))"
    using c(3)
  proof
    assume t: "top_type (ps_heap st) = Some T_String"
    with end_string_grow [OF c(2) t c(1) _ c(4) [OF t]] show ?thesis by (simp add: string_ops_ok with_heap_def Let_def)
  next
    assume t: "top_type (ps_heap st) = Some T_Object"
    with end_name_grow [OF c(2) t] show ?thesis
      by (auto simp: string_ops_ok with_heap_def Let_def split: sum.split)
  qed
  show ?thesis
    unfolding string_section_def
    using True esc quote escape_section_grow [OF True c(1)] string_add_grow [OF refl True c(1)] by simp
qed (simp add: string_section_def)

lemma comment_section_grow: "\<not> fl_string (ps_flags st) \<Longrightarrow> grow st (comment_section js text b st)"
  unfolding comment_section_def Let_def by (simp add: grows_flags)

lemma done_section_grow: "grow st (done_section b st)"
  unfolding done_section_def using skip_ws_grow by simp

lemma put_grow:
  assumes "heap_ok (ps_heap st)" and "num_type (top_type (ps_heap st))" and "ps_heap st1 = ps_heap st" and "is_int st \<or> \<not> is_int st \<and> d"
    and "st2 = (if d then put_dbl x st1 else put_int i st1)" and "\<not> fl_string (ps_flags st)"
    and "ps_heap st' = ps_heap st2"
  shows "grows st st'"
proof -
  obtain j where j: "h_top (ps_heap st) = Some j" "num_type (Some (payload_type (nd_val (h_nodes (ps_heap st) ! j))))"
    using assms(2) by (auto simp: top_type_def num_type_def)
  have "j < length (h_nodes (ps_heap st))" using assms(1) j by (simp add: heap_ok_def)
  then have cnt: "counting (nd_val (h_nodes (ps_heap st) ! j))" using assms(1) by (simp add: heap_ok_def nodes_ok_def)
  let ?v = "if d then V_Double x else V_Integer i"
  have st': "ps_heap st' = set_node j ?v (ps_heap st)"
    using assms(3,5,7) j by (simp add: put_dbl_def put_int_def set_top_def)
  have "le_payload (nd_val (h_nodes (ps_heap st) ! j)) ?v"
    using j assms(4) cnt by (cases "nd_val (h_nodes (ps_heap st) ! j)") (auto simp: num_type_def is_int_def top_type_def)
  then show ?thesis
    by (intro grows_set_top [OF assms(1) j(1) st']) (use j assms(6) in \<open>auto simp: num_type_def\<close>)
qed

lemma digit_section_grow:
  assumes "heap_ok (ps_heap st)" and "num_type (top_type (ps_heap st))" and "\<not> fl_string (ps_flags st)"
  shows "grow st (digit_section fo b st)"
proof -
  let ?s = "st\<lparr>ps_num_digits := ps_num_digits st + 1\<rparr>"
  let ?z = "if ps_num_digits ?s = 1 \<and> b = CHR ''0'' then upd_flags (\<lambda>f. f\<lparr>fl_num_zero := True\<rparr>) ?s else ?s"
  have h: "ps_heap ?z = ps_heap st" by simp
  have i: "grow st (Continue (advance (put_int n ?z)))" if "is_int st" for n
    using put_grow [OF assms(1,2) h, of False "put_int n ?z"] that assms(3) by simp
  have o: "grow st (Continue (put_dbl x (?z\<lparr>ps_num_digits := k\<rparr>)))" if "is_int st" for x k
    using put_grow [OF assms(1,2), of "?z\<lparr>ps_num_digits := k\<rparr>" True "put_dbl x (?z\<lparr>ps_num_digits := k\<rparr>)"] h that assms(3) by simp
  have d: "grow st (Continue (advance (put_dbl x ?s)))" for x
    using put_grow [OF assms(1,2), of ?s True "put_dbl x ?s"] assms(3) by simp
  have "is_int ?s = is_int st" by (simp add: is_int_def)
  with i o d show ?thesis unfolding digit_section_def Let_def by (simp add: grows_flags del: grow_simps(4)) (simp add: grows_flags)
qed

lemma put_dbl_grow:
  assumes "heap_ok (ps_heap st)" and "num_type (top_type (ps_heap st))" and "ps_heap st1 = ps_heap st" and "\<not> fl_string (ps_flags st)"
    and "ps_heap st' = ps_heap (put_dbl x st1)"
  shows "grows st st'"
  using put_grow [OF assms(1-3), of True "put_dbl x st1"] assms(4,5) by simp

lemma put_int_grow:
  assumes "heap_ok (ps_heap st)" and "num_type (top_type (ps_heap st))" and "is_int st" and "\<not> fl_string (ps_flags st)"
    and "ps_heap st' = ps_heap (put_int x st)"
  shows "grows st st'"
  using put_grow [OF assms(1,2) refl, of False "put_int x st"] assms(3-5) by simp

lemma finish_number_grow:
  assumes "heap_ok (ps_heap st)" and "num_type (top_type (ps_heap st))" and "\<not> fl_string (ps_flags st)"
  shows "grow st (finish_number fo st)"
  unfolding finish_number_def Let_def
  using put_int_grow [OF assms(1,2) _ assms(3)] put_dbl_grow [OF assms(1,2) refl assms(3)] by (simp add: grows_flags)

lemma end_number_grow:
  assumes "heap_ok (ps_heap st)" and "num_type (top_type (ps_heap st))" and "\<not> fl_string (ps_flags st)"
  shows "grow st (end_number fo b st)"
proof -
  let ?f = "if is_int st then st else put_dbl (fo_fraction fo (top_dbl st) (ps_num_fraction st) (ps_num_digits st)) st"
  let ?e = "if is_int ?f then put_dbl (fo_of_int fo (top_int ?f)) ?f else ?f"
  have ok: "heap_ok (ps_heap (put_dbl x st))" "num_type (top_type (ps_heap (put_dbl x st)))" "\<not> fl_string (ps_flags (put_dbl x st))" for x
    using put_ok(2) [OF assms(1,2)] assms(3) by (simp_all add: num_type_def)
  have dbl: "grows st (put_dbl x st)" for x by (rule put_dbl_grow [OF assms(1,2) refl assms(3)]) simp
  have fin: "grow st (finish_number fo (put_dbl x st))" for x
    by (rule grow_trans [OF dbl finish_number_grow [OF ok]])
  have exp: "grows st (advance (upd_flags g (s\<lparr>ps_num_digits := 0\<rparr>)))" if "grows st s" "\<And>f. fl_string (g f) = fl_string f" "\<And>f. fl_seek_value (g f) = fl_seek_value f" for s g
    by (rule grows_trans [OF that(1)]) (simp add: grows_flags that(2,3))
  have not_int: "\<not> is_int (put_dbl x st)" for x using put_ok(2) [OF assms(1,2)] by (simp add: is_int_def)
  show ?thesis
    unfolding end_number_def Let_def
    using fin dbl exp not_int finish_number_grow [OF assms] by (cases "is_int st") simp_all
qed

lemma number_section_grow:
  assumes "heap_ok (ps_heap st)" and "num_type (top_type (ps_heap st))" and "\<not> fl_string (ps_flags st)"
  shows "grow st (number_section fo b st)"
proof -
  have dot: "grows st (advance (put_dbl x (upd_flags g (st\<lparr>ps_num_digits := 0\<rparr>))))" for x g
    by (rule put_dbl_grow [OF assms(1,2) _ assms(3), of "upd_flags g (st\<lparr>ps_num_digits := 0\<rparr>)" _ x]) simp_all
  show ?thesis
    unfolding number_section_def
    using digit_section_grow [OF assms] end_number_grow [OF assms] dot by (simp add: grows_flags)
qed

lemma start_number_grow: "grow st' (start_number True text b st')"
  unfolding start_number_def Let_def by (simp add: grows_flags)

lemma new_grow:
  assumes "heap_ok (ps_heap st)" and "ps_heap st0 = ps_heap st" and "\<not> fl_string (ps_flags st)"
    and "\<And>t. top_type (ps_heap st) = Some t \<Longrightarrow> container t"
    and "\<And>h. k (st0\<lparr>ps_heap := h\<rparr>) = Fail e \<or> (\<exists>st'. k (st0\<lparr>ps_heap := h\<rparr>) \<in> {Continue st', Fall st'} \<and> h_nodes (ps_heap st') = h_nodes h \<and> h_top (ps_heap st') = h_top h)"
  shows "grow st (with_heap st0 (new_value True js t line (ps_heap st0)) k)"
proof (rule grow_heap)
  fix h
  assume "new_value True js t line (ps_heap st0) = Inr h"
  with grows_new_value [OF assms(1) _ _ _ assms(3,4)] assms(2) assms(5) [of h] show "grow st (k (st0\<lparr>ps_heap := h\<rparr>))"
    by auto
qed

lemma new_true_grow:
  assumes "heap_ok (ps_heap st)" and "ps_heap st0 = ps_heap st" and "\<not> fl_string (ps_flags st)"
    and "\<And>t. top_type (ps_heap st) = Some t \<Longrightarrow> container t"
  shows "grow st (with_heap st0 (new_value True js T_Boolean line (ps_heap st0)) (\<lambda>st. Fall (upd_flags g (upd_heap (set_top (V_Boolean 1)) st))))"
proof (rule grow_heap)
  fix h
  assume nv: "new_value True js T_Boolean line (ps_heap st0) = Inr h"
  let ?s = "st0\<lparr>ps_heap := h, ps_flags := no_flags\<rparr>"
  let ?t = "upd_flags g (upd_heap (set_top (V_Boolean 1)) (st0\<lparr>ps_heap := h\<rparr>))"
  have h: "heap_ok h" "top_type h = Some T_Boolean" "top_val h = V_Boolean 0"
    using new_value_first_ok [OF nv] assms(1,2,4) by auto
  then obtain i where i: "h_top h = Some i" "nd_val (h_nodes h ! i) = V_Boolean 0" by (auto simp: top_type_def top_val_def)
  have "grows st ?s" by (rule grows_new_value [OF assms(1) _ _ _ assms(3,4), of js T_Boolean line h]) (use nv assms(2) in simp_all)
  moreover have "grows ?s ?t"
    by (rule grows_set_top [of _ i _ "V_Boolean 1" h]) (use h i in \<open>simp_all add: set_top_def no_flags_def\<close>)
  ultimately show "grow st (Fall ?t)" using grows_trans by simp
qed

lemma begin_value_grow:
  assumes "heap_ok (ps_heap st)" and "ps_heap st0 = ps_heap st" and "\<not> fl_string (ps_flags st)"
    and "\<And>t. top_type (ps_heap st) = Some t \<Longrightarrow> container t"
  shows "grow st (begin_value True js text b st0)"
proof -
  note new = new_grow [OF assms(1) _ assms(3,4)]
  have num: "grow st (with_heap st0 (new_value True js T_Integer line (ps_heap st0)) (start_number True text b))" for line
    by (rule new) (use assms(2) in \<open>simp_all add: start_number_def Let_def\<close>)
  have fall: "grow st (with_heap (st0\<lparr>ps_ptr := i\<rparr>) (new_value True js t line (ps_heap st0)) (\<lambda>st. Fall (upd_flags g st)))" for i t line g
    using new [of "st0\<lparr>ps_ptr := i\<rparr>" "\<lambda>st. Fall (upd_flags g st)"] assms(2) by simp
  have tru: "grow st (with_heap (st0\<lparr>ps_ptr := i\<rparr>) (new_value True js T_Boolean line (ps_heap st0))
      (\<lambda>st. Fall (upd_flags g (upd_heap (set_top (V_Boolean 1)) st))))" for i line g
    using new_true_grow [OF assms(1) _ assms(3,4), of "st0\<lparr>ps_ptr := i\<rparr>"] assms(2) by simp
  have obj: "grow st (with_heap st0 (new_value True js t line (ps_heap st0)) (\<lambda>st. Continue (advance st)))" for t line
    by (rule new) (use assms(2) in simp_all)
  have arr: "grow st (with_heap st0 (new_value True js t line (ps_heap st0)) (\<lambda>st. Continue (advance (upd_flags g st))))" for t line g
    by (rule new) (use assms(2) in simp_all)
  have str: "grow st (with_heap st0 (new_value True js t line (ps_heap st0)) (\<lambda>st. Continue (advance (upd_heap open_string (upd_flags g st)))))" for t line g
    by (rule new) (use assms(2) in \<open>simp_all add: open_string_def\<close>)
  show ?thesis unfolding begin_value_def Let_def using num fall tru obj arr str by simp
qed

lemma seek_section_grow:
  assumes "first_inv js text st" and "fl_seek_value (ps_flags st)"
  shows "grow st (seek_section True js text b st)"
proof -
  have c: "heap_ok (ps_heap st)" "\<not> fl_string (ps_flags st)" "\<And>t. top_type (ps_heap st) = Some t \<Longrightarrow> container t"
    using assms by (auto simp: first_inv_def ctl_ok_def container_def)
  have close: "grows st (upd_flags g st)" if "top_type (ps_heap st) = Some T_Array" for g
    by (rule grows_same) (use that c(2) in simp_all)
  show ?thesis
    unfolding seek_section_def
    using skip_ws_grow close begin_value_grow [OF c(1) _ c(2,3)] by (simp add: grows_flags)
qed

lemma object_section_grow:
  assumes "\<not> fl_string (ps_flags st)" and "\<not> fl_seek_value (ps_flags st)"
  shows "grow st (object_section b st)"
proof -
  have "grows st (upd_heap open_name (upd_flags g st))" for g by (rule grows_same) (use assms in \<open>simp_all add: open_name_def\<close>)
  then show ?thesis unfolding object_section_def using skip_ws_grow assms by (simp add: grows_flags)
qed

lemma value_section_grow:
  assumes "first_inv js text st" and "\<not> fl_string (ps_flags st)"
  shows "grow st (value_section True js fo text b st)"
proof (cases "fl_seek_value (ps_flags st)")
  case True
  with seek_section_grow [OF assms(1) True] show ?thesis by (simp add: value_section_def)
next
  case False
  have "heap_ok (ps_heap st)" using assms(1) by (simp add: first_inv_def)
  from number_section_grow [OF this _ assms(2)] object_section_grow [OF assms(2) False] False show ?thesis
    by (simp add: value_section_def num_type_def split: option.split jtype.split)
qed

lemma next_section_grow:
  assumes "heap_ok (ps_heap st)" and "fl_next (ps_flags st) \<Longrightarrow> \<not> fl_string (ps_flags st) \<and> \<not> fl_seek_value (ps_flags st)"
  shows "grow st (next_section st)"
proof (cases "fl_next (ps_flags st)")
  case False
  then show ?thesis by (simp add: next_section_def Let_def grows_flags)
next
  case True
  note c = assms(2) [OF True]
  show ?thesis
  proof (cases "h_top (ps_heap st)")
    case (Some i)
    show ?thesis
    proof (cases "top_parent (ps_heap st)")
      case None
      with Some True show ?thesis by (simp add: next_section_def Let_def grows_flags)
    next
      case p: (Some p)
      have "grow st (with_heap s (link_value line i p (ps_heap st)) Continue)" for s line
        by (rule grow_heap) (use grows_link [OF assms(1) Some p] c in auto)
      with True Some p show ?thesis by (simp add: next_section_def Let_def)
    qed
  qed (use True in \<open>simp add: next_section_def Let_def\<close>)
qed

lemma value_next_grow:
  assumes "first_inv js text st" and "\<not> fl_string (ps_flags st)" "\<not> fl_done (ps_flags st)" "\<not> fl_line_comment (ps_flags st)" "\<not> fl_block_comment (ps_flags st)"
    and "b \<noteq> NUL \<Longrightarrow> ps_ptr st < length text" and "value_section True js fo text b st = Fall s"
  shows "grow s (next_section s)"
proof -
  have "finished js text (work text st) s \<or> goes_on js text (work text st) s"
    using value_section_good [OF assms(1-3) _ assms(4,5), of b fo] assms(6,7) by (simp add: value_mid_def)
  then show ?thesis
    by (intro next_section_grow) (auto simp: finished_def goes_on_def first_inv_def Let_def split: if_splits)
qed

lemma after_comment_grow:
  assumes "first_inv js text st" and "\<not> fl_string (ps_flags st)" "\<not> fl_line_comment (ps_flags st)" "\<not> fl_block_comment (ps_flags st)"
    and "b \<noteq> NUL \<Longrightarrow> ps_ptr st < length text"
  shows "grow st (then_flow (done_section b st) (\<lambda>st. then_flow (value_section True js fo text b st) next_section))"
proof -
  have "grow st (then_flow (value_section True js fo text b st) next_section)" if "\<not> fl_done (ps_flags st)"
    by (rule grow_then [OF value_section_grow [OF assms(1,2)] value_next_grow [OF assms(1,2) that assms(3-5)]])
  then show ?thesis
    by (intro grow_then [OF done_section_grow]) (auto simp: done_section_def skip_ws_def fail_def split: if_splits)
qed

lemma comment_section_fall:
  assumes "first_inv js text st" and "\<not> fl_string (ps_flags st)" and "b = (if ps_ptr st = length text then NUL else text ! ps_ptr st)"
    and "comment_section js text b st = Fall s"
  shows "s = st \<and> \<not> fl_line_comment (ps_flags st) \<and> \<not> fl_block_comment (ps_flags st)"
proof -
  have "s = st \<and> (js_comments js \<longrightarrow> \<not> fl_line_comment (ps_flags st) \<and> \<not> fl_block_comment (ps_flags st))"
    using comment_section_good [OF assms(1-3)] assms(4) by simp
  moreover have "\<not> js_comments js \<Longrightarrow> \<not> fl_line_comment (ps_flags st) \<and> \<not> fl_block_comment (ps_flags st)"
    using assms(1) by (simp add: first_inv_def)
  ultimately show ?thesis by blast
qed

text \<open>After the string that ends a value only the end of the body is left.\<close>

lemma after_value_string:
  assumes "finished js text m st" "top_type (ps_heap st) = Some T_String" "\<not> fl_line_comment (ps_flags st)" "\<not> fl_block_comment (ps_flags st)" "b = CHR 0x22"
  shows "after_section first_pass js fo text b st = next_section st"
  using assms by (simp add: after_section_def comment_section_def done_section_def value_section_def then_flow_def finished_def Let_def)

lemma after_section_grow:
  assumes "first_inv js text st" and "b = (if ps_ptr st = length text then NUL else text ! ps_ptr st)" and "after_string js text st b st'"
  shows "grow st' (after_section True js fo text b st')"
  using assms(3) unfolding after_string_def
proof (elim disjE conjE)
  assume st: "st' = st" "\<not> fl_string (ps_flags st')"
  have ptr: "b \<noteq> NUL \<Longrightarrow> ps_ptr st < length text" using assms(1,2) by (auto simp: first_inv_def split: if_splits)
  have ns: "\<not> fl_string (ps_flags st)" using st by simp
  have "grow s (then_flow (done_section b s) (\<lambda>st. then_flow (value_section True js fo text b st) next_section))"
    if "comment_section js text b st = Fall s" for s
    using comment_section_fall [OF assms(1) ns assms(2) that] after_comment_grow [OF assms(1) ns _ _ ptr] by blast
  from grow_then [OF comment_section_grow [OF ns] this] show ?thesis unfolding after_section_def st(1) .
next
  assume q: "b = CHR 0x22" "finished js text (work text st) st'" "top_type (ps_heap st') = Some T_String"
    "\<not> fl_line_comment (ps_flags st')" "\<not> fl_block_comment (ps_flags st')"
  from after_value_string [OF q(2-5,1)] q(2) next_section_grow [of st'] show ?thesis by (simp add: finished_def Let_def)
qed

lemma first_step_grow:
  assumes "first_inv js text st"
  shows "grow st (parse_step True js fo text st)"
proof -
  define b where "b = (if ps_ptr st = length text then NUL else text ! ps_ptr st)"
  have "ps_ptr st \<le> length text" using assms by (simp add: first_inv_def)
  note step = parse_step_sections [OF this b_def]
  have "grow st' (after_section True js fo text b st')" if "string_section True text b st = Fall st'" for st'
    using after_section_grow [OF assms b_def, of st'] string_section_good [OF assms b_def] that by simp
  with string_section_grow [OF assms, of b] step show ?thesis by (simp add: grow_then)
qed

text \<open>At every moment the first pass has counted no more than at its end.\<close>

lemma final_fits:
  assumes "first_inv js text st" and "fl_done (ps_flags st)"
  shows "fits (h_nodes (ps_heap st)) st"
proof -
  have c: "\<not> fl_seek_value (ps_flags st)" "\<not> fl_string (ps_flags st)" "top_parent (ps_heap st) = None" "nodes_ok (h_nodes (ps_heap st))"
    using assms by (auto simp: first_inv_def ctl_ok_def heap_ok_def)
  have "open_above (ps_heap st) = []"
    using c(3) by (auto simp: open_above_def top_parent_def chain.simps [of "h_nodes (ps_heap st)"] split: option.splits)
  then show ?thesis
    using c by (simp add: fits_def sized_def chain_room_def entry_room_def name_room_def string_room_def nodes_ok_def le_payload_refl)
qed

lemma first_pass_fits:
  assumes "first_inv js text st" and "parse_loop True js fo text st = Some (Inr st')"
  shows "fits (h_nodes (ps_heap st')) st"
  using assms
proof (induction "work text st" arbitrary: st rule: less_induct)
  case less
  let ?H = "h_nodes (ps_heap st')"
  show ?case
  proof (cases "parse_step True js fo text st")
    case (Continue s)
    with first_step_good [OF less.prems(1), of fo] have "first_inv js text s" "work text s < work text st" by simp_all
    with less.hyps [of s] less.prems(2) Continue have "fits ?H s" by (simp add: parse_loop.simps [of True js fo "text" st])
    with first_step_grow [OF less.prems(1), of fo] Continue show ?thesis by (simp add: grows_def)
  next
    case (Break s)
    with less.prems(2) have "s = st'" by (simp add: parse_loop.simps [of True js fo "text" st])
    with Break first_step_good [OF less.prems(1), of fo] have "fits ?H s" by (auto simp: good_def intro: final_fits)
    with first_step_grow [OF less.prems(1), of fo] Break show ?thesis by (simp add: grows_def)
  qed (use less.prems(2) first_step_good [OF less.prems(1), of fo] in \<open>simp_all add: parse_loop.simps [of True js fo "text" st]\<close>)
qed

end
