(* ===== verification/Json_Links.thy ===== *)
theory Json_Links
  imports Json_Counts
begin

text \<open>
  The links of the second pass: the elements and entries of a value are values that have it
  as their parent, each once, and every value is linked to its parent but those that are
  still open, from the top to the root. Freeing relies on it.
\<close>

fun kids_of :: "payload \<Rightarrow> nat list" where
  "kids_of (F_Array n vs) = vs"
| "kids_of (F_Object n m u es p) = map snd es"
| "kids_of _ = []"

abbreviation kids_at :: "node list \<Rightarrow> nat \<Rightarrow> nat list" where
  "kids_at ns i \<equiv> kids_of (nd_val (ns ! i))"

text \<open>An array or object that has a count and no memory: its allocation has failed.\<close>

fun hollow :: "payload \<Rightarrow> bool" where
  "hollow (V_Array n) = (n > 0)"
| "hollow (V_Object n m) = (n > 0)"
| "hollow _ = False"

definition open_list :: "node list \<Rightarrow> nat option \<Rightarrow> nat list" where
  "open_list ns tp = (case tp of None \<Rightarrow> [] | Some i \<Rightarrow> i # chain ns i)"

definition kin :: "node list \<Rightarrow> node list \<Rightarrow> nat option \<Rightarrow> bool" where
  "kin ns ns2 tp \<longleftrightarrow>
     (\<forall>i < length ns. distinct (kids_at ns2 i) \<and> (\<forall>c \<in> set (kids_at ns2 i). c < length ns \<and> nd_parent (ns ! c) = Some i)) \<and>
     (\<forall>j < length ns. \<forall>p. nd_parent (ns ! j) = Some p \<longrightarrow> (j \<in> set (kids_at ns2 p) \<longleftrightarrow> j \<notin> set (open_list ns tp))) \<and>
     (\<forall>j < length ns. nd_parent (ns ! j) = None \<longrightarrow> j = 0)"

lemma kinD:
  assumes "kin ns ns2 tp"
  shows "i < length ns \<Longrightarrow> distinct (kids_at ns2 i)"
    "i < length ns \<Longrightarrow> c \<in> set (kids_at ns2 i) \<Longrightarrow> c < length ns \<and> nd_parent (ns ! c) = Some i"
    "j < length ns \<Longrightarrow> nd_parent (ns ! j) = Some p \<Longrightarrow> j \<in> set (kids_at ns2 p) \<longleftrightarrow> j \<notin> set (open_list ns tp)"
    "j < length ns \<Longrightarrow> nd_parent (ns ! j) = None \<Longrightarrow> j = 0"
  using assms unfolding kin_def by blast+

lemma kinI:
  assumes "\<And>i. i < length ns \<Longrightarrow> distinct (kids_at ns2 i) \<and> (\<forall>c \<in> set (kids_at ns2 i). c < length ns \<and> nd_parent (ns ! c) = Some i)"
    and "\<And>j p. j < length ns \<Longrightarrow> nd_parent (ns ! j) = Some p \<Longrightarrow> j \<in> set (kids_at ns2 p) \<longleftrightarrow> j \<notin> set (open_list ns tp)"
    and "\<And>j. j < length ns \<Longrightarrow> nd_parent (ns ! j) = None \<Longrightarrow> j = 0"
  shows "kin ns ns2 tp"
  using assms unfolding kin_def by blast

lemma kin_empty: "kin [] ns2 tp"
  by (simp add: kin_def)

text \<open>Values change that have no links, or keep them.\<close>

lemma kin_cong:
  assumes "kin ns ns2 tp" and "length ns' = length ns" and "\<And>i. i < length ns \<Longrightarrow> nd_parent (ns' ! i) = nd_parent (ns ! i)"
    and "\<And>i. kids_at ns2' i = kids_at ns2 i" and "open_list ns' tp = open_list ns tp"
  shows "kin ns' ns2' tp"
proof (rule kinI, unfold assms(2,4,5))
  show "distinct (kids_at ns2 i) \<and> (\<forall>c \<in> set (kids_at ns2 i). c < length ns \<and> nd_parent (ns' ! c) = Some i)" if "i < length ns" for i
    using kinD(1,2) [OF assms(1) that] assms(3) by metis
  show "j \<in> set (kids_at ns2 p) \<longleftrightarrow> j \<notin> set (open_list ns tp)" if "j < length ns" "nd_parent (ns' ! j) = Some p" for j p
    using kinD(3) [OF assms(1) that(1)] assms(3) [OF that(1)] that(2) by simp
  show "j = 0" if "j < length ns" "nd_parent (ns' ! j) = None" for j
    using kinD(4) [OF assms(1) that(1)] assms(3) [OF that(1)] that(2) by simp
qed

lemma open_list_update:
  "i < length ns \<Longrightarrow> nd_parent n = nd_parent (ns ! i) \<Longrightarrow> open_list (ns[i := n]) tp = open_list ns tp"
  by (simp add: open_list_def chain_update split: option.split)

lemma kin_put:
  assumes "kin ns ns2 tp" and "i < length ns" and "kids_of w = kids_at ns2 i" and "i < length ns2"
  shows "kin (ns[i := (ns ! i)\<lparr>nd_val := v\<rparr>]) (ns2[i := (ns2 ! i)\<lparr>nd_val := w\<rparr>]) tp"
  by (rule kin_cong [OF assms(1)]) (use assms(2-4) in \<open>simp_all add: nth_list_update open_list_update\<close>)

lemma kin_new:
  assumes "kin ns ns2 tp" and "nodes_ok ns" and "\<And>i. tp = Some i \<Longrightarrow> i < length ns" and "tp = None \<longleftrightarrow> ns = []"
    and "\<And>i. i < length ns \<Longrightarrow> kids_at ns2' i = kids_at ns2 i" and "kids_at ns2' (length ns) = []"
  shows "kin (ns @ [\<lparr>nd_parent = tp, nd_val = v\<rparr>]) ns2' (Some (length ns))"
proof -
  let ?ns = "ns @ [\<lparr>nd_parent = tp, nd_val = v\<rparr>]" and ?a = "length ns"
  have op: "open_list ?ns (Some ?a) = ?a # open_list ns tp"
    using assms(3) chain.simps [of ?ns ?a] by (cases tp) (simp_all add: open_list_def chain_append)
  have par: "p < j" if "j < ?a" "nd_parent (ns ! j) = Some p" for j p using assms(2) that by (auto simp: nodes_ok_def)
  have links: "j \<in> set (kids_at ns2' p) \<longleftrightarrow> j \<notin> set (open_list ?ns (Some ?a))" if "j < Suc ?a" "nd_parent (?ns ! j) = Some p" for j p
  proof (cases "j = ?a")
    case True
    with that assms(3) have "p < ?a" by simp
    then show ?thesis using kinD(2) [OF assms(1), of p j] assms(5) [of p] op True by auto
  next
    case False
    with that have j: "j < ?a" "nd_parent (ns ! j) = Some p" by (simp_all add: nth_append)
    with par [OF j] show ?thesis using kinD(3) [OF assms(1) j] assms(5) [of p] op False by simp
  qed
  have kids: "distinct (kids_at ns2' i) \<and> (\<forall>c \<in> set (kids_at ns2' i). c < Suc ?a \<and> nd_parent (?ns ! c) = Some i)" if "i < Suc ?a" for i
  proof (cases "i = ?a")
    case False
    with that have i: "i < ?a" by simp
    have "c < Suc ?a \<and> nd_parent (?ns ! c) = Some i" if "c \<in> set (kids_at ns2 i)" for c
      using kinD(2) [OF assms(1) i that] by (simp add: nth_append)
    with kinD(1) [OF assms(1) i] assms(5) [OF i] show ?thesis by simp
  qed (simp add: assms(6))
  have root: "j = 0" if "j < Suc ?a" "nd_parent (?ns ! j) = None" for j
    using that kinD(4) [OF assms(1), of j] assms(4) by (auto simp: nth_append split: if_splits)
  have len: "length ?ns = Suc ?a" by simp
  show ?thesis by (rule kinI, unfold len) (rule kids links root; assumption)+
qed

text \<open>The value at the top is linked to its parent, which is the top then.\<close>

lemma kin_link:
  assumes "kin ns ns2 (Some i)" and "i < length ns" and "nd_parent (ns ! i) = Some p" and "p < i" and "length ns \<le> length ns2"
    and "kids_of w = kids_at ns2 p @ [i]"
  shows "kin (ns[p := (ns ! p)\<lparr>nd_val := v\<rparr>]) (ns2[p := (ns2 ! p)\<lparr>nd_val := w\<rparr>]) (Some p)"
proof -
  let ?ns = "ns[p := (ns ! p)\<lparr>nd_val := v\<rparr>]" and ?ns2 = "ns2[p := (ns2 ! p)\<lparr>nd_val := w\<rparr>]"
  have p: "p < length ns" "p < length ns2" using assms(2,4,5) by simp_all
  have op: "open_list ns (Some i) = i # open_list ns (Some p)" using assms(3,4) by (simp add: open_list_def chain.simps [of ns i])
  have op': "open_list ?ns (Some p) = open_list ns (Some p)" using p by (simp add: open_list_update)
  have ni: "i \<notin> set (open_list ns (Some p))" using assms(4) chain_less [of i ns p] by (auto simp: open_list_def)
  have ki: "i \<notin> set (kids_at ns2 p)" using kinD(3) [OF assms(1-3)] op by simp
  have par: "nd_parent (?ns ! j) = nd_parent (ns ! j)" for j using p by (simp add: nth_list_update)
  have kid: "kids_at ?ns2 j = (if j = p then kids_at ns2 p @ [i] else kids_at ns2 j)" for j using p assms(6) by (simp add: nth_list_update)
  have links: "j \<in> set (kids_at ?ns2 q) \<longleftrightarrow> j \<notin> set (open_list ?ns (Some p))" if "j < length ns" "nd_parent (ns ! j) = Some q" for j q
    using kinD(3) [OF assms(1) that] assms(3) that op op' ni kid [of q] by (cases "j = i") auto
  have kids: "distinct (kids_at ?ns2 j) \<and> (\<forall>c \<in> set (kids_at ?ns2 j). c < length ns \<and> nd_parent (?ns ! c) = Some j)" if "j < length ns" for j
  proof -
    have "c < length ns \<and> nd_parent (ns ! c) = Some j" if "c \<in> set (kids_at ns2 j)" for c using kinD(2) [OF assms(1) \<open>j < length ns\<close> that] .
    with kinD(1) [OF assms(1) that] assms(2,3) ki show ?thesis unfolding kid par by (cases "j = p") auto
  qed
  note root = kinD(4) [OF assms(1)]
  show ?thesis by (rule kinI, unfold length_list_update) (rule kids links root; (unfold par)?; assumption)+
qed

end
