(* ===== verification/Json_Second_Pass.thy ===== *)
theory Json_Second_Pass
  imports Json_Links
begin

text \<open>
  The second pass stays within what it allocated: it is related, turn by turn, to the first
  pass on the same text, whose final values \<open>H\<close> give the capacities.
\<close>

section \<open>Paired states\<close>

text \<open>A value of the first pass, the same value in the second, and its final form in the first.\<close>

fun twin :: "payload \<Rightarrow> payload \<Rightarrow> payload \<Rightarrow> bool" where
  "twin (V_String n) w v = (\<exists>n' s. v = V_String n' \<and> w = F_String n' s \<and> length s = n)"
| "twin (V_Array n) w v = (\<exists>n' vs. v = V_Array n' \<and> w = F_Array n' vs \<and> length vs = n)"
| "twin (V_Object n m) w v =
     (\<exists>n' m' es p. v = V_Object n' m' \<and> w = F_Object n' (if n' = 0 then 0 else m') m es p \<and> length es = n)"
| "twin _ w v = (w = v)"

fun named :: "payload \<Rightarrow> bool" where
  "named (F_Object n m u es p) = (p \<noteq> None)"
| "named _ = True"

definition hpair :: "node list \<Rightarrow> pheap \<Rightarrow> pheap \<Rightarrow> bool" where
  "hpair H h1 h2 \<longleftrightarrow>
     h_top h2 = h_top h1 \<and> h_root h2 = h_root h1 \<and> h_strlen h2 = h_strlen h1 \<and>
     length (h_nodes h2) = length H \<and> length (h_nodes h1) \<le> length H \<and>
     h_alloc h2 = (if length (h_nodes h1) < length H then Some (length (h_nodes h1)) else None) \<and>
     (\<forall>i < length (h_nodes h1). nd_parent (h_nodes h2 ! i) = nd_parent (h_nodes h1 ! i) \<and>
        twin (nd_val (h_nodes h1 ! i)) (nd_val (h_nodes h2 ! i)) (nd_val (H ! i))) \<and>
     (\<forall>i. length (h_nodes h1) \<le> i \<and> i < length H \<longrightarrow> h_nodes h2 ! i = H ! i) \<and>
     kin (h_nodes h1) (h_nodes h2) (h_top h1)"

text \<open>The open entries have their names, and an open string has room for what was counted.\<close>

definition names_ok :: "pflags \<Rightarrow> pheap \<Rightarrow> pheap \<Rightarrow> bool" where
  "names_ok f h1 h2 \<longleftrightarrow>
     (\<forall>p \<in> set (open_above h1). named (nd_val (h_nodes h2 ! p))) \<and>
     (\<forall>i. h_top h1 = Some i \<and> fl_seek_value f \<longrightarrow> named (nd_val (h_nodes h2 ! i)))"

definition room_of :: "payload \<Rightarrow> payload \<Rightarrow> nat" where
  "room_of v w = (case (v, w) of
     (V_String n, V_String n') \<Rightarrow> n' + 1
   | (V_Object n m, V_Object n' m') \<Rightarrow> (if n' = 0 then 0 else m') - m
   | _ \<Rightarrow> 0)"

definition buffer_ok :: "node list \<Rightarrow> pflags \<Rightarrow> pheap \<Rightarrow> pheap \<Rightarrow> bool" where
  "buffer_ok H f h1 h2 \<longleftrightarrow>
     (\<forall>i. h_top h1 = Some i \<and> fl_string f \<longrightarrow>
        length (h_buf h2) = h_strlen h1 \<and> h_room h2 = room_of (nd_val (h_nodes h1 ! i)) (nd_val (H ! i)))"

text \<open>Between turns the second pass is never inside a number: it reads a number in one turn.\<close>

definition settled :: "pflags \<Rightarrow> pheap \<Rightarrow> bool" where
  "settled f h \<longleftrightarrow> (num_type (top_type h) \<longrightarrow> fl_done f)"

definition paired :: "node list \<Rightarrow> pst \<Rightarrow> pst \<Rightarrow> bool" where
  "paired H st1 st2 \<longleftrightarrow>
     ps_ptr st2 = ps_ptr st1 \<and> ps_line st2 = ps_line st1 \<and> num_flags_eq (ps_flags st2) (ps_flags st1) \<and>
     settled (ps_flags st1) (ps_heap st1) \<and> hpair H (ps_heap st1) (ps_heap st2) \<and> names_ok (ps_flags st1) (ps_heap st1) (ps_heap st2) \<and>
     buffer_ok H (ps_flags st1) (ps_heap st1) (ps_heap st2)"

lemma twin_type: "twin v w u \<Longrightarrow> \<not> num_type (Some (payload_type v)) \<Longrightarrow> le_payload v u \<Longrightarrow> payload_type w = payload_type v"
  by (cases v) (auto simp: num_type_def)

lemma hpair_top_type:
  assumes "hpair H h1 h2" and "heap_ok h1" and "sized H (h_nodes h1)" and "\<not> num_type (top_type h1)"
  shows "top_type h2 = top_type h1"
proof (cases "h_top h1")
  case (Some i)
  then have i: "i < length (h_nodes h1)" using assms(2) by (simp add: heap_ok_def)
  then have "twin (nd_val (h_nodes h1 ! i)) (nd_val (h_nodes h2 ! i)) (nd_val (H ! i))" "le_payload (nd_val (h_nodes h1 ! i)) (nd_val (H ! i))"
    using assms(1,3) by (auto simp: hpair_def sized_def)
  from twin_type [OF this(1) _ this(2)] Some assms(1,4) show ?thesis by (simp add: hpair_def top_type_def)
qed (use assms(1) in \<open>simp add: hpair_def top_type_def\<close>)

text \<open>
  The store when an allocation of the second pass has failed, for the value at the top: the
  values before it have their memory and are linked as they should be.
\<close>

definition wrecked :: "node list \<Rightarrow> pheap \<Rightarrow> bool" where
  "wrecked H h \<longleftrightarrow>
     length (h_nodes h) = length H \<and>
     (\<exists>a < length (h_nodes h). h_top h = Some a \<and> h_root h = Some 0 \<and>
        h_alloc h = (if Suc a < length (h_nodes h) then Some (Suc a) else None) \<and> kids_at (h_nodes h) a = [] \<and>
        (\<forall>i < a. \<not> hollow (nd_val (h_nodes h ! i)) \<and> distinct (kids_at (h_nodes h) i) \<and>
           (\<forall>c \<in> set (kids_at (h_nodes h) i). c < a \<and> i < c \<and> nd_parent (h_nodes h ! c) = Some i)) \<and>
        (\<forall>i. a \<le> i \<and> i < length H \<longrightarrow> h_nodes h ! i = H ! i))"

text \<open>What the second pass may do where the first one goes on.\<close>

definition sim :: "node list \<Rightarrow> flow \<Rightarrow> flow \<Rightarrow> bool" where
  "sim H r1 r2 \<longleftrightarrow>
     (case r1 of
        Fail e \<Rightarrow> True
      | Break st1 \<Rightarrow> fits H st1 \<longrightarrow> (\<exists>n g. r2 = Fail (P_Error n E_Alloc g) \<and> wrecked H g) \<or> (\<exists>st2. r2 = Break st2 \<and> paired H st1 st2)
      | Continue st1 \<Rightarrow> fits H st1 \<longrightarrow> (\<exists>n g. r2 = Fail (P_Error n E_Alloc g) \<and> wrecked H g) \<or> (\<exists>st2. r2 = Continue st2 \<and> paired H st1 st2)
      | Fall st1 \<Rightarrow> fits H st1 \<longrightarrow> (\<exists>n g. r2 = Fail (P_Error n E_Alloc g) \<and> wrecked H g) \<or> (\<exists>st2. r2 = Fall st2 \<and> paired H st1 st2))"

lemma sim_simps [simp]:
  "sim H (Fail e) r2" "sim H (fail st err) r2"
  by (simp_all add: sim_def fail_def)

lemma sim_wrecked: "wrecked H g \<Longrightarrow> sim H r1 (Fail (P_Error n E_Alloc g))"
  by (auto simp: sim_def split: flow.split)

lemma sim_both:
  "paired H st1 st2 \<Longrightarrow> sim H (Continue st1) (Continue st2)" "paired H st1 st2 \<Longrightarrow> sim H (Fall st1) (Fall st2)"
  "paired H st1 st2 \<Longrightarrow> sim H (Break st1) (Break st2)"
  by (simp_all add: sim_def)

text \<open>A section is followed by the next one in both passes.\<close>

lemma sim_then:
  assumes "sim H r1 r2" and "\<And>s1 s2. r1 = Fall s1 \<Longrightarrow> fits H s1 \<Longrightarrow> paired H s1 s2 \<Longrightarrow> sim H (g1 s1) (g2 s2)"
    and "\<And>s1. r1 = Fall s1 \<Longrightarrow> grow s1 (g1 s1)"
  shows "sim H (then_flow r1 g1) (then_flow r2 g2)"
proof (cases r1)
  case (Fall s1)
  show ?thesis
  proof (cases "fits H s1")
    case True
    with Fall assms(1) consider n g where "r2 = Fail (P_Error n E_Alloc g)" "wrecked H g" | s2 where "r2 = Fall s2" "paired H s1 s2"
      by (auto simp: sim_def)
    then show ?thesis
    proof cases
      case 1
      then show ?thesis by (simp add: then_flow_def sim_wrecked)
    next
      case 2
      with Fall True assms(2) show ?thesis by (simp add: then_flow_def)
    qed
  next
    case False
    with assms(3) [OF Fall] Fall show ?thesis
      by (cases "g1 s1") (auto simp: sim_def then_flow_def grows_def)
  qed
qed (use assms(1) in \<open>auto simp: sim_def then_flow_def\<close>)

section \<open>The operations on the values\<close>

lemma pairedD:
  assumes "paired H st1 st2"
  shows "ps_ptr st2 = ps_ptr st1" "ps_line st2 = ps_line st1" "num_flags_eq (ps_flags st2) (ps_flags st1)"
    "hpair H (ps_heap st1) (ps_heap st2)" "names_ok (ps_flags st1) (ps_heap st1) (ps_heap st2)" "buffer_ok H (ps_flags st1) (ps_heap st1) (ps_heap st2)"
    "h_top (ps_heap st2) = h_top (ps_heap st1)" "h_strlen (ps_heap st2) = h_strlen (ps_heap st1)" "settled (ps_flags st1) (ps_heap st1)"
  using assms by (simp_all add: paired_def hpair_def)

lemma paired_flags:
  assumes "paired H st1 st2" and "ps_heap st1' = ps_heap st1" and "ps_heap st2' = ps_heap st2" and "ps_ptr st2' = ps_ptr st1'" and "ps_line st2' = ps_line st1'"
    and "num_flags_eq (ps_flags st2') (ps_flags st1')"
    and "fl_seek_value (ps_flags st1') \<Longrightarrow> fl_seek_value (ps_flags st1)" and "fl_string (ps_flags st1') \<Longrightarrow> fl_string (ps_flags st1)"
    and "fl_done (ps_flags st1) \<Longrightarrow> fl_done (ps_flags st1')"
  shows "paired H st1' st2'"
  using assms by (auto simp: paired_def names_ok_def buffer_ok_def settled_def)

text \<open>The flags of the two passes are the same but for those of numbers.\<close>

lemma num_flags_eqD:
  assumes "num_flags_eq f g"
  shows "fl_next f = fl_next g" "fl_reproc f = fl_reproc g" "fl_need_comma f = fl_need_comma g" "fl_seek_value f = fl_seek_value g"
    "fl_escaped f = fl_escaped g" "fl_string f = fl_string g" "fl_need_colon f = fl_need_colon g" "fl_done f = fl_done g"
    "fl_line_comment f = fl_line_comment g" "fl_block_comment f = fl_block_comment g"
  using assms by (simp_all add: num_flags_eq_def)

text \<open>The value at the top while a string is read: a string, or an object whose name it is.\<close>

definition reading :: "node list \<Rightarrow> pheap \<Rightarrow> pheap \<Rightarrow> nat \<Rightarrow> bool" where
  "reading H h1 h2 i \<longleftrightarrow>
     (\<exists>n' s. nd_val (h_nodes h1 ! i) = V_String 0 \<and> nd_val (H ! i) = V_String n' \<and> nd_val (h_nodes h2 ! i) = F_String n' s \<and> h_room h2 = n' + 1) \<or>
     (\<exists>n m n' m' es p. nd_val (h_nodes h1 ! i) = V_Object n m \<and> nd_val (H ! i) = V_Object n' m' \<and>
        nd_val (h_nodes h2 ! i) = F_Object n' m' m es p \<and> length es = n \<and> n < n' \<and> m + h_strlen h1 + 1 \<le> m' \<and> h_room h2 = m' - m)"

lemma open_string_top:
  assumes "paired H st1 st2" and "first_inv js text st1" and "fits H st1" and "fl_string (ps_flags st1)"
  obtains i where "h_top (ps_heap st1) = Some i" "i < length (h_nodes (ps_heap st1))" "h_strlen (ps_heap st1) < h_room (ps_heap st2)"
    "reading H (ps_heap st1) (ps_heap st2) i"
proof -
  have t: "top_type (ps_heap st1) = Some T_String \<or> top_type (ps_heap st1) = Some T_Object"
    "top_type (ps_heap st1) = Some T_String \<Longrightarrow> top_val (ps_heap st1) = V_String 0" "heap_ok (ps_heap st1)"
    using assms(2,4) by (auto simp: first_inv_def ctl_ok_def)
  then obtain i where i: "h_top (ps_heap st1) = Some i" "i < length (h_nodes (ps_heap st1))" by (auto simp: top_type_def heap_ok_def)
  have tw: "twin (nd_val (h_nodes (ps_heap st1) ! i)) (nd_val (h_nodes (ps_heap st2) ! i)) (nd_val (H ! i))"
    using pairedD(4) [OF assms(1)] i by (simp add: hpair_def)
  have room: "h_room (ps_heap st2) = room_of (nd_val (h_nodes (ps_heap st1) ! i)) (nd_val (H ! i))"
    using pairedD(6) [OF assms(1)] i assms(4) by (simp add: buffer_ok_def)
  show thesis
    using t(1)
  proof
    assume s: "top_type (ps_heap st1) = Some T_String"
    with t(2) i have v: "nd_val (h_nodes (ps_heap st1) ! i) = V_String 0" by (simp add: top_val_def)
    with tw obtain n' sl where n': "nd_val (H ! i) = V_String n'" "nd_val (h_nodes (ps_heap st2) ! i) = F_String n' sl" by auto
    have "h_strlen (ps_heap st1) \<le> n'" using assms(3,4) i v n' by (auto simp: fits_def string_room_def)
    with that i v n' room show thesis by (auto simp: room_of_def reading_def)
  next
    assume o: "top_type (ps_heap st1) = Some T_Object"
    have "counting (nd_val (h_nodes (ps_heap st1) ! i))" using t(3) i by (simp add: heap_ok_def nodes_ok_def)
    with o i obtain n m where v: "nd_val (h_nodes (ps_heap st1) ! i) = V_Object n m"
      by (cases "nd_val (h_nodes (ps_heap st1) ! i)") (auto simp: top_type_def)
    have "n < cnt (nd_val (H ! i))" using assms(3,4) i v by (auto simp: fits_def entry_room_def)
    with tw v obtain n' m' es p where n': "nd_val (H ! i) = V_Object n' m'" "nd_val (h_nodes (ps_heap st2) ! i) = F_Object n' m' m es p" "length es = n" "n < n'"
      by (auto split: if_splits)
    have "m + h_strlen (ps_heap st1) + 1 \<le> m'" using assms(3,4) i v n' by (auto simp: fits_def name_room_def)
    with that i v n' room show thesis by (auto simp: room_of_def reading_def)
  qed
qed

lemma string_add_sim:
  assumes "paired H st1 st2" and "first_inv js text st1" and "fl_string (ps_flags st1)"
    and "ps_heap s1 = ps_heap st1" "ps_heap s2 = ps_heap st2" "ps_ptr s2 = ps_ptr s1" "ps_line s2 = ps_line s1" "num_flags_eq (ps_flags s2) (ps_flags s1)"
    "fl_string (ps_flags s1)" "\<not> fl_seek_value (ps_flags s1)"
  shows "sim H (with_heap s1 (string_add True bs (ps_heap s1)) (\<lambda>st. Continue (advance st)))
    (with_heap s2 (string_add False bs (ps_heap s2)) (\<lambda>st. Continue (advance st)))"
proof -
  let ?h1 = "(ps_heap st1)\<lparr>h_strlen := h_strlen (ps_heap st1) + length bs\<rparr>"
  let ?r1 = "advance (s1\<lparr>ps_heap := ?h1\<rparr>)"
  have r1: "with_heap s1 (string_add True bs (ps_heap s1)) (\<lambda>st. Continue (advance st)) = Continue ?r1"
    using assms(4) by (simp add: with_heap_def string_ops_ok)
  note d = pairedD [OF assms(1)]
  have seek: "\<not> fl_seek_value (ps_flags st1)" using assms(2,3) by (auto simp: first_inv_def ctl_ok_def)
  have gr: "grows st1 ?r1" by (rule grows_same) (use assms(4,9) seek in simp_all)
  show ?thesis
  proof (cases "fits H ?r1")
    case True
    with gr have "fits H st1" by (simp add: grows_def)
    from open_string_top [OF assms(1,2) this assms(3)] obtain i where
      i: "h_top (ps_heap st1) = Some i" "reading H (ps_heap st1) (ps_heap st2) i" by blast
    have room: "h_strlen (ps_heap st1) + length bs \<le> h_room (ps_heap st2)"
      using i(2) unfolding reading_def
    proof (elim disjE exE conjE)
      fix n' sl
      assume "nd_val (h_nodes (ps_heap st1) ! i) = V_String 0" "nd_val (H ! i) = V_String n'" "h_room (ps_heap st2) = n' + 1"
      with True i(1) assms(9) show ?thesis by (auto simp: fits_def string_room_def)
    next
      fix n m n' m' es p
      assume "nd_val (h_nodes (ps_heap st1) ! i) = V_Object n m" "nd_val (H ! i) = V_Object n' m'" "h_room (ps_heap st2) = m' - m"
      with True i(1) assms(9) show ?thesis by (auto simp: fits_def name_room_def)
    qed
    let ?h2 = "(ps_heap st2)\<lparr>h_buf := h_buf (ps_heap st2) @ bs, h_strlen := h_strlen (ps_heap st2) + length bs\<rparr>"
    have r2: "with_heap s2 (string_add False bs (ps_heap s2)) (\<lambda>st. Continue (advance st)) = Continue (advance (s2\<lparr>ps_heap := ?h2\<rparr>))"
      using assms(5) room pairedD(8) [OF assms(1)] by (simp add: with_heap_def string_add_def)
    have "hpair H ?h1 ?h2" using d(4) by (simp add: hpair_def)
    moreover have "names_ok (ps_flags s1) ?h1 ?h2" using d(5) assms(10) by (simp add: names_ok_def open_above_simps)
    moreover have "buffer_ok H (ps_flags s1) ?h1 ?h2" using d(6) assms(3) by (simp add: buffer_ok_def)
    moreover have "settled (ps_flags s1) ?h1" using assms(2,3) by (auto simp: settled_def num_type_def first_inv_def ctl_ok_def)
    ultimately have "paired H ?r1 (advance (s2\<lparr>ps_heap := ?h2\<rparr>))" using assms(6-8) by (simp add: paired_def)
    then show ?thesis unfolding r1 r2 by (rule sim_both)
  qed (simp add: r1 sim_def)
qed

lemma escape_section_sim:
  assumes "paired H st1 st2" and "first_inv js text st1" and "fl_string (ps_flags st1)"
  shows "sim H (escape_section True text b st1) (escape_section False text b st2)"
proof -
  note d = pairedD [OF assms(1)]
  have f: "\<not> fl_seek_value (ps_flags st1)" using assms(2,3) by (auto simp: first_inv_def ctl_ok_def)
  let ?u = "upd_flags (\<lambda>f. f\<lparr>fl_escaped := False\<rparr>)"
  have add: "sim H (with_heap (?u st1) (string_add True bs (ps_heap st1)) (\<lambda>st. Continue (advance st)))
      (with_heap (?u st2) (string_add False bs (ps_heap st2)) (\<lambda>st. Continue (advance st)))" for bs
    using string_add_sim [OF assms, of "?u st1" "?u st2" bs] d f assms(3) by (simp add: num_flags_eq_def)
  have addp: "sim H (with_heap ((?u st1)\<lparr>ps_ptr := i\<rparr>) (string_add True bs (ps_heap st1)) (\<lambda>st. Continue (advance st)))
      (with_heap ((?u st2)\<lparr>ps_ptr := i\<rparr>) (string_add False bs (ps_heap st2)) (\<lambda>st. Continue (advance st)))" for bs i
    using string_add_sim [OF assms, of "(?u st1)\<lparr>ps_ptr := i\<rparr>" "(?u st2)\<lparr>ps_ptr := i\<rparr>" bs] d f assms(3) by (simp add: num_flags_eq_def)
  show ?thesis
  proof (cases "b = CHR ''u''")
    case True
    with d addp show ?thesis by (auto simp: escape_section_def Let_def split: option.split)
  qed (simp add: escape_section_def Let_def add)
qed

lemma hpair_set_node:
  assumes "hpair H h1 h2" and "i < length (h_nodes h1)" and "twin v w (nd_val (H ! i))" and "kids_of w = kids_at (h_nodes h2) i"
  shows "hpair H (set_node i v h1) (set_node i w h2)"
proof -
  have "kin (h_nodes (set_node i v h1)) (h_nodes (set_node i w h2)) (h_top h1)"
    using assms(1,2,4) unfolding set_node_def by (simp add: hpair_def kin_put)
  with assms(1-3) show ?thesis unfolding hpair_def by (auto simp: set_node_def nth_list_update)
qed

text \<open>The value at the top is linked.\<close>

lemma hpair_link:
  assumes "hpair H h1 h2" and "h_top h1 = Some i" and "i < length (h_nodes h1)" and "nd_parent (h_nodes h1 ! i) = Some p" and "p < i"
    and "twin v w (nd_val (H ! p))" and "kids_of w = kids_at (h_nodes h2) p @ [i]"
  shows "hpair H ((set_node p v h1)\<lparr>h_top := Some p\<rparr>) ((set_node p w h2)\<lparr>h_top := Some p\<rparr>)"
proof -
  have "kin (h_nodes h1) (h_nodes h2) (Some i)" "length (h_nodes h1) \<le> length (h_nodes h2)" using assms(1,2) by (auto simp: hpair_def)
  from kin_link [OF this(1) assms(3-5) this(2) assms(7), of v]
  have "kin (h_nodes (set_node p v h1)) (h_nodes (set_node p w h2)) (Some p)" by (simp add: set_node_def)
  with assms(1,3,5,6) show ?thesis unfolding hpair_def by (auto simp: set_node_def nth_list_update)
qed

lemma hpair_fields: "hpair H h1 h2 \<Longrightarrow> hpair H (h1\<lparr>h_room := r1\<rparr>) (h2\<lparr>h_room := r2\<rparr>)"
  by (simp add: hpair_def)

lemma set_node_nth: "i < length (h_nodes h) \<Longrightarrow> nd_val (h_nodes (set_node i v h) ! k) = (if k = i then v else nd_val (h_nodes h ! k))"
  by (simp add: set_node_def nth_list_update)

lemma set_node_fields [simp]:
  "h_top (set_node i v h) = h_top h" "h_root (set_node i v h) = h_root h" "h_alloc (set_node i v h) = h_alloc h" "h_strlen (set_node i v h) = h_strlen h"
  "h_buf (set_node i v h) = h_buf h" "h_room (set_node i v h) = h_room h" "length (h_nodes (set_node i v h)) = length (h_nodes h)"
  by (simp_all add: set_node_def)

lemma open_above_top: "h_top h = Some i \<Longrightarrow> p \<in> set (open_above h) \<Longrightarrow> p < i"
  by (simp add: open_above_def chain_less)

lemma end_string_sim:
  assumes "paired H st1 st2" and "first_inv js text st1" and "fits H st1" and "fl_string (ps_flags st1)" and "top_type (ps_heap st1) = Some T_String"
    and "ps_heap s1 = end_string ((ps_heap st1)\<lparr>h_room := 0\<rparr>)" "ps_heap s2 = end_string ((ps_heap st2)\<lparr>h_room := 0\<rparr>)"
    "ps_ptr s2 = ps_ptr s1" "ps_line s2 = ps_line s1" "num_flags_eq (ps_flags s2) (ps_flags s1)" "\<not> fl_string (ps_flags s1)" "\<not> fl_seek_value (ps_flags s1)"
  shows "paired H s1 s2"
proof -
  note d = pairedD [OF assms(1)]
  obtain i where i: "h_top (ps_heap st1) = Some i" "i < length (h_nodes (ps_heap st1))" "reading H (ps_heap st1) (ps_heap st2) i"
    using open_string_top [OF assms(1-4)] by blast
  with assms(5) obtain n' sl where n': "nd_val (h_nodes (ps_heap st1) ! i) = V_String 0" "nd_val (H ! i) = V_String n'" "nd_val (h_nodes (ps_heap st2) ! i) = F_String n' sl"
    by (auto simp: reading_def top_type_def)
  have len: "length (h_buf (ps_heap st2)) = h_strlen (ps_heap st1)" using d(6) i assms(4) by (simp add: buffer_ok_def)
  have h: "ps_heap s1 = set_node i (V_String (h_strlen (ps_heap st1))) ((ps_heap st1)\<lparr>h_room := 0\<rparr>)"
    "ps_heap s2 = set_node i (F_String n' (h_buf (ps_heap st2))) ((ps_heap st2)\<lparr>h_room := 0\<rparr>)"
    using assms(6,7) i n' d(7) by (simp_all add: end_string_def top_val_def set_top_def)
  have "hpair H (ps_heap s1) (ps_heap s2)"
    unfolding h by (rule hpair_set_node [OF hpair_fields [OF d(4)]]) (use i n' len in simp_all)
  moreover have "names_ok (ps_flags s1) (ps_heap s1) (ps_heap s2)"
    using d(4,5) i assms(12) open_above_top [OF i(1)] unfolding h
    by (auto simp: names_ok_def open_above_set_node open_above_simps set_node_nth hpair_def)
  moreover have "settled (ps_flags s1) (ps_heap s1)" using i unfolding h by (simp add: settled_def num_type_def top_type_def set_node_nth)
  ultimately show ?thesis using assms(8-11) by (simp add: paired_def buffer_ok_def)
qed

lemma end_name_sim:
  assumes "paired H st1 st2" and "first_inv js text st1" and "fits H st1" and "fl_string (ps_flags st1)" and "top_type (ps_heap st1) = Some T_Object"
    and "end_name True ((ps_heap st1)\<lparr>h_room := 0\<rparr>) = Inr h1"
  shows "\<exists>h2. end_name False ((ps_heap st2)\<lparr>h_room := 0\<rparr>) = Inr h2 \<and>
    (\<forall>s1 s2. ps_heap s1 = h1 \<and> ps_heap s2 = h2 \<and> ps_ptr s2 = ps_ptr s1 \<and> ps_line s2 = ps_line s1 \<and> num_flags_eq (ps_flags s2) (ps_flags s1) \<and>
       \<not> fl_string (ps_flags s1) \<longrightarrow> paired H s1 s2)"
proof -
  note d = pairedD [OF assms(1)]
  obtain i where i: "h_top (ps_heap st1) = Some i" "i < length (h_nodes (ps_heap st1))" "reading H (ps_heap st1) (ps_heap st2) i"
    using open_string_top [OF assms(1-4)] by blast
  with assms(5) obtain n m n' m' es p where n': "nd_val (h_nodes (ps_heap st1) ! i) = V_Object n m" "nd_val (H ! i) = V_Object n' m'"
    "nd_val (h_nodes (ps_heap st2) ! i) = F_Object n' m' m es p" "length es = n" "n < n'"
    by (auto simp: reading_def top_type_def)
  let ?h2 = "set_node i (F_Object n' m' (m + h_strlen (ps_heap st1) + 1) es (Some (h_buf (ps_heap st2)))) ((ps_heap st2)\<lparr>h_room := 0\<rparr>)"
  have h1: "h1 = set_node i (V_Object n (m + h_strlen (ps_heap st1) + 1)) ((ps_heap st1)\<lparr>h_room := 0\<rparr>)"
    using assms(6) i n' by (auto simp: end_name_def top_val_def set_top_def)
  have h2: "end_name False ((ps_heap st2)\<lparr>h_room := 0\<rparr>) = Inr ?h2"
    using i n' d(7,8) by (auto simp: end_name_def top_val_def set_top_def)
  have "hpair H h1 ?h2"
    unfolding h1 by (rule hpair_set_node [OF hpair_fields [OF d(4)]]) (use i n' in simp_all)
  moreover have "names_ok f h1 ?h2" for f
    using d(4,5) i open_above_top [OF i(1)] unfolding h1
    by (auto simp: names_ok_def open_above_set_node open_above_simps set_node_nth hpair_def)
  moreover have "settled f h1" for f using i unfolding h1 by (simp add: settled_def num_type_def top_type_def set_node_nth)
  ultimately show ?thesis using h2 by (auto simp: paired_def buffer_ok_def)
qed

lemma string_section_sim:
  assumes "paired H st1 st2" and "first_inv js text st1" and "fits H st1"
  shows "sim H (string_section True text b st1) (string_section False text b st2)"
proof (cases "fl_string (ps_flags st1)")
  case True
  note d = pairedD [OF assms(1)] and f = num_flags_eqD [OF pairedD(3) [OF assms(1)]]
  have c: "\<not> fl_seek_value (ps_flags st1)" "heap_ok (ps_heap st1)" "top_type (ps_heap st1) = Some T_String \<or> top_type (ps_heap st1) = Some T_Object"
    using assms(2) True by (auto simp: first_inv_def ctl_ok_def)
  have tt: "top_type (ps_heap st2) = top_type (ps_heap st1)"
    using hpair_top_type [OF d(4) c(2)] assms(3) c(3) by (auto simp: fits_def num_type_def)
  have room: "h_strlen (ps_heap st2) < h_room (ps_heap st2)" using open_string_top [OF assms True] d(8) by metis
  have esc: "sim H (Continue (advance (upd_flags (\<lambda>f. f\<lparr>fl_escaped := True\<rparr>) st1))) (Continue (advance (upd_flags (\<lambda>f. f\<lparr>fl_escaped := True\<rparr>) st2)))"
    by (rule sim_both, rule paired_flags [OF assms(1)]) (use d in \<open>simp_all add: num_flags_eq_def\<close>)
  have add: "sim H (with_heap st1 (string_add True bs (ps_heap st1)) (\<lambda>st. Continue (advance st)))
    (with_heap st2 (string_add False bs (ps_heap st2)) (\<lambda>st. Continue (advance st)))" for bs
    by (rule string_add_sim [OF assms(1,2) True]) (use d c True in simp_all)
  let ?quote = "\<lambda>fp st. with_heap st (string_close fp (ps_heap st)) (\<lambda>st.
          let st = upd_flags (\<lambda>f. f\<lparr>fl_string := False\<rparr>) st
          in case top_type (ps_heap st) of
               Some T_String \<Rightarrow> Fall (upd_flags (\<lambda>f. f\<lparr>fl_next := True\<rparr>) (upd_heap end_string st))
             | Some T_Object \<Rightarrow>
                 with_heap st (end_name fp (ps_heap st)) (\<lambda>st.
                   Continue (advance (upd_flags (\<lambda>f. f\<lparr>fl_seek_value := True, fl_need_colon := True\<rparr>) st)))
             | None \<Rightarrow> Fail (P_Fault Null_Deref)
             | _ \<Rightarrow> Fall st)"
  have quote: "sim H (?quote True st1) (?quote False st2)"
    using c(3)
  proof
    assume t: "top_type (ps_heap st1) = Some T_String"
    let ?s = "\<lambda>st. upd_flags (\<lambda>f. f\<lparr>fl_next := True\<rparr>) (upd_heap end_string (upd_flags (\<lambda>f. f\<lparr>fl_string := False\<rparr>) (st\<lparr>ps_heap := (ps_heap st)\<lparr>h_room := 0\<rparr>\<rparr>)))"
    have "paired H (?s st1) (?s st2)"
      by (rule end_string_sim [OF assms True t]) (use d c in \<open>simp_all add: num_flags_eq_def\<close>)
    then have "sim H (Fall (?s st1)) (Fall (?s st2))" by (rule sim_both)
    with t tt room show ?thesis by (simp add: with_heap_def string_close_def)
  next
    assume t: "top_type (ps_heap st1) = Some T_Object"
    obtain h1 where h1: "end_name True ((ps_heap st1)\<lparr>h_room := 0\<rparr>) = Inr h1"
      using end_name_ok [of "(ps_heap st1)\<lparr>h_room := 0\<rparr>"] c(2) t by auto
    obtain h2 where h2: "end_name False ((ps_heap st2)\<lparr>h_room := 0\<rparr>) = Inr h2"
      and p: "\<And>s1 s2. ps_heap s1 = h1 \<Longrightarrow> ps_heap s2 = h2 \<Longrightarrow> ps_ptr s2 = ps_ptr s1 \<Longrightarrow> ps_line s2 = ps_line s1 \<Longrightarrow>
        num_flags_eq (ps_flags s2) (ps_flags s1) \<Longrightarrow> \<not> fl_string (ps_flags s1) \<Longrightarrow> paired H s1 s2"
      using end_name_sim [OF assms True t h1] by blast
    let ?s = "\<lambda>st h. advance (upd_flags (\<lambda>f. f\<lparr>fl_seek_value := True, fl_need_colon := True\<rparr>)
      ((upd_flags (\<lambda>f. f\<lparr>fl_string := False\<rparr>) (st\<lparr>ps_heap := (ps_heap st)\<lparr>h_room := 0\<rparr>\<rparr>))\<lparr>ps_heap := h\<rparr>))"
    have "paired H (?s st1 h1) (?s st2 h2)" by (rule p) (use d in \<open>simp_all add: num_flags_eq_def\<close>)
    then have "sim H (Continue (?s st1 h1)) (Continue (?s st2 h2))" by (rule sim_both)
    with t tt room h1 h2 show ?thesis by (simp add: with_heap_def string_close_def)
  qed
  show ?thesis
    unfolding string_section_def
    using True f d(8) esc quote escape_section_sim [OF assms(1,2) True] add by (simp add: Let_def)
next
  case False
  with num_flags_eqD(6) [OF pairedD(3) [OF assms(1)]] assms(1) show ?thesis by (simp add: string_section_def sim_both)
qed

section \<open>The other sections\<close>

lemma skip_ws_sim:
  assumes "paired H st1 st2"
  shows "sim H (skip_ws b st1) (skip_ws b st2)"
  unfolding skip_ws_def
  by (rule sim_both, rule paired_flags [OF assms]) (use pairedD(1-3) [OF assms] in \<open>simp_all split: if_splits\<close>)

lemma comment_section_sim:
  assumes "paired H st1 st2" and "first_inv js text st1" and "fits H st1" and "\<not> fl_string (ps_flags st1)"
  shows "sim H (comment_section js text b st1) (comment_section js text b st2)"
proof -
  note d = pairedD [OF assms(1)] and f = num_flags_eqD [OF pairedD(3) [OF assms(1)]]
  have tt: "top_type (ps_heap st2) = top_type (ps_heap st1)" if "\<not> num_type (top_type (ps_heap st1))"
    using hpair_top_type [OF d(4) _ _ that] assms(2,3) by (simp add: first_inv_def fits_def)
  have go: "sim H (Continue s1) (Continue s2)"
    if "ps_heap s1 = ps_heap st1" "ps_heap s2 = ps_heap st2" "ps_ptr s2 = ps_ptr s1" "ps_line s2 = ps_line s1" "num_flags_eq (ps_flags s2) (ps_flags s1)"
      "fl_seek_value (ps_flags s1) = fl_seek_value (ps_flags st1)" "fl_string (ps_flags s1) = fl_string (ps_flags st1)" "fl_done (ps_flags s1) = fl_done (ps_flags st1)"
    for s1 s2
    by (rule sim_both, rule paired_flags [OF assms(1)]) (use that in simp_all)
  have fall: "sim H (Fall st1) (Fall st2)" using assms(1) by (rule sim_both)
  show ?thesis
  proof (cases "num_type (top_type (ps_heap st1)) \<and> b = CHR ''/'' \<and> \<not> fl_seek_value (ps_flags st1) \<and> \<not> fl_done (ps_flags st1)")
    case True
    with d(9) show ?thesis by (simp add: settled_def)
  next
    case False
    have same: "\<not> fl_seek_value (ps_flags st1) \<and> \<not> fl_done (ps_flags st1) \<Longrightarrow> b = CHR ''/'' \<Longrightarrow> top_type (ps_heap st2) = top_type (ps_heap st1)"
      using tt False by blast
    have eq: "num_flags_eq (ps_flags st2) (ps_flags st1)"
      "num_flags_eq ((ps_flags st2)\<lparr>fl_line_comment := l\<rparr>) ((ps_flags st1)\<lparr>fl_line_comment := l\<rparr>)"
      "num_flags_eq ((ps_flags st2)\<lparr>fl_block_comment := l\<rparr>) ((ps_flags st1)\<lparr>fl_block_comment := l\<rparr>)" for l
      using d(3) by (simp_all add: num_flags_eq_def)
    show ?thesis
      unfolding comment_section_def Let_def
      using same by (cases "fl_seek_value (ps_flags st1)"; cases "fl_done (ps_flags st1)"; cases "b = CHR ''/''") (simp_all add: f d(1,2) fall go eq)
  qed
qed

lemma done_section_sim: "paired H st1 st2 \<Longrightarrow> sim H (done_section b st1) (done_section b st2)"
  using skip_ws_sim [of H st1 st2 b] sim_both [of H st1 st2] num_flags_eqD [of "ps_flags st2" "ps_flags st1"] pairedD(3) [of H st1 st2]
  by (simp add: done_section_def)

lemma open_name_sim:
  assumes "paired H st1 st2" and "top_type (ps_heap st1) = Some T_Object" and "heap_ok (ps_heap st1)"
  shows "buffer_ok H f (open_name (ps_heap st1)) (open_name (ps_heap st2))"
proof -
  note d = pairedD [OF assms(1)]
  obtain i where i: "h_top (ps_heap st1) = Some i" "i < length (h_nodes (ps_heap st1))" "payload_type (nd_val (h_nodes (ps_heap st1) ! i)) = T_Object"
    using assms(2,3) by (auto simp: top_type_def heap_ok_def)
  have "counting (nd_val (h_nodes (ps_heap st1) ! i))" using assms(3) i by (simp add: heap_ok_def nodes_ok_def)
  with i(3) obtain n m where v: "nd_val (h_nodes (ps_heap st1) ! i) = V_Object n m" by (cases "nd_val (h_nodes (ps_heap st1) ! i)") auto
  have "twin (nd_val (h_nodes (ps_heap st1) ! i)) (nd_val (h_nodes (ps_heap st2) ! i)) (nd_val (H ! i))"
    using d(4) i by (simp add: hpair_def)
  with v i d(7) show ?thesis by (auto simp: buffer_ok_def open_name_def top_val_def room_of_def)
qed

lemma object_section_sim:
  assumes "paired H st1 st2" and "top_type (ps_heap st1) = Some T_Object" and "heap_ok (ps_heap st1)"
    and "\<not> fl_seek_value (ps_flags st1)" "\<not> fl_string (ps_flags st1)"
  shows "sim H (object_section b st1) (object_section b st2)"
proof -
  note d = pairedD [OF assms(1)] and f = num_flags_eqD [OF pairedD(3) [OF assms(1)]]
  let ?s = "\<lambda>st. upd_heap open_name (upd_flags (\<lambda>f. f\<lparr>fl_string := True\<rparr>) st)"
  have "hpair H (open_name (ps_heap st1)) (open_name (ps_heap st2))" using d(4) by (simp add: hpair_def open_name_def)
  moreover have "names_ok ((ps_flags st1)\<lparr>fl_string := True\<rparr>) (open_name (ps_heap st1)) (open_name (ps_heap st2))"
    using d(5) assms(4) by (simp add: names_ok_def open_name_def open_above_simps)
  moreover have "settled ((ps_flags st1)\<lparr>fl_string := True\<rparr>) (open_name (ps_heap st1))"
    using assms(2) by (simp add: settled_def string_ops_ok num_type_def)
  ultimately have "paired H (?s st1) (?s st2)"
    using open_name_sim [OF assms(1-3)] d by (simp add: paired_def num_flags_eq_def)
  then have name: "sim H (Fall (?s st1)) (Fall (?s st2))" by (rule sim_both)
  have flags: "sim H (Fall (upd_flags g st1)) (Fall (upd_flags g st2))"
    if "g = (\<lambda>f. f\<lparr>fl_need_comma := False, fl_next := True\<rparr>) \<or> g = (\<lambda>f. f\<lparr>fl_need_comma := False\<rparr>)" for g
    using that by (elim disjE; intro sim_both paired_flags [OF assms(1)]) (use d(1-3) in \<open>simp_all add: num_flags_eq_def\<close>)
  show ?thesis
    unfolding object_section_def using skip_ws_sim [OF assms(1)] name flags f by simp
qed

section \<open>New values\<close>

text \<open>The memory the second pass gives to a value that was counted.\<close>

fun filled :: "payload \<Rightarrow> payload" where
  "filled (V_Array n) = F_Array n []"
| "filled (V_Object n m) = F_Object n (if n = 0 then 0 else m) 0 [] None"
| "filled (V_String n) = F_String n []"
| "filled v = v"

definition taken :: "nat \<Rightarrow> pheap \<Rightarrow> pheap" where
  "taken a h = h\<lparr>h_top := Some a, h_alloc := (if Suc a < length (h_nodes h) then Some (Suc a) else None),
     h_root := (if h_root h = None then Some a else h_root h)\<rparr>"

lemma alloc_cases:
  "\<exists>u c. (case json_alloc js n h of (ok, h) \<Rightarrow> if \<not> ok then Inl h else Inr (set_node a w h)) \<in>
     {Inl (h\<lparr>h_used := u, h_calls := c\<rparr>), Inr (set_node a w (h\<lparr>h_used := u, h_calls := c\<rparr>))}"
  using json_alloc_fields [of js n h] by (cases "json_alloc js n h") auto

lemma new_value_second_cases:
  "\<exists>u c. new_value_second js a h \<in>
     {Inl ((taken a h)\<lparr>h_used := u, h_calls := c\<rparr>), Inr (set_node a (filled (nd_val (h_nodes h ! a))) ((taken a h)\<lparr>h_used := u, h_calls := c\<rparr>))}"
proof -
  have nodes: "h_nodes (taken a h) = h_nodes h" by (simp add: taken_def)
  have keep: "\<exists>u c. set_node a w (taken a h) = set_node a w ((taken a h)\<lparr>h_used := u, h_calls := c\<rparr>)" for w
    by (rule exI [of _ "h_used (taken a h)"], rule exI [of _ "h_calls (taken a h)"]) simp
  have "taken a h = set_node a (nd_val (h_nodes h ! a)) (taken a h)" by (simp add: set_node_def nodes)
  with keep have same: "\<exists>u c. taken a h = set_node a (nd_val (h_nodes h ! a)) ((taken a h)\<lparr>h_used := u, h_calls := c\<rparr>)" by metis
  have def: "new_value_second js a h = (case nd_val (h_nodes h ! a) of
           V_Array n \<Rightarrow>
             if n = 0 then Inr (set_node a (F_Array 0 []) (taken a h))
             else (case json_alloc js (n * sizeof_pointer) (taken a h) of (ok, h) \<Rightarrow>
                     if \<not> ok then Inl h else Inr (set_node a (F_Array n []) h))
         | V_Object n m \<Rightarrow>
             if n = 0 then Inr (set_node a (F_Object 0 0 0 [] None) (taken a h))
             else (case json_alloc js (sizeof_entry * n + m) (taken a h) of (ok, h) \<Rightarrow>
                     if \<not> ok then Inl h else Inr (set_node a (F_Object n m 0 [] None) h))
         | V_String n \<Rightarrow>
             (case json_alloc js (n + 1) (taken a h) of (ok, h) \<Rightarrow>
                if \<not> ok then Inl h else Inr (set_node a (F_String n []) h))
         | _ \<Rightarrow> Inr (taken a h))"
    unfolding new_value_second_def Let_def taken_def [symmetric] nodes ..
  show ?thesis
    unfolding def using keep same alloc_cases [where js = js and h = "taken a h" and a = a]
    by (cases "nd_val (h_nodes h ! a)") simp_all
qed

lemma twin_filled: "le_payload (zero_payload t) v \<Longrightarrow> twin (zero_payload t) (filled v) v"
  by (cases t; cases v) auto

text \<open>An allocation of the second pass fails.\<close>

lemma hollow_twin: "twin v w u \<Longrightarrow> le_payload v u \<Longrightarrow> \<not> hollow w"
  by (cases v; cases u) auto

lemma taken_wrecked:
  assumes "hpair H h1 h2" and "heap_ok h1" and "sized H (h_nodes h1)" and "length (h_nodes h1) < length H" and "le_payload (zero_payload t) (nd_val (h_nodes h2 ! length (h_nodes h1)))"
  shows "wrecked H ((taken (length (h_nodes h1)) h2)\<lparr>h_used := u, h_calls := c\<rparr>)"
proof -
  let ?a = "length (h_nodes h1)" and ?ns = "h_nodes h2"
  let ?g = "(taken ?a h2)\<lparr>h_used := u, h_calls := c\<rparr>"
  have k: "kin (h_nodes h1) ?ns (h_top h1)" and len: "?a < length ?ns" using assms(1,4) by (auto simp: hpair_def)
  have par: "nd_parent (?ns ! i) = nd_parent (h_nodes h1 ! i)" if "i < ?a" for i using assms(1) that by (simp add: hpair_def)
  have kids: "c < ?a \<and> i < c \<and> nd_parent (?ns ! c) = Some i" if i: "i < ?a" "c \<in> set (kids_at ?ns i)" for i c
    using kinD(2) [OF k i] par [of c] assms(2) by (auto simp: heap_ok_def nodes_ok_def)
  have "\<not> hollow (nd_val (?ns ! i))" if "i < ?a" for i
    using assms(1,3) that by (intro hollow_twin [of "nd_val (h_nodes h1 ! i)" _ "nd_val (H ! i)"]) (auto simp: hpair_def sized_def)
  moreover have "kids_at ?ns ?a = []" using assms(5) by (cases t; cases "nd_val (?ns ! ?a)") auto
  moreover have "h_root h2 = (if ?a = 0 then None else Some 0)" using assms(1,2) by (simp add: hpair_def heap_ok_def)
  then have "h_nodes ?g = ?ns" "h_top ?g = Some ?a" "h_root ?g = Some 0" "h_alloc ?g = (if Suc ?a < length ?ns then Some (Suc ?a) else None)"
    by (simp_all add: taken_def)
  moreover have "distinct (kids_at ?ns i)" if "i < ?a" for i using kinD(1) [OF k that] .
  moreover have "\<forall>i. ?a \<le> i \<and> i < length H \<longrightarrow> ?ns ! i = H ! i" "length ?ns = length H" using assms(1) by (auto simp: hpair_def)
  ultimately show ?thesis
    unfolding wrecked_def using len kids by metis
qed

lemma new_value_sim:
  assumes "hpair H h1 h2" and "new_value True js t line h1 = Inr h1'" and "sized H (h_nodes h1')" and "heap_ok h1"
  shows "(\<exists>g. new_value False js t line h2 = Inl (P_Error line E_Alloc g) \<and> wrecked H g) \<or>
    (\<exists>h2'. new_value False js t line h2 = Inr h2' \<and> hpair H h1' h2' \<and> h_buf h2' = h_buf h2 \<and>
       nd_val (h_nodes h2' ! length (h_nodes h1)) = filled (nd_val (H ! length (h_nodes h1))) \<and>
       (\<forall>i < length (h_nodes h1). nd_val (h_nodes h2' ! i) = nd_val (h_nodes h2 ! i)))"
proof -
  let ?a = "length (h_nodes h1)"
  note h1' = new_value_first_heap [OF assms(2)]
  have len: "?a < length H" using assms(3) h1' by (simp add: sized_def)
  have H: "nd_parent (H ! ?a) = h_top h1" "le_payload (zero_payload t) (nd_val (H ! ?a))"
    using assms(3) h1' by (auto simp: sized_def nth_append)
  have al: "h_alloc h2 = Some ?a" "h_nodes h2 ! ?a = H ! ?a" "length (h_nodes h2) = length H" using assms(1) len by (simp_all add: hpair_def)
  show ?thesis
  proof (cases "new_value_second js ?a h2")
    case (Inl g)
    with new_value_second_cases [of js ?a h2] obtain u c where g: "g = (taken ?a h2)\<lparr>h_used := u, h_calls := c\<rparr>" by auto
    have "wrecked H g" unfolding g by (rule taken_wrecked [OF assms(1,4) sized_append [OF assms(3) [unfolded conjunct1 [OF h1']]] len]) (use H(2) al in simp)
    with Inl al show ?thesis by (simp add: new_value_def)
  next
    case (Inr h2')
    with new_value_second_cases [of js ?a h2] al obtain u c where
      h2': "h2' = set_node ?a (filled (nd_val (H ! ?a))) ((taken ?a h2)\<lparr>h_used := u, h_calls := c\<rparr>)" by auto
    have val: "h_nodes h2' ! i = (if i = ?a then (H ! ?a)\<lparr>nd_val := filled (nd_val (H ! ?a))\<rparr> else h_nodes h2 ! i)" for i
      using al len by (simp add: h2' set_node_def taken_def)
    have nokids: "kids_of (filled w) = []" if "le_payload (zero_payload t) w" for w using that by (cases t; cases w) auto
    have "kin (h_nodes h1 @ [\<lparr>nd_parent = h_top h1, nd_val = zero_payload t\<rparr>]) (h_nodes h2') (Some ?a)"
      by (rule kin_new [of _ "h_nodes h2"]) (use assms(1,4) val nokids [OF H(2)] in \<open>auto simp: hpair_def heap_ok_def\<close>)
    then have "hpair H h1' h2'"
      using assms(1) h1' len H twin_filled [OF H(2)] val al
      by (auto simp: hpair_def h2' taken_def nth_append less_Suc_eq)
    moreover have "h_buf h2' = h_buf h2" by (simp add: h2' taken_def)
    ultimately show ?thesis using Inr al val by (simp add: new_value_def)
  qed
qed

text \<open>A value is created under the value at the top, which has its name if it is an object.\<close>

lemma new_names_ok:
  assumes "names_ok f h1 h2" and "fl_seek_value f" and "heap_ok h1" and "new_value True js t line h1 = Inr h1'"
    and "\<forall>i < length (h_nodes h1). nd_val (h_nodes h2' ! i) = nd_val (h_nodes h2 ! i)"
    and "nd_val (h_nodes h2' ! length (h_nodes h1)) = filled v" and "t = T_Object \<Longrightarrow> \<not> fl_seek_value g" and "le_payload (zero_payload t) v"
  shows "names_ok g h1' h2'"
proof -
  note h1' = new_value_first_heap [OF assms(4)]
  have above: "p < length (h_nodes h1) \<and> named (nd_val (h_nodes h2 ! p))" if "p \<in> set (open_above h1')" for p
  proof (cases "h_top h1")
    case None
    with that h1' show ?thesis by (simp add: open_above_def chain.simps [of "h_nodes h1 @ _"])
  next
    case (Some i)
    then have i: "i < length (h_nodes h1)" using assms(3) by (simp add: heap_ok_def)
    with Some h1' that have "p = i \<or> p \<in> set (open_above h1)"
      by (simp add: open_above_def chain.simps [of "h_nodes h1 @ _" "length (h_nodes h1)"] chain_append)
    then show ?thesis
      using assms(1,2) Some i open_above_top [OF Some, of p] by (auto simp: names_ok_def)
  qed
  have "named (filled v)" if "fl_seek_value g"
    using assms(7,8) that by (cases t; cases v) auto
  with above assms(5,6) h1' show ?thesis by (auto simp: names_ok_def)
qed

lemma new_sim:
  assumes "paired H st1 st2" and "fl_seek_value (ps_flags st1)" and "heap_ok (ps_heap st1)"
    and "ps_heap s1 = ps_heap st1" "ps_heap s2 = ps_heap st2"
    and "\<And>h1 h2. new_value True js t line (ps_heap st1) = Inr h1 \<Longrightarrow> hpair H h1 h2 \<Longrightarrow> top_type h1 = Some t \<Longrightarrow> top_val h1 = zero_payload t \<Longrightarrow>
        top_val h2 = filled (nd_val (H ! length (h_nodes (ps_heap st1)))) \<Longrightarrow> (\<And>f. t \<noteq> T_Object \<or> \<not> fl_seek_value f \<Longrightarrow> names_ok f h1 h2) \<Longrightarrow>
        sim H (k1 (s1\<lparr>ps_heap := h1\<rparr>)) (k2 (s2\<lparr>ps_heap := h2\<rparr>))"
    and "\<And>h1 st. new_value True js t line (ps_heap st1) = Inr h1 \<Longrightarrow> k1 (s1\<lparr>ps_heap := h1\<rparr>) \<in> {Continue st, Fall st, Break st} \<Longrightarrow> fits H st \<Longrightarrow> sized H (h_nodes h1)"
  shows "sim H (with_heap s1 (new_value True js t line (ps_heap s1)) k1) (with_heap s2 (new_value False js t line (ps_heap s2)) k2)"
proof (cases "new_value True js t line (ps_heap st1)")
  case (Inr h1)
  note d = pairedD [OF assms(1)]
  show ?thesis
  proof (cases "sized H (h_nodes h1)")
    case True
    note n1 = new_value_first_heap [OF Inr]
    from new_value_sim [OF d(4) Inr True assms(3)] show ?thesis
    proof (elim disjE exE conjE)
      fix h2
      assume h2: "new_value False js t line (ps_heap st2) = Inr h2" "hpair H h1 h2"
        "nd_val (h_nodes h2 ! length (h_nodes (ps_heap st1))) = filled (nd_val (H ! length (h_nodes (ps_heap st1))))"
        "\<forall>i < length (h_nodes (ps_heap st1)). nd_val (h_nodes h2 ! i) = nd_val (h_nodes (ps_heap st2) ! i)"
      have le: "le_payload (zero_payload t) (nd_val (H ! length (h_nodes (ps_heap st1))))"
        using True n1 by (auto simp: sized_def nth_append)
      have "names_ok f h1 h2" if "t \<noteq> T_Object \<or> \<not> fl_seek_value f" for f
        by (rule new_names_ok [OF d(5) assms(2,3) Inr h2(4,3) _ le]) (use that in blast)
      moreover have "top_type h1 = Some t" "top_val h1 = zero_payload t" using n1 by (simp_all add: top_type_def top_val_def)
      moreover have "top_val h2 = filled (nd_val (H ! length (h_nodes (ps_heap st1))))" using n1 h2 by (simp add: top_val_def hpair_def)
      ultimately show ?thesis using assms(4,5) assms(6) [OF Inr h2(2)] Inr h2(1) by (simp add: with_heap_def)
    qed (use assms(5) in \<open>simp add: with_heap_def sim_wrecked\<close>)
  next
    case False
    with assms(7) [OF Inr] assms(4) Inr show ?thesis
      by (cases "k1 (s1\<lparr>ps_heap := h1\<rparr>)") (auto simp: sim_def with_heap_def)
  qed
qed (use assms(4) in \<open>simp add: with_heap_def\<close>)

lemma fresh_paired:
  assumes "hpair H (ps_heap s1) (ps_heap s2)" and "top_type (ps_heap s1) = Some t" and "\<not> num_type (Some t)"
    and "names_ok (ps_flags s1) (ps_heap s1) (ps_heap s2)" and "\<not> fl_string (ps_flags s1)"
    and "ps_ptr s2 = ps_ptr s1" "ps_line s2 = ps_line s1" "num_flags_eq (ps_flags s2) (ps_flags s1)"
  shows "paired H s1 s2"
  using assms by (simp add: paired_def settled_def buffer_ok_def)

lemma open_string_paired:
  assumes "hpair H h1 h2" and "top_val h1 = V_String 0" and "top_type h1 = Some T_String" and "heap_ok h1"
    and "ps_heap s1 = open_string h1" "ps_heap s2 = open_string h2" and "names_ok (ps_flags s1) h1 h2"
    and "ps_ptr s2 = ps_ptr s1" "ps_line s2 = ps_line s1" "num_flags_eq (ps_flags s2) (ps_flags s1)"
  shows "paired H s1 s2"
proof -
  obtain i where i: "h_top h1 = Some i" "i < length (h_nodes h1)" "nd_val (h_nodes h1 ! i) = V_String 0"
    using assms(2-4) by (auto simp: top_type_def top_val_def heap_ok_def)
  have "twin (nd_val (h_nodes h1 ! i)) (nd_val (h_nodes h2 ! i)) (nd_val (H ! i))" "h_top h2 = h_top h1" using assms(1) i(1,2) by (simp_all add: hpair_def)
  with i have "buffer_ok H (ps_flags s1) (ps_heap s1) (ps_heap s2)"
    unfolding assms(5,6) by (auto simp: buffer_ok_def open_string_def top_val_def room_of_def)
  moreover have "hpair H (ps_heap s1) (ps_heap s2)" using assms(1) unfolding assms(5,6) by (simp add: hpair_def open_string_def)
  moreover have "names_ok (ps_flags s1) (ps_heap s1) (ps_heap s2)"
    using assms(7) unfolding assms(5,6) by (simp add: names_ok_def open_string_def open_above_simps)
  ultimately show ?thesis using assms(3,5,8-10) by (simp add: paired_def settled_def string_ops_ok num_type_def)
qed

text \<open>The literal \<^verbatim>\<open>true\<close> sets its value in both passes.\<close>

lemma true_paired:
  assumes "hpair H h1 h2" and "top_val h1 = V_Boolean 0" and "top_type h1 = Some T_Boolean" and "heap_ok h1"
    and "ps_heap s1 = set_top (V_Boolean 1) h1" "ps_heap s2 = set_top (V_Boolean 1) h2" and "names_ok (ps_flags s1) h1 h2" and "fits H s1"
    and "ps_ptr s2 = ps_ptr s1" "ps_line s2 = ps_line s1" "num_flags_eq (ps_flags s2) (ps_flags s1)" "\<not> fl_string (ps_flags s1)"
  shows "paired H s1 s2"
proof -
  obtain i where i: "h_top h1 = Some i" "i < length (h_nodes h1)" using assms(3,4) by (auto simp: top_type_def heap_ok_def)
  have top: "h_top h2 = Some i" "i < length (h_nodes h2)" using assms(1) i by (auto simp: hpair_def)
  have h: "ps_heap s1 = set_node i (V_Boolean 1) h1" "ps_heap s2 = set_node i (V_Boolean 1) h2" using assms(5,6) i top by (simp_all add: set_top_def)
  have "le_payload (V_Boolean 1) (nd_val (H ! i))" using assms(8) i unfolding fits_def sized_def h by (auto simp: set_node_nth)
  moreover have "nd_val (h_nodes h2 ! i) = nd_val (H ! i)" 
  proof -
    have "twin (nd_val (h_nodes h1 ! i)) (nd_val (h_nodes h2 ! i)) (nd_val (H ! i))" using assms(1) i by (simp add: hpair_def)
    with assms(2) i show ?thesis by (simp add: top_val_def)
  qed
  ultimately have "hpair H (ps_heap s1) (ps_heap s2)" unfolding h by (intro hpair_set_node [OF assms(1) i(2)]) auto
  moreover have "names_ok (ps_flags s1) (ps_heap s1) (ps_heap s2)"
    using assms(7) i top unfolding h by (auto simp: names_ok_def open_above_set_node set_node_nth)
  moreover have "top_type (ps_heap s1) = Some T_Boolean" using i unfolding h by (simp add: top_type_def set_node_nth)
  ultimately show ?thesis using assms(9-12) by (intro fresh_paired [where t = T_Boolean]) (simp_all add: num_type_def)
qed

lemma sized_true:
  assumes "new_value True js T_Boolean line h = Inr h1" and "heap_ok h" and "sized H (h_nodes (set_top (V_Boolean 1) h1))"
  shows "sized H (h_nodes h1)"
proof -
  note n = new_value_first_heap [OF assms(1)]
  let ?l = "length (h_nodes h)"
  have v: "h_nodes (set_top (V_Boolean 1) h1) ! i = (if i = ?l then (h_nodes h1 ! i)\<lparr>nd_val := V_Boolean 1\<rparr> else h_nodes h1 ! i)" for i
    using n by (simp add: set_top_def set_node_def nth_append)
  have len: "length (h_nodes (set_top (V_Boolean 1) h1)) = length (h_nodes h1)" using n by (simp add: set_top_def)
  have z: "nd_val (h_nodes h1 ! ?l) = V_Boolean 0" using n by simp
  have "nd_parent (H ! i) = nd_parent (h_nodes h1 ! i) \<and> le_payload (nd_val (h_nodes h1 ! i)) (nd_val (H ! i))" if "i < length (h_nodes h1)" for i
    using assms(3) that v [of i] len z by (cases "i = ?l") (auto simp: sized_def)
  with assms(3) len show ?thesis by (simp add: sized_def)
qed

lemma begin_value_sim:
  assumes "paired H st1 st2" and "first_inv js text st1" and "fl_seek_value (ps_flags st1)" and "\<not> (is_digit b \<or> b = CHR ''-'')"
  defines "s1 \<equiv> upd_flags (\<lambda>f. f\<lparr>fl_seek_value := False\<rparr>) st1" and "s2 \<equiv> upd_flags (\<lambda>f. f\<lparr>fl_seek_value := False\<rparr>) st2"
  shows "sim H (begin_value True js text b s1) (begin_value False js text b s2)"
proof -
  note d = pairedD [OF assms(1)]
  have c: "heap_ok (ps_heap st1)" "\<not> fl_string (ps_flags st1)" "\<And>t. top_type (ps_heap st1) = Some t \<Longrightarrow> container t"
    using assms(2,3) by (auto simp: first_inv_def ctl_ok_def container_def)
  have s: "ps_heap s1 = ps_heap st1" "ps_heap s2 = ps_heap st2" "ps_ptr s2 = ps_ptr s1" "ps_line s2 = ps_line s1" "ps_line s1 = ps_line st1"
    "num_flags_eq (ps_flags s2) (ps_flags s1)" "\<not> fl_seek_value (ps_flags s1)" "\<not> fl_string (ps_flags s1)"
    using d(1-3) c(2) by (simp_all add: s1_def s2_def num_flags_eq_def)
  have fl: "num_flags_eq ((ps_flags s2)\<lparr>fl_seek_value := True\<rparr>) ((ps_flags s1)\<lparr>fl_seek_value := True\<rparr>)"
    "num_flags_eq ((ps_flags s2)\<lparr>fl_string := True\<rparr>) ((ps_flags s1)\<lparr>fl_string := True\<rparr>)"
    "num_flags_eq ((ps_flags s2)\<lparr>fl_next := True\<rparr>) ((ps_flags s1)\<lparr>fl_next := True\<rparr>)"
    using s(6) by (simp_all add: num_flags_eq_def)
  let ?new = "\<lambda>p t s k. with_heap s (new_value p js t (ps_line st1) (ps_heap s)) k"
  note new = new_sim [OF assms(1,3) c(1), where line = "ps_line st1" and js = js]
  have ok: "heap_ok h1" if "new_value True js t l (ps_heap st1) = Inr h1" for t l h1
    using new_value_first_ok [OF that c(1) c(3)] by simp
  have obj: "sim H (?new True T_Object s1 (\<lambda>st. Continue (advance st))) (?new False T_Object s2 (\<lambda>st. Continue (advance st)))"
    by (rule new [OF s(1,2)]; (intro sim_both fresh_paired)?) (use s fl in \<open>auto simp: num_type_def fits_def\<close>)
  have arr: "sim H (?new True T_Array s1 (\<lambda>st. Continue (advance (upd_flags (\<lambda>f. f\<lparr>fl_seek_value := True\<rparr>) st))))
      (?new False T_Array s2 (\<lambda>st. Continue (advance (upd_flags (\<lambda>f. f\<lparr>fl_seek_value := True\<rparr>) st))))"
    by (rule new [OF s(1,2)]; (intro sim_both fresh_paired)?) (use s fl in \<open>auto simp: num_type_def fits_def\<close>)
  have str: "sim H (?new True T_String s1 (\<lambda>st. Continue (advance (upd_heap open_string (upd_flags (\<lambda>f. f\<lparr>fl_string := True\<rparr>) st)))))
      (?new False T_String s2 (\<lambda>st. Continue (advance (upd_heap open_string (upd_flags (\<lambda>f. f\<lparr>fl_string := True\<rparr>) st)))))"
  proof (rule new [OF s(1,2)])
    fix h1 h2
    assume h: "new_value True js T_String (ps_line st1) (ps_heap st1) = Inr h1" "hpair H h1 h2" "top_type h1 = Some T_String" "top_val h1 = zero_payload T_String"
      "\<And>f. T_String \<noteq> T_Object \<or> \<not> fl_seek_value f \<Longrightarrow> names_ok f h1 h2"
    show "sim H (Continue (advance (upd_heap open_string (upd_flags (\<lambda>f. f\<lparr>fl_string := True\<rparr>) (s1\<lparr>ps_heap := h1\<rparr>)))))
        (Continue (advance (upd_heap open_string (upd_flags (\<lambda>f. f\<lparr>fl_string := True\<rparr>) (s2\<lparr>ps_heap := h2\<rparr>)))))"
      by (rule sim_both, rule open_string_paired [OF h(2) _ h(3) ok [OF h(1)]]) (use h(4,5) s fl in simp_all)
  qed (auto simp: fits_def open_string_def)
  have lit: "sim H (?new True t (s1\<lparr>ps_ptr := i\<rparr>) (\<lambda>st. Fall (upd_flags (\<lambda>f. f\<lparr>fl_next := True\<rparr>) st)))
      (?new False t (s2\<lparr>ps_ptr := i\<rparr>) (\<lambda>st. Fall (upd_flags (\<lambda>f. f\<lparr>fl_next := True\<rparr>) st)))" if "t = T_Boolean \<or> t = T_Null" for t i
    by (rule new; (intro sim_both fresh_paired)?) (use s fl that in \<open>auto simp: num_type_def fits_def\<close>)
  have tru: "sim H (?new True T_Boolean (s1\<lparr>ps_ptr := i\<rparr>) (\<lambda>st. Fall (upd_flags (\<lambda>f. f\<lparr>fl_next := True\<rparr>) (upd_heap (set_top (V_Boolean 1)) st))))
      (?new False T_Boolean (s2\<lparr>ps_ptr := i\<rparr>) (\<lambda>st. Fall (upd_flags (\<lambda>f. f\<lparr>fl_next := True\<rparr>) (upd_heap (set_top (V_Boolean 1)) st))))" for i
  proof (rule new)
    fix h1 h2
    assume h: "new_value True js T_Boolean (ps_line st1) (ps_heap st1) = Inr h1" "hpair H h1 h2" "top_type h1 = Some T_Boolean" "top_val h1 = zero_payload T_Boolean"
      "\<And>f. T_Boolean \<noteq> T_Object \<or> \<not> fl_seek_value f \<Longrightarrow> names_ok f h1 h2"
    let ?s = "\<lambda>s h. upd_flags (\<lambda>f. f\<lparr>fl_next := True\<rparr>) (upd_heap (set_top (V_Boolean 1)) (s\<lparr>ps_ptr := i, ps_heap := h\<rparr>))"
    have "paired H (?s s1 h1) (?s s2 h2)" if "fits H (?s s1 h1)"
      by (rule true_paired [OF h(2) _ h(3) ok [OF h(1)]]) (use h(4,5) s fl that in simp_all)
    then show "sim H (Fall (?s s1 h1)) (Fall (?s s2 h2))" by (simp add: sim_def)
  qed (use s sized_true [OF _ c(1)] in \<open>auto simp: fits_def\<close>)
  show ?thesis
    unfolding begin_value_def Let_def using assms(4) s obj arr str lit tru by simp
qed

end
