(* ===== verification/Json_Free.thy ===== *)
theory Json_Free
  imports Json_Second_Pass
begin

text \<open>
  Giving values back: the walk of \<^verbatim>\<open>json_value_free_ex\<close>, which goes down to the last
  child, cuts it off and comes back over the parent pointers, ends on every linked store,
  frees no memory twice and touches nothing it has freed.
\<close>

section \<open>The walk\<close>

fun has_buf :: "payload \<Rightarrow> bool" where
  "has_buf (F_Array n vs) = (n > 0)"
| "has_buf (F_Object n m u es p) = (n > 0)"
| "has_buf (F_String n s) = True"
| "has_buf _ = False"

text \<open>Where the walk may be: the values that are left have their children, and the way up is open.\<close>

definition walkable :: "nat option \<Rightarrow> fheap \<Rightarrow> bool" where
  "walkable cur s \<longleftrightarrow>
     (\<forall>i < length (fh_nodes s). i \<notin> set (fh_freed s) \<longrightarrow> distinct (kids_at (fh_nodes s) i) \<and>
        (\<forall>c \<in> set (kids_at (fh_nodes s) i). i < c \<and> c < length (fh_nodes s) \<and> nd_parent (fh_nodes s ! c) = Some i \<and>
           c \<notin> set (fh_freed s) \<and> \<not> hollow (nd_val (fh_nodes s ! c)))) \<and>
     (\<forall>t \<in> set (open_list (fh_nodes s) cur). t < length (fh_nodes s) \<and> t \<notin> set (fh_freed s) \<and> \<not> hollow (nd_val (fh_nodes s ! t)) \<and>
        (\<forall>p. nd_parent (fh_nodes s ! t) = Some p \<longrightarrow> p < t \<and> t \<notin> set (kids_at (fh_nodes s) p)))"

text \<open>
  What has been freed, each once: buffers go with their values, names with the entries that
  were cut off from the objects of the original store that have names of their own.
\<close>

definition own_names :: "(nat \<Rightarrow> bool) \<Rightarrow> node list \<Rightarrow> node list \<Rightarrow> (nat \<times> nat) set" where
  "own_names builder ns0 ns =
     {(i, k). i < length ns \<and> builder i \<and> payload_type (nd_val (ns ! i)) = T_Object \<and> length (kids_at ns i) \<le> k \<and> k < length (kids_at ns0 i)}"

definition tidy :: "(nat \<Rightarrow> bool) \<Rightarrow> node list \<Rightarrow> fheap \<Rightarrow> bool" where
  "tidy builder ns0 s \<longleftrightarrow> distinct (fh_freed s) \<and> distinct (fh_bufs s) \<and> distinct (fh_names s) \<and> set (fh_freed s) \<subseteq> {..<length (fh_nodes s)} \<and>
     set (fh_bufs s) = {i \<in> set (fh_freed s). has_buf (nd_val (fh_nodes s ! i))} \<and> (\<forall>i \<in> set (fh_freed s). kids_at (fh_nodes s) i = []) \<and>
     (\<forall>i < length (fh_nodes s). length (kids_at (fh_nodes s) i) \<le> length (kids_at ns0 i)) \<and> set (fh_names s) = own_names builder ns0 (fh_nodes s)"

text \<open>Every value that is left can still be reached.\<close>

definition complete :: "nat option \<Rightarrow> fheap \<Rightarrow> bool" where
  "complete cur s \<longleftrightarrow>
     (\<forall>i < length (fh_nodes s). i \<notin> set (fh_freed s) \<longrightarrow> i \<in> set (open_list (fh_nodes s) cur) \<or>
        (\<exists>p < i. p \<notin> set (fh_freed s) \<and> i \<in> set (kids_at (fh_nodes s) p)))"

definition left :: "fheap \<Rightarrow> nat" where
  "left s = (\<Sum>i < length (fh_nodes s). length (kids_at (fh_nodes s) i)) + card ({..<length (fh_nodes s)} - set (fh_freed s))"

lemma walkableD:
  assumes "walkable cur s"
  shows "i < length (fh_nodes s) \<Longrightarrow> i \<notin> set (fh_freed s) \<Longrightarrow> distinct (kids_at (fh_nodes s) i)"
    "i < length (fh_nodes s) \<Longrightarrow> i \<notin> set (fh_freed s) \<Longrightarrow> c \<in> set (kids_at (fh_nodes s) i) \<Longrightarrow>
       i < c \<and> c < length (fh_nodes s) \<and> nd_parent (fh_nodes s ! c) = Some i \<and> c \<notin> set (fh_freed s) \<and> \<not> hollow (nd_val (fh_nodes s ! c))"
    "t \<in> set (open_list (fh_nodes s) cur) \<Longrightarrow> t < length (fh_nodes s) \<and> t \<notin> set (fh_freed s) \<and> \<not> hollow (nd_val (fh_nodes s ! t))"
    "t \<in> set (open_list (fh_nodes s) cur) \<Longrightarrow> nd_parent (fh_nodes s ! t) = Some p \<Longrightarrow> p < t \<and> t \<notin> set (kids_at (fh_nodes s) p)"
  using assms unfolding walkable_def by blast+

lemma walkableI:
  assumes "\<And>i. i < length (fh_nodes s) \<Longrightarrow> i \<notin> set (fh_freed s) \<Longrightarrow> distinct (kids_at (fh_nodes s) i)"
    and "\<And>i c. i < length (fh_nodes s) \<Longrightarrow> i \<notin> set (fh_freed s) \<Longrightarrow> c \<in> set (kids_at (fh_nodes s) i) \<Longrightarrow>
       i < c \<and> c < length (fh_nodes s) \<and> nd_parent (fh_nodes s ! c) = Some i \<and> c \<notin> set (fh_freed s) \<and> \<not> hollow (nd_val (fh_nodes s ! c))"
    and "\<And>t. t \<in> set (open_list (fh_nodes s) cur) \<Longrightarrow> t < length (fh_nodes s) \<and> t \<notin> set (fh_freed s) \<and> \<not> hollow (nd_val (fh_nodes s ! t))"
    and "\<And>t p. t \<in> set (open_list (fh_nodes s) cur) \<Longrightarrow> nd_parent (fh_nodes s ! t) = Some p \<Longrightarrow> p < t \<and> t \<notin> set (kids_at (fh_nodes s) p)"
  shows "walkable cur s"
  using assms unfolding walkable_def by blast

text \<open>One step: a child is cut off, or the value is freed.\<close>

definition cut :: "payload \<Rightarrow> payload" where
  "cut v = (case v of
     F_Array n vs \<Rightarrow> F_Array n (butlast vs)
   | F_Object n m u es p \<Rightarrow> F_Object n m u (butlast es) p
   | _ \<Rightarrow> v)"

lemma cut_simps [simp]: "kids_of (cut v) = butlast (kids_of v)" "hollow (cut v) = hollow v" "has_buf (cut v) = has_buf v" "payload_type (cut v) = payload_type v"
  by (cases v; simp add: cut_def map_butlast)+

text \<open>A value without children is freed, with its buffer.\<close>

definition given_back :: "nat \<Rightarrow> fheap \<Rightarrow> fheap" where
  "given_back i s = s\<lparr>fh_freed := fh_freed s @ [i], fh_bufs := fh_bufs s @ (if has_buf (nd_val (fh_nodes s ! i)) then [i] else [])\<rparr>"

lemma given_back_simps [simp]: "fh_nodes (given_back i s) = fh_nodes s" "set (fh_freed (given_back i s)) = insert i (set (fh_freed s))"
  by (simp_all add: given_back_def)

definition cut_off :: "(nat \<Rightarrow> bool) \<Rightarrow> nat \<Rightarrow> fheap \<Rightarrow> fheap" where
  "cut_off builder i s = put_node i (cut (nd_val (fh_nodes s ! i)))
     (s\<lparr>fh_names := fh_names s @
        (if builder i \<and> payload_type (nd_val (fh_nodes s ! i)) = T_Object then [(i, length (kids_at (fh_nodes s) i) - 1)] else [])\<rparr>)"

lemma name_not_freed:
  assumes "tidy builder ns0 s" and "kids_at (fh_nodes s) i \<noteq> []"
  shows "(i, length (kids_at (fh_nodes s) i) - 1) \<notin> set (fh_names s)"
proof -
  have "\<not> length (kids_at (fh_nodes s) i) \<le> length (kids_at (fh_nodes s) i) - 1" using assms(2) by (cases "kids_at (fh_nodes s) i") simp_all
  with assms(1) show ?thesis by (simp add: tidy_def own_names_def)
qed

lemma free_step_cases:
  assumes "i \<notin> set (fh_freed s)" and "\<not> hollow (nd_val (fh_nodes s ! i))" and "tidy builder ns0 s"
  shows "free_step builder i s =
    (if kids_at (fh_nodes s) i \<noteq> [] then Inr (Some (last (kids_at (fh_nodes s) i)), cut_off builder i s)
     else Inr (nd_parent (fh_nodes s ! i), given_back i s))"
proof -
  have up: "free_up b i s = Inr (nd_parent (fh_nodes s ! i), s\<lparr>fh_freed := fh_freed s @ [i], fh_bufs := fh_bufs s @ (if b then [i] else [])\<rparr>)" for b
    using assms(1,3) by (simp add: free_up_def mem_free_buf_def mem_free_value_def tidy_def)
  show ?thesis
    using assms(1,2) name_not_freed [OF assms(3), of i]
    by (cases "nd_val (fh_nodes s ! i)") (simp_all add: free_step_def up cut_def last_map given_back_def cut_off_def put_node_def mem_free_name_def)
qed

lemma put_node_simps [simp]:
  "fh_freed (put_node i v s) = fh_freed s" "fh_bufs (put_node i v s) = fh_bufs s" "length (fh_nodes (put_node i v s)) = length (fh_nodes s)"
  "fh_names (put_node i v s) = fh_names s"
  by (simp_all add: put_node_def)

lemma put_node_nth [simp]:
  assumes "i < length (fh_nodes s)"
  shows "nd_parent (fh_nodes (put_node i v s) ! j) = nd_parent (fh_nodes s ! j)"
    "nd_val (fh_nodes (put_node i v s) ! j) = (if j = i then v else nd_val (fh_nodes s ! j))"
  using assms by (simp_all add: put_node_def nth_list_update)

lemma open_list_put: "i < length (fh_nodes s) \<Longrightarrow> open_list (fh_nodes (put_node i v s)) cur = open_list (fh_nodes s) cur"
  by (simp add: put_node_def open_list_update)

lemma open_list_down: "nd_parent (ns ! c) = Some i \<Longrightarrow> i < c \<Longrightarrow> open_list ns (Some c) = c # open_list ns (Some i)"
  by (simp add: open_list_def chain.simps [of ns c])

lemma open_list_up:
  assumes "\<And>p. nd_parent (ns ! i) = Some p \<Longrightarrow> p < i"
  shows "open_list ns (Some i) = i # open_list ns (nd_parent (ns ! i))" "t \<in> set (open_list ns (nd_parent (ns ! i))) \<Longrightarrow> t < i"
proof -
  show "open_list ns (Some i) = i # open_list ns (nd_parent (ns ! i))"
    using assms by (cases "nd_parent (ns ! i)") (simp_all add: open_list_def chain.simps [of ns i])
  show "t < i" if "t \<in> set (open_list ns (nd_parent (ns ! i)))"
    using that assms chain_less [of t ns] by (cases "nd_parent (ns ! i)") (auto simp: open_list_def intro: less_trans)
qed

lemma cut_step:
  fixes builder :: "nat \<Rightarrow> bool"
  assumes "walkable (Some i) s" and "kids_at (fh_nodes s) i \<noteq> []"
  defines "c \<equiv> last (kids_at (fh_nodes s) i)" and "s' \<equiv> cut_off builder i s"
  shows "walkable (Some c) s'" "tidy builder ns0 s \<Longrightarrow> tidy builder ns0 s'" "complete (Some i) s \<Longrightarrow> complete (Some c) s'" "left s' < left s"
proof -
  let ?ns = "fh_nodes s" and ?F = "set (fh_freed s)"
  have i: "i < length ?ns" "i \<notin> ?F" "\<not> hollow (nd_val (?ns ! i))" using walkableD(3) [OF assms(1), of i] by (simp_all add: open_list_def)
  have c: "c \<in> set (kids_at ?ns i)" "kids_at ?ns i = butlast (kids_at ?ns i) @ [c]" using assms(2) by (simp_all add: c_def)
  note kc = walkableD(2) [OF assms(1) i(1,2) c(1)]
  have dis: "distinct (kids_at ?ns i)" using walkableD(1) [OF assms(1) i(1,2)] .
  then have nc: "c \<notin> set (butlast (kids_at ?ns i))" by (subst (asm) c(2)) simp
  have val: "nd_val (fh_nodes s' ! j) = (if j = i then cut (nd_val (?ns ! i)) else nd_val (?ns ! j))" for j using i(1) by (simp add: s'_def cut_off_def)
  then have kids: "kids_at (fh_nodes s') j = (if j = i then butlast (kids_at ?ns i) else kids_at ?ns j)" for j by simp
  have sub: "set (kids_at (fh_nodes s') j) \<subseteq> set (kids_at ?ns j)" for j unfolding kids by (auto dest: in_set_butlastD)
  have hol: "hollow (nd_val (fh_nodes s' ! j)) = hollow (nd_val (?ns ! j))" for j by (simp add: val)
  have op: "open_list (fh_nodes s') (Some c) = c # open_list ?ns (Some i)"
    using open_list_down [of ?ns c i] kc i(1) unfolding s'_def by (simp add: open_list_put cut_off_def)
  have same: "fh_freed s' = fh_freed s" "length (fh_nodes s') = length ?ns" "\<And>j. nd_parent (fh_nodes s' ! j) = nd_parent (?ns ! j)"
    "fh_bufs s' = fh_bufs s" using i(1) by (simp_all add: s'_def cut_off_def)
  show "walkable (Some c) s'"
  proof (rule walkableI, unfold same hol op)
    show "distinct (kids_at (fh_nodes s') j)" if "j < length ?ns" "j \<notin> ?F" for j
      using walkableD(1) [OF assms(1) that] unfolding kids by (cases "j = i") (simp_all add: distinct_butlast)
    show "j < k \<and> k < length ?ns \<and> nd_parent (?ns ! k) = Some j \<and> k \<notin> ?F \<and> \<not> hollow (nd_val (?ns ! k))"
      if "j < length ?ns" "j \<notin> ?F" "k \<in> set (kids_at (fh_nodes s') j)" for j k
      using walkableD(2) [OF assms(1) that(1,2)] sub that(3) by blast
    show "t < length ?ns \<and> t \<notin> ?F \<and> \<not> hollow (nd_val (?ns ! t))" if "t \<in> set (c # open_list ?ns (Some i))" for t
      using that kc walkableD(3) [OF assms(1)] by auto
    show "p < t \<and> t \<notin> set (kids_at (fh_nodes s') p)" if "t \<in> set (c # open_list ?ns (Some i))" "nd_parent (?ns ! t) = Some p" for t p
      using that kc nc kids [of i] walkableD(4) [OF assms(1), of t p] sub [of p] by (cases "t = c") auto
  qed
  show "tidy builder ns0 s'" if t: "tidy builder ns0 s"
  proof -
    let ?l = "length (kids_at ?ns i)"
    let ?new = "if builder i \<and> payload_type (nd_val (?ns ! i)) = T_Object then [(i, ?l - 1)] else []"
    have nm: "fh_names s' = fh_names s @ ?new" by (simp add: s'_def cut_off_def)
    have l: "?l \<le> length (kids_at ns0 i)" "0 < ?l" using t i(1) assms(2) by (simp_all add: tidy_def)
    from l have less: "?l - Suc 0 < length (kids_at ns0 i)" by linarith
    then have "own_names builder ns0 (fh_nodes s') = own_names builder ns0 ?ns \<union> set ?new"
      using i(1) l by (auto simp: own_names_def same kids val split: if_splits)
    moreover have "length (kids_at (fh_nodes s') j) \<le> length (kids_at ns0 j)" if "j < length ?ns" for j
      using t that less by (cases "j = i") (simp_all add: tidy_def kids)
    moreover have "has_buf (nd_val (fh_nodes s' ! j)) = has_buf (nd_val (?ns ! j))" for j by (simp add: val)
    ultimately show ?thesis
      using t i(2) name_not_freed [OF t assms(2)] unfolding tidy_def same nm by (auto simp: kids split: if_splits)
  qed
  show "complete (Some c) s'" if "complete (Some i) s"
    unfolding complete_def same op
  proof (intro allI impI)
    fix j
    assume j: "j < length ?ns" "j \<notin> ?F"
    with that consider "j \<in> set (open_list ?ns (Some i))" | p where "p < j" "p \<notin> ?F" "j \<in> set (kids_at ?ns p)" by (auto simp: complete_def)
    then show "j \<in> set (c # open_list ?ns (Some i)) \<or> (\<exists>p<j. p \<notin> ?F \<and> j \<in> set (kids_at (fh_nodes s') p))"
    proof cases
      case 2
      have "j = c \<or> j \<in> set (kids_at (fh_nodes s') p)" using 2(3) c(2) kids [of p] by (cases "p = i") (auto, metis UnE in_set_conv_decomp set_append set_ConsD empty_iff list.set(1))
      with 2 show ?thesis by auto
    qed simp
  qed
  have "(\<Sum>j < length ?ns. length (kids_at (fh_nodes s') j)) < (\<Sum>j < length ?ns. length (kids_at ?ns j))"
  proof (rule sum_strict_mono_ex1)
    show "\<forall>j \<in> {..<length ?ns}. length (kids_at (fh_nodes s') j) \<le> length (kids_at ?ns j)" by (simp add: kids)
    show "\<exists>j \<in> {..<length ?ns}. length (kids_at (fh_nodes s') j) < length (kids_at ?ns j)"
      using i(1) assms(2) by (intro bexI [of _ i]) (simp_all add: kids)
  qed simp
  then show "left s' < left s" by (simp add: left_def same)
qed

lemma up_step:
  assumes "walkable (Some i) s" and "kids_at (fh_nodes s) i = []"
  defines "s' \<equiv> given_back i s"
  shows "walkable (nd_parent (fh_nodes s ! i)) s'" "tidy builder ns0 s \<Longrightarrow> tidy builder ns0 s'" "complete (Some i) s \<Longrightarrow> complete (nd_parent (fh_nodes s ! i)) s'" "left s' < left s"
proof -
  let ?ns = "fh_nodes s" and ?F = "set (fh_freed s)" and ?up = "nd_parent (fh_nodes s ! i)"
  have i: "i < length ?ns" "i \<notin> ?F" using walkableD(3) [OF assms(1), of i] by (simp_all add: open_list_def)
  have par: "p < i" "i \<notin> set (kids_at ?ns p)" if "?up = Some p" for p using walkableD(4) [OF assms(1), of i p] that by (simp_all add: open_list_def)
  note op = open_list_up(1) [of ?ns i, OF par(1)] and below = open_list_up(2) [of ?ns i, OF par(1)]
  have F: "set (fh_freed s') = insert i ?F" "fh_nodes s' = ?ns" by (simp_all add: s'_def)
  have notkid: "i \<notin> set (kids_at ?ns j)" if "j < length ?ns" "j \<notin> ?F" for j
    using walkableD(2) [OF assms(1) that, of i] par(2) by blast
  show "walkable ?up s'"
  proof (rule walkableI, unfold F)
    show "distinct (kids_at ?ns j)" if "j < length ?ns" "j \<notin> insert i ?F" for j using walkableD(1) [OF assms(1) that(1)] that(2) by simp
    show "j < k \<and> k < length ?ns \<and> nd_parent (?ns ! k) = Some j \<and> k \<notin> insert i ?F \<and> \<not> hollow (nd_val (?ns ! k))"
      if "j < length ?ns" "j \<notin> insert i ?F" "k \<in> set (kids_at ?ns j)" for j k
      using walkableD(2) [OF assms(1) that(1) _ that(3)] notkid [of j] that by auto
    show "t < length ?ns \<and> t \<notin> insert i ?F \<and> \<not> hollow (nd_val (?ns ! t))" if "t \<in> set (open_list ?ns ?up)" for t
      using walkableD(3) [OF assms(1), of t] below [OF _ that] that op by auto
    show "p < t \<and> t \<notin> set (kids_at ?ns p)" if "t \<in> set (open_list ?ns ?up)" "nd_parent (?ns ! t) = Some p" for t p
      using walkableD(4) [OF assms(1), of t p] that op by simp
  qed
  show "tidy builder ns0 s'" if "tidy builder ns0 s" using that i assms(2) by (auto simp: tidy_def s'_def given_back_def)
  show "complete ?up s'" if "complete (Some i) s"
    unfolding complete_def F
  proof (intro allI impI)
    fix j
    assume j: "j < length ?ns" "j \<notin> insert i ?F"
    with that consider "j \<in> set (open_list ?ns (Some i))" | p where "p < j" "p \<notin> ?F" "j \<in> set (kids_at ?ns p)" unfolding complete_def by blast
    then show "j \<in> set (open_list ?ns ?up) \<or> (\<exists>p<j. p \<notin> insert i ?F \<and> j \<in> set (kids_at ?ns p))"
    proof cases
      case 1
      with j op show ?thesis by auto
    next
      case 2
      then have "p \<noteq> i" using assms(2) by auto
      with 2 show ?thesis by auto
    qed
  qed
  have "{..<length ?ns} - insert i ?F = ({..<length ?ns} - ?F) - {i}" by blast
  moreover have "card (({..<length ?ns} - ?F) - {i}) < card ({..<length ?ns} - ?F)" using i by (intro card_Diff1_less) simp_all
  ultimately show "left s' < left s" by (simp add: left_def F)
qed

lemma complete_end:
  assumes "complete None s" and "tidy builder ns0 s"
  shows "set (fh_freed s) = {..<length (fh_nodes s)}"
proof -
  have "i < length (fh_nodes s) \<Longrightarrow> i \<in> set (fh_freed s)" for i
  proof (induction i rule: less_induct)
    case (less i)
    show ?case
    proof (rule ccontr)
      assume "i \<notin> set (fh_freed s)"
      with assms(1) less.prems obtain p where "p < i" "p \<notin> set (fh_freed s)" by (auto simp: complete_def open_list_def)
      with less show False by simp
    qed
  qed
  with assms(2) show ?thesis by (auto simp: tidy_def)
qed

text \<open>The walk keeps buffers and types of the values, whatever it cuts off.\<close>

definition same_bufs :: "fheap \<Rightarrow> fheap \<Rightarrow> bool" where
  "same_bufs s s' \<longleftrightarrow> length (fh_nodes s') = length (fh_nodes s) \<and> (\<forall>i. has_buf (nd_val (fh_nodes s' ! i)) = has_buf (nd_val (fh_nodes s ! i)) \<and>
     payload_type (nd_val (fh_nodes s' ! i)) = payload_type (nd_val (fh_nodes s ! i)))"

lemma free_loop_ends:
  assumes "walkable cur s" and "tidy builder ns0 s"
  shows "\<exists>s'. free_loop builder cur s = Some (Inr s') \<and> tidy builder ns0 s' \<and> same_bufs s s' \<and> (complete cur s \<longrightarrow> set (fh_freed s') = {..<length (fh_nodes s)})"
  using assms
proof (induction "left s" arbitrary: cur s rule: less_induct)
  case less
  show ?case
  proof (cases cur)
    case None
    with less.prems complete_end [of s builder ns0] show ?thesis by (simp add: free_loop.simps same_bufs_def)
  next
    case (Some i)
    note w = less.prems(1) [unfolded Some]
    have i: "i < length (fh_nodes s)" "i \<notin> set (fh_freed s)" "\<not> hollow (nd_val (fh_nodes s ! i))" using walkableD(3) [OF w, of i] by (simp_all add: open_list_def)
    note step = free_step_cases [OF i(2,3) less.prems(2)]
    show ?thesis
    proof (cases "kids_at (fh_nodes s) i = []")
      case True
      note u = up_step [OF w True]
      have "same_bufs s (given_back i s)" by (simp add: same_bufs_def)
      moreover have "free_loop builder cur s = free_loop builder (nd_parent (fh_nodes s ! i)) (given_back i s)"
        using step True Some by (simp add: free_loop.simps [of builder "Some i"])
      ultimately show ?thesis using less.hyps [OF u(4,1) u(2) [OF less.prems(2)]] u(3) Some by (auto simp: same_bufs_def)
    next
      case False
      note u = cut_step [OF w False, where builder = builder]
      let ?s = "cut_off builder i s"
      have "same_bufs s ?s" using i(1) by (simp add: same_bufs_def cut_off_def)
      moreover have "free_loop builder cur s = free_loop builder (Some (last (kids_at (fh_nodes s) i))) ?s"
        using step False Some by (simp add: free_loop.simps [of builder "Some i"])
      ultimately show ?thesis using less.hyps [OF u(4,1) u(2) [OF less.prems(2)]] u(3) Some by (auto simp: same_bufs_def)
    qed
  qed
qed

section \<open>The list of values that are not taken\<close>

lemma free_chain_all:
  assumes "set (fh_freed s) \<inter> {k..<length (fh_nodes s)} = {}" and "k < length (fh_nodes s)"
  shows "free_chain (Some k) s = Inr (s\<lparr>fh_freed := fh_freed s @ [k..<length (fh_nodes s)]\<rparr>)"
  using assms
proof (induction "length (fh_nodes s) - k" arbitrary: k s)
  case (Suc d)
  let ?n = "length (fh_nodes s)" and ?s = "s\<lparr>fh_freed := fh_freed s @ [k]\<rparr>"
  have k: "k \<notin> set (fh_freed s)" "[k..<?n] = k # [Suc k..<?n]" using Suc.prems by (auto simp: upt_conv_Cons)
  show ?case
  proof (cases "Suc k < ?n")
    case True
    have "set (fh_freed ?s) \<inter> {Suc k..<length (fh_nodes ?s)} = {}" using Suc.prems(1) by auto
    with Suc.hyps(1) [of ?s "Suc k"] Suc.hyps(2) True k show ?thesis by simp
  next
    case False
    with Suc.prems(2) have "Suc k = ?n" by simp
    with k show ?thesis by (simp del: upt_Suc)
  qed
qed simp

lemma first_failed:
  assumes "h_root h = (if h_nodes h = [] then None else Some 0)"
  shows "e_failed True h = Some (Inr ((whole h)\<lparr>fh_freed := [0..<length (h_nodes h)]\<rparr>))"
  using assms free_chain_all [of "whole h" 0] by (auto simp: e_failed_def whole_def)

section \<open>After a failed allocation\<close>

lemma second_chain:
  assumes "h_alloc h = (if k < length (h_nodes h) then Some k else None)"
  shows "e_failed False h = json_value_free_ex (h_root h) ((whole h)\<lparr>fh_freed := [k..<length (h_nodes h)]\<rparr>)"
  using assms free_chain_all [of "whole h" k] by (auto simp: e_failed_def whole_def)

lemma root_hollow_fails:
  assumes "wrecked H h" and "hollow (nd_val (h_nodes h ! 0))"
  shows "e_failed False h = Some (Inl Null_Deref)"
proof -
  obtain a where a: "a < length (h_nodes h)" "h_root h = Some 0" "h_alloc h = (if Suc a < length (h_nodes h) then Some (Suc a) else None)"
    using assms(1) unfolding wrecked_def by blast
  have "free_step (\<lambda>_. False) 0 \<lparr>fh_nodes = (h_nodes h)[0 := (h_nodes h ! 0)\<lparr>nd_parent := None\<rparr>], fh_freed = [Suc a..<length (h_nodes h)], fh_bufs = [], fh_names = []\<rparr> = Inl Null_Deref"
    using a(1) assms(2) by (cases "h_nodes h"; cases "nd_val (h_nodes h ! 0)") (auto simp: free_step_def)
  then show ?thesis using second_chain [OF a(3)] a(2) by (simp add: json_value_free_ex_def free_loop.simps whole_def)
qed

text \<open>
  The walk from the root comes to an end unless the value whose allocation failed is the
  root itself, an array or object that is not empty; then its elements are read where there
  are none.
\<close>

lemma second_failed:
  assumes "wrecked H h" and "nodes_ok H"
  shows "e_failed False h = Some (Inl Null_Deref) \<and> hollow (nd_val (h_nodes h ! 0)) \<or>
    (\<exists>s. e_failed False h = Some (Inr s) \<and> distinct (fh_freed s) \<and> distinct (fh_bufs s))"
proof -
  let ?ns = "h_nodes h"
  obtain a where a: "a < length ?ns" "h_top h = Some a" "h_root h = Some 0" "h_alloc h = (if Suc a < length ?ns then Some (Suc a) else None)" "kids_at ?ns a = []"
    and kids: "\<And>i. i < a \<Longrightarrow> \<not> hollow (nd_val (?ns ! i)) \<and> distinct (kids_at ?ns i)"
      "\<And>i c. i < a \<Longrightarrow> c \<in> set (kids_at ?ns i) \<Longrightarrow> c < a \<and> i < c \<and> nd_parent (?ns ! c) = Some i"
    and rest: "length ?ns = length H" "\<And>i. a \<le> i \<Longrightarrow> i < length H \<Longrightarrow> ?ns ! i = H ! i"
    using assms(1) unfolding wrecked_def by blast
  define ns where "ns = ?ns[0 := (?ns ! 0)\<lparr>nd_parent := None\<rparr>]"
  let ?s = "\<lparr>fh_nodes = ns, fh_freed = [Suc a..<length ?ns], fh_bufs = [], fh_names = []\<rparr>"
  have val: "nd_val (ns ! i) = nd_val (?ns ! i)" "nd_parent (ns ! i) = (if i = 0 then None else nd_parent (?ns ! i))" "length ns = length ?ns" for i
    using a(1) by (cases ?ns; cases i; simp add: ns_def)+
  have run: "e_failed False h = free_loop (\<lambda>_. False) (Some 0) ?s"
    using second_chain [OF a(4)] a(3) by (simp add: json_value_free_ex_def ns_def whole_def)
  show ?thesis
  proof (cases "hollow (nd_val (?ns ! 0))")
    case True
    with root_hollow_fails [OF assms(1)] show ?thesis by simp
  next
    case False
    have op: "open_list ns (Some 0) = [0]" by (simp add: open_list_def chain.simps [of ns 0] val)
    have "walkable (Some 0) ?s"
    proof (rule walkableI)
      fix i c
      assume i: "i < length (fh_nodes ?s)" "i \<notin> set (fh_freed ?s)"
      then have ia: "i < a \<or> i = a" by (auto simp: val)
      then show "distinct (kids_at (fh_nodes ?s) i)" using kids(1) a(5) by (auto simp: val)
      assume "c \<in> set (kids_at (fh_nodes ?s) i)"
      with ia a(1,5) kids(1) [of c] kids(2) [of i c]
      show "i < c \<and> c < length (fh_nodes ?s) \<and> nd_parent (fh_nodes ?s ! c) = Some i \<and> c \<notin> set (fh_freed ?s) \<and> \<not> hollow (nd_val (fh_nodes ?s ! c))"
        by (auto simp: val)
    next
      fix t p
      assume "t \<in> set (open_list (fh_nodes ?s) (Some 0))"
      then have t: "t = 0" using op by simp
      show "t < length (fh_nodes ?s) \<and> t \<notin> set (fh_freed ?s) \<and> \<not> hollow (nd_val (fh_nodes ?s ! t))" using t a(1) False by (auto simp: val)
      assume "nd_parent (fh_nodes ?s ! t) = Some p"
      with t show "p < t \<and> t \<notin> set (kids_at (fh_nodes ?s) p)" by (simp add: val)
    qed
    moreover have "\<not> has_buf (nd_val (?ns ! i)) \<and> kids_at ?ns i = []" if "a \<le> i" "i < length H" for i
      using assms(2) rest(2) [OF that] that(2) by (cases "nd_val (H ! i)") (auto simp: nodes_ok_def)
    then have "tidy (\<lambda>_. False) ns ?s" using rest(1) by (auto simp: tidy_def own_names_def val)
    ultimately show ?thesis using free_loop_ends [of "Some 0" ?s "\<lambda>_. False" ns] run by (auto simp: tidy_def)
  qed
qed

section \<open>After a successful parse\<close>

lemma free_all:
  assumes "kin ns ns2 (Some 0)" and "nodes_ok ns" and "length ns2 = length ns" and "ns \<noteq> []"
    and "\<And>i. i < length ns \<Longrightarrow> nd_parent (ns2 ! i) = nd_parent (ns ! i) \<and> \<not> hollow (nd_val (ns2 ! i))"
    and "nd_parent (ns ! 0) = None"
  defines "s0 \<equiv> \<lparr>fh_nodes = ns2, fh_freed = [], fh_bufs = [], fh_names = []\<rparr>"
  shows "\<exists>s. json_builder_free builder (Some 0) s0 = Some (Inr s) \<and>
    distinct (fh_freed s) \<and> set (fh_freed s) = {..<length ns2} \<and> distinct (fh_bufs s) \<and> set (fh_bufs s) = {i. i < length ns2 \<and> has_buf (nd_val (ns2 ! i))} \<and>
    distinct (fh_names s) \<and> set (fh_names s) = {(i, k). i < length ns2 \<and> builder i \<and> payload_type (nd_val (ns2 ! i)) = T_Object \<and> k < length (kids_at ns2 i)}"
proof -
  let ?s = "\<lparr>fh_nodes = ns2, fh_freed = [], fh_bufs = [], fh_names = []\<rparr> :: fheap"
  have "(ns2 ! 0)\<lparr>nd_parent := None\<rparr> = ns2 ! 0" using assms(4,6) assms(5) [of 0] by (cases "ns2 ! 0") simp
  then have run: "json_builder_free builder (Some 0) ?s = free_loop builder (Some 0) ?s" by (simp add: json_builder_free_def)
  have op: "open_list ns2 (Some 0) = [0]" "open_list ns (Some 0) = [0]" by (simp_all add: open_list_def chain.simps [of _ 0] split: option.split)
  have "walkable (Some 0) ?s"
  proof (rule walkableI)
    fix i c
    assume i: "i < length (fh_nodes ?s)"
    then have il: "i < length ns" using assms(3) by simp
    show "distinct (kids_at (fh_nodes ?s) i)" using kinD(1) [OF assms(1) il] by simp
    assume "c \<in> set (kids_at (fh_nodes ?s) i)"
    with kinD(2) [OF assms(1) il, of c] have c: "c < length ns" "nd_parent (ns ! c) = Some i" by simp_all
    with assms(2) have "i < c" by (auto simp: nodes_ok_def)
    with c assms(3,5) show "i < c \<and> c < length (fh_nodes ?s) \<and> nd_parent (fh_nodes ?s ! c) = Some i \<and> c \<notin> set (fh_freed ?s) \<and> \<not> hollow (nd_val (fh_nodes ?s ! c))"
      by simp
  next
    fix t p
    assume "t \<in> set (open_list (fh_nodes ?s) (Some 0))"
    then have t: "t = 0" using op by simp
    show "t < length (fh_nodes ?s) \<and> t \<notin> set (fh_freed ?s) \<and> \<not> hollow (nd_val (fh_nodes ?s ! t))" using t assms(3-5) by simp
    assume "nd_parent (fh_nodes ?s ! t) = Some p"
    with t assms(4-6) show "p < t \<and> t \<notin> set (kids_at (fh_nodes ?s) p)" by simp
  qed
  moreover have "complete (Some 0) ?s"
    unfolding complete_def
  proof (intro allI impI)
    fix i
    assume "i < length (fh_nodes ?s)"
    then have i: "i < length ns" using assms(3) by simp
    show "i \<in> set (open_list (fh_nodes ?s) (Some 0)) \<or> (\<exists>p<i. p \<notin> set (fh_freed ?s) \<and> i \<in> set (kids_at (fh_nodes ?s) p))"
    proof (cases "nd_parent (ns ! i)")
      case None
      with kinD(4) [OF assms(1) i] op show ?thesis by simp
    next
      case (Some p)
      with assms(2) i have "p < i" by (auto simp: nodes_ok_def)
      with kinD(3) [OF assms(1) i Some] op show ?thesis by (cases "i = 0") auto
    qed
  qed
  moreover have "tidy builder ns2 ?s" by (auto simp: tidy_def own_names_def)
  ultimately obtain s where s: "free_loop builder (Some 0) ?s = Some (Inr s)" "tidy builder ns2 s" "same_bufs ?s s" "set (fh_freed s) = {..<length ns2}"
    using free_loop_ends [of "Some 0" ?s builder ns2] by auto
  then have len: "length (fh_nodes s) = length ns2" and no: "\<And>i. i < length ns2 \<Longrightarrow> kids_at (fh_nodes s) i = []" by (auto simp: tidy_def same_bufs_def)
  have "set (fh_bufs s) = {i. i < length ns2 \<and> has_buf (nd_val (ns2 ! i))}" using s(2-4) by (auto simp: tidy_def same_bufs_def)
  moreover have "own_names builder ns2 (fh_nodes s) = {(i, k). i < length ns2 \<and> builder i \<and> payload_type (nd_val (ns2 ! i)) = T_Object \<and> k < length (kids_at ns2 i)}"
    using no s(3) unfolding own_names_def len by (auto simp: same_bufs_def)
  ultimately show ?thesis using s(1,2,4) run unfolding s0_def by (simp add: tidy_def)
qed

section \<open>After a failed first pass\<close>

definition rooted :: "pheap \<Rightarrow> bool" where
  "rooted h \<longleftrightarrow> h_root h = (if h_nodes h = [] then None else Some 0)"

lemma rooted_simps [simp]:
  "rooted (h\<lparr>h_room := r\<rparr>) = rooted h" "rooted (h\<lparr>h_buf := b\<rparr>) = rooted h" "rooted (h\<lparr>h_strlen := n\<rparr>) = rooted h" "rooted (h\<lparr>h_top := t\<rparr>) = rooted h"
  "rooted (set_node i v h) = rooted h" "rooted (set_top v h) = rooted h" "rooted (open_string h) = rooted h" "rooted (open_name h) = rooted h" "rooted (end_string h) = rooted h"
  by (simp_all add: rooted_def set_node_def set_top_def open_string_def open_name_def end_string_def split: option.split payload.split)

fun keeps_res :: "pheap pres \<Rightarrow> bool" where
  "keeps_res (Inl (P_Error n e g)) = rooted g"
| "keeps_res (Inl (P_Fault f)) = True"
| "keeps_res (Inr h) = rooted h"

definition keeps :: "flow \<Rightarrow> bool" where
  "keeps r \<longleftrightarrow>
     (case r of
        Fail e \<Rightarrow> keeps_res (Inl e)
      | Break st \<Rightarrow> rooted (ps_heap st)
      | Continue st \<Rightarrow> rooted (ps_heap st)
      | Fall st \<Rightarrow> rooted (ps_heap st))"

lemma keeps_simps [simp]:
  "keeps (Fail (P_Fault f))" "keeps (fail st e) = rooted (ps_heap st)" "keeps (Break st) = rooted (ps_heap st)" "keeps (Continue st) = rooted (ps_heap st)" "keeps (Fall st) = rooted (ps_heap st)"
  by (simp_all add: keeps_def fail_def)

lemma keeps_then: "keeps r \<Longrightarrow> (\<And>st. rooted (ps_heap st) \<Longrightarrow> keeps (g st)) \<Longrightarrow> keeps (then_flow r g)"
  by (cases r) (auto simp: keeps_def then_flow_def)

lemma keeps_heap: "keeps_res r \<Longrightarrow> (\<And>h. rooted h \<Longrightarrow> keeps (k (st\<lparr>ps_heap := h\<rparr>))) \<Longrightarrow> keeps (with_heap st r k)"
  by (cases r) (auto simp: keeps_def with_heap_def)

lemma keeps_ops:
  assumes "rooted h"
  shows "keeps_res (string_add True bs h)" "keeps_res (string_close True h)" "keeps_res (end_name True h)" "keeps_res (link_value line i p h)" "keeps_res (new_value True js t line h)"
proof -
  show "keeps_res (string_add True bs h)" "keeps_res (string_close True h)" "keeps_res (end_name True h)" "keeps_res (link_value line i p h)"
    using assms by (simp_all add: string_add_def string_close_def end_name_def link_value_def split: payload.split option.split)
  obtain ok g where al: "json_alloc js (40 + js_value_extra js) h = (ok, g)" by fastforce
  with json_alloc_fields [OF al] assms show "keeps_res (new_value True js t line h)"
    by (cases ok) (auto simp: new_value_def new_value_first_def rooted_def Let_def split: if_splits)
qed

lemma number_keeps: "rooted (ps_heap st) \<Longrightarrow> keeps (number_section fo b st)"
  by (simp add: number_section_def digit_section_def end_number_def finish_number_def put_int_def put_dbl_def Let_def)

lemma section_keeps:
  assumes "rooted (ps_heap st)"
  shows "keeps (string_section True text b st)" "keeps (comment_section js text b st)" "keeps (done_section b st)" "keeps (value_section True js fo text b st)" "keeps (next_section st)"
proof -
  have ws: "keeps (skip_ws b st)" for b using assms by (simp add: skip_ws_def)
  have add: "keeps (with_heap s (string_add True bs (ps_heap s)) (\<lambda>st. Continue (advance st)))" if "ps_heap s = ps_heap st" for s bs
    by (rule keeps_heap [OF keeps_ops(1)]) (use assms that in simp_all)
  have esc: "keeps (escape_section True text b st)"
    using assms add by (auto simp: escape_section_def Let_def split: option.split)
  show "keeps (string_section True text b st)"
    using assms add esc by (auto simp: string_section_def Let_def intro!: keeps_heap keeps_ops split: option.split jtype.split)
  show "keeps (comment_section js text b st)" "keeps (done_section b st)" using assms ws by (simp_all add: comment_section_def done_section_def Let_def)
  have obj: "keeps (object_section b st)" using assms ws by (simp add: object_section_def)
  have new: "keeps (with_heap s (new_value True js t l (ps_heap st)) k)" if "\<And>s. rooted (ps_heap s) \<Longrightarrow> keeps (k s)" for s t l k
    by (rule keeps_heap [OF keeps_ops(5)]) (use assms that in simp_all)
  have num: "keeps (start_number True text b s)" if "rooted (ps_heap s)" for s using that by (simp add: start_number_def Let_def)
  have val: "keeps (begin_value True js text b s)" if "ps_heap s = ps_heap st" for s
    unfolding begin_value_def Let_def using assms that by (simp add: new num)
  have "keeps (seek_section True js text b st)" using assms ws by (simp add: seek_section_def val)
  with obj number_keeps [OF assms] show "keeps (value_section True js fo text b st)"
    using assms by (simp add: value_section_def split: option.split jtype.split)
  show "keeps (next_section st)"
    using assms by (auto simp: next_section_def Let_def intro!: keeps_heap keeps_ops split: option.split)
qed

lemma step_keeps: "rooted (ps_heap st) \<Longrightarrow> keeps (parse_step True js fo text st)"
  by (simp add: parse_step_def Let_def) (intro conjI impI keeps_then section_keeps; assumption)

lemma loop_keeps:
  assumes "parse_loop True js fo text st = Some r" and "rooted (ps_heap st)" and "r = Inl (P_Error n e g)"
  shows "rooted g"
proof -
  let ?P = "\<lambda>first_pass js fo text st r. first_pass \<longrightarrow> rooted (ps_heap st) \<longrightarrow> (\<forall>n e g. r = Inl (P_Error n e g) \<longrightarrow> rooted g)"
  have "?P True js fo text st r"
  proof (rule parse_loop.raw_induct [where P = ?P, OF _ assms(1)], intro impI)
    fix loop first_pass js fo "text" st r
    assume a: "\<And>first_pass js fo text st r. loop first_pass js fo text st = Some r \<Longrightarrow> ?P first_pass js fo text st r"
      "(case parse_step first_pass js fo text st of Fail e \<Rightarrow> Some (Inl e) | Break st' \<Rightarrow> Some (Inr st')
        | Continue st' \<Rightarrow> loop first_pass js fo text st' | Fall st' \<Rightarrow> loop first_pass js fo text st') = Some r" "first_pass" "rooted (ps_heap st)"
    with step_keeps [OF a(4), of js fo "text"] show "\<forall>n e g. r = Inl (P_Error n e g) \<longrightarrow> rooted g"
      by (cases "parse_step True js fo text st") (auto simp: keeps_def)
  qed
  with assms(2,3) show ?thesis by blast
qed

end
