(* ===== verification/Json_Parse_Safe.thy ===== *)
theory Json_Parse_Safe
  imports Json_Free
begin

text \<open>
  The parser as a whole: the turns of the second pass follow those of the first, a number
  being read in one turn, so that \<^verbatim>\<open>json_parse_ex\<close> returns for every text and every
  allocator without a fault. At the end, the texts of its error messages.
\<close>

section \<open>The end of the body in both passes\<close>

lemma seek_section_sim:
  assumes "paired H st1 st2" and "first_inv js text st1" and "fits H st1" and "fl_seek_value (ps_flags st1)"
    and "fl_need_comma (ps_flags st1) \<or> fl_need_colon (ps_flags st1) \<or> \<not> (is_digit b \<or> b = CHR ''-'')"
  shows "sim H (seek_section True js text b st1) (seek_section False js text b st2)"
proof -
  note d = pairedD [OF assms(1)] and f = num_flags_eqD [OF pairedD(3) [OF assms(1)]]
  have "\<not> num_type (top_type (ps_heap st1))"
    using assms(2,4) by (auto simp: first_inv_def ctl_ok_def num_type_def)
  then have tt: "top_type (ps_heap st2) = top_type (ps_heap st1)"
    using hpair_top_type [OF d(4)] assms(2,3) by (simp add: first_inv_def fits_def)
  have flags: "paired H (upd_flags g st1) (upd_flags g st2)" "paired H (advance (upd_flags g st1)) (advance (upd_flags g st2))"
    if "g = (\<lambda>f. f\<lparr>fl_need_comma := False, fl_seek_value := False, fl_next := True\<rparr>) \<or> g = (\<lambda>f. f\<lparr>fl_need_comma := False\<rparr>) \<or>
      g = (\<lambda>f. f\<lparr>fl_need_colon := False\<rparr>)" for g
    using that by (elim disjE; intro paired_flags [OF assms(1)]; use d(1-3) in \<open>simp add: num_flags_eq_def\<close>)+
  have val: "sim H (begin_value True js text b (upd_flags (\<lambda>f. f\<lparr>fl_seek_value := False\<rparr>) st1))
      (begin_value False js text b (upd_flags (\<lambda>f. f\<lparr>fl_seek_value := False\<rparr>) st2))"
    if "\<not> fl_need_comma (ps_flags st1)" "\<not> fl_need_colon (ps_flags st1)"
    by (rule begin_value_sim [OF assms(1,2,4)]) (use that assms(5) in blast)
  show ?thesis
    unfolding seek_section_def f tt
    using skip_ws_sim [OF assms(1)] sim_both flags val by simp
qed

lemma top_parent_ok:
  assumes "heap_ok h" and "h_top h = Some i" and "top_parent h = Some p"
  shows "i < length (h_nodes h)" "nd_parent (h_nodes h ! i) = Some p" "p < i" "p < length (h_nodes h)" "counting (nd_val (h_nodes h ! p))"
    "container (node_type (h_nodes h) p)"
proof -
  show i: "i < length (h_nodes h)" "nd_parent (h_nodes h ! i) = Some p" using assms by (auto simp: heap_ok_def top_parent_def)
  with assms(1) show p: "p < i" "container (node_type (h_nodes h) p)" by (auto simp: heap_ok_def nodes_ok_def)
  with i show pl: "p < length (h_nodes h)" by simp
  with assms(1) show "counting (nd_val (h_nodes h ! p))" by (simp add: heap_ok_def nodes_ok_def)
qed

lemma link_value_sim:
  assumes "hpair H h1 h2" and "heap_ok h1" and "h_top h1 = Some i" and "top_parent h1 = Some p" and "names_ok f h1 h2"
    and "link_value line i p h1 = Inr h1'" and "sized H (h_nodes h1')" and "\<not> fl_seek_value g \<or> parent_type h1 = Some T_Array"
  shows "\<exists>h2'. link_value line i p h2 = Inr h2' \<and> hpair H h1' h2' \<and> names_ok g h1' h2' \<and> top_type h1' = parent_type h1"
proof -
  let ?ns = "h_nodes h1"
  note q = top_parent_ok [OF assms(2-4)]
  note i = q(1,2) and p = q(3,6) and cp = q(5)
  have pl: "p < length ?ns" "p < length (h_nodes h2)" using q(4) assms(1) by (auto simp: hpair_def)
  have tw: "twin (nd_val (?ns ! p)) (nd_val (h_nodes h2 ! p)) (nd_val (H ! p))" using assms(1) pl by (simp add: hpair_def)
  have above: "open_above h1 = p # chain ?ns p" using assms(3) i p by (simp add: open_above_def chain.simps [of ?ns i])
  then have named: "named (nd_val (h_nodes h2 ! p))" using assms(5) by (simp add: names_ok_def)
  obtain v w where kids: "kids_of w = kids_at (h_nodes h2) p @ [i]" and v: "h1' = (set_node p v h1)\<lparr>h_top := Some p\<rparr>" and w: "link_value line i p h2 = Inr ((set_node p w h2)\<lparr>h_top := Some p\<rparr>)"
    and vw: "twin v w (nd_val (H ! p))" "parent_type h1 = Some T_Array \<Longrightarrow> named w" "payload_type v = payload_type (nd_val (?ns ! p))"
  proof (cases "nd_val (?ns ! p)")
    case (V_Array n)
    then have h1': "h1' = (set_node p (V_Array (n + 1)) h1)\<lparr>h_top := Some p\<rparr>" "\<not> n + 1 > UINT_MAX - 8"
      using assms(6) by (auto simp: link_value_def split: if_splits)
    obtain n' vs where n': "nd_val (H ! p) = V_Array n'" "nd_val (h_nodes h2 ! p) = F_Array n' vs" "length vs = n" using tw V_Array by auto
    have "n + 1 \<le> n'" using assms(7) pl n' unfolding h1'(1) sized_def by (auto simp: set_node_nth)
    with that [OF _ h1'(1), of "F_Array n' (vs @ [i])"] n' h1'(2) V_Array show thesis by (simp add: link_value_def)
  next
    case (V_Object n m)
    then have h1': "h1' = (set_node p (V_Object (n + 1) m) h1)\<lparr>h_top := Some p\<rparr>" "\<not> n + 1 > UINT_MAX - 8"
      using assms(6) by (auto simp: link_value_def split: if_splits)
    obtain n' m' es k where n': "nd_val (H ! p) = V_Object n' m'" "nd_val (h_nodes h2 ! p) = F_Object n' (if n' = 0 then 0 else m') m es (Some k)" "length es = n"
      using tw V_Object named by auto
    have "n + 1 \<le> n'" using assms(7) pl n' unfolding h1'(1) sized_def by (auto simp: set_node_nth)
    moreover have "parent_type h1 \<noteq> Some T_Array" using assms(4) V_Object by (simp add: parent_type_def)
    ultimately show thesis
      using that [OF _ h1'(1), of "F_Object n' m' m (es @ [(k, i)]) None"] n' h1'(2) V_Object by (simp add: link_value_def)
  qed (use p cp in \<open>simp_all add: container_def node_type_def\<close>)
  let ?h2 = "(set_node p w h2)\<lparr>h_top := Some p\<rparr>"
  have "hpair H h1' ?h2" unfolding v by (rule hpair_link [OF assms(1,3) i p(1) vw(1) kids])
  moreover have "names_ok g h1' ?h2"
  proof -
    have "open_above h1' = chain ?ns p" using pl by (simp add: v open_above_def set_node_def chain_update)
    then show ?thesis
      using assms(5,8) above vw(2) pl chain_less [of _ ?ns p] unfolding v by (auto simp: names_ok_def set_node_nth)
  qed
  moreover have "top_type h1' = parent_type h1" using v vw(3) pl assms(4) by (simp add: top_type_def parent_type_def set_node_nth)
  ultimately show ?thesis using w by blast
qed

lemma container_twin: "twin v w u \<Longrightarrow> counting v \<Longrightarrow> container (payload_type v) \<Longrightarrow> payload_type w = payload_type v"
  by (cases v) (auto simp: container_def)

text \<open>The end of the body for a finished value: the next position, with a comma expected.\<close>

definition turned :: "pst \<Rightarrow> pst" where
  "turned st = upd_flags (\<lambda>f. f\<lparr>fl_next := False, fl_need_comma := True\<rparr>)
     (if fl_reproc (ps_flags st) then upd_flags (\<lambda>f. f\<lparr>fl_reproc := False\<rparr>) st else advance st)"

definition seeking :: "pst \<Rightarrow> pst" where
  "seeking st = (if parent_type (ps_heap st) = Some T_Array then upd_flags (\<lambda>f. f\<lparr>fl_seek_value := True\<rparr>) (turned st) else turned st)"

lemma turned_simps [simp]:
  "ps_heap (turned st) = ps_heap st" "ps_line (turned st) = ps_line st"
  "ps_ptr (turned st) = (if fl_reproc (ps_flags st) then ps_ptr st else ps_ptr st + 1)"
  "ps_flags (turned st) = (ps_flags st)\<lparr>fl_reproc := False, fl_next := False, fl_need_comma := True\<rparr>"
  by (cases "ps_flags st"; simp add: turned_def)+

lemma seeking_simps [simp]:
  "ps_heap (seeking st) = ps_heap st" "ps_line (seeking st) = ps_line st"
  "ps_ptr (seeking st) = (if fl_reproc (ps_flags st) then ps_ptr st else ps_ptr st + 1)"
  "ps_flags (seeking st) = (ps_flags st)\<lparr>fl_reproc := False, fl_next := False, fl_need_comma := True,
     fl_seek_value := (parent_type (ps_heap st) = Some T_Array \<or> fl_seek_value (ps_flags st))\<rparr>"
  by (cases "ps_flags st"; simp add: seeking_def)+

lemma next_section_root:
  "fl_next (ps_flags st) \<Longrightarrow> h_top (ps_heap st) = Some i \<Longrightarrow> top_parent (ps_heap st) = None \<Longrightarrow>
   next_section st = Continue (upd_flags (\<lambda>f. f\<lparr>fl_done := True\<rparr>) (turned st))"
  by (simp add: next_section_def Let_def turned_def)

lemma next_section_link:
  "fl_next (ps_flags st) \<Longrightarrow> h_top (ps_heap st) = Some i \<Longrightarrow> top_parent (ps_heap st) = Some p \<Longrightarrow>
   next_section st = with_heap (seeking st) (link_value (ps_line st) i p (ps_heap st)) Continue"
  by (simp add: next_section_def Let_def turned_def seeking_def)

text \<open>A finished value is linked to its parent, or it is the root.\<close>

lemma link_sim:
  assumes "hpair H (ps_heap st1) (ps_heap st2)" "names_ok (ps_flags st1) (ps_heap st1) (ps_heap st2)" and "heap_ok (ps_heap st1)"
    and "h_top (ps_heap st1) = Some i" and "top_parent (ps_heap st1) = Some p"
    and s: "ps_ptr s2 = ps_ptr s1" "ps_line s2 = ps_line s1" "num_flags_eq (ps_flags s2) (ps_flags s1)" "\<not> fl_string (ps_flags s1)"
    and "\<not> fl_seek_value (ps_flags s1) \<or> parent_type (ps_heap st1) = Some T_Array"
  shows "sim H (with_heap s1 (link_value line i p (ps_heap st1)) Continue) (with_heap s2 (link_value line i p (ps_heap st2)) Continue)"
proof (cases "link_value line i p (ps_heap st1)")
  case (Inr h1)
  have "paired H (s1\<lparr>ps_heap := h1\<rparr>) (s2\<lparr>ps_heap := h2\<rparr>)"
    if "hpair H h1 h2" "names_ok (ps_flags s1) h1 h2" "top_type h1 = parent_type (ps_heap st1)" for h2
    by (rule fresh_paired [where t = "node_type (h_nodes (ps_heap st1)) p"])
      (use that s assms(5) top_parent_ok(6) [OF assms(3-5)] in \<open>auto simp: parent_type_def node_type_def container_def num_type_def\<close>)
  with link_value_sim [OF assms(1,3-5,2) Inr _ assms(10)] Inr show ?thesis
    by (auto simp: sim_def with_heap_def fits_def)
qed (simp add: with_heap_def)

lemma finished_sim:
  assumes "ps_ptr st2 = ps_ptr st1" "ps_line st2 = ps_line st1" "num_flags_eq (ps_flags st2) (ps_flags st1)" "hpair H (ps_heap st1) (ps_heap st2)"
    "names_ok (ps_flags st1) (ps_heap st1) (ps_heap st2)"
    and "heap_ok (ps_heap st1)" and next1: "fl_next (ps_flags st1)" and c: "\<not> fl_string (ps_flags st1) \<and> \<not> fl_seek_value (ps_flags st1)"
  shows "sim H (next_section st1) (next_section st2)"
proof (cases "h_top (ps_heap st1)")
  case (Some i)
  note f = num_flags_eqD [OF assms(3)]
  have next2: "fl_next (ps_flags st2)" using next1 f by simp
  have top: "h_top (ps_heap st2) = Some i" using assms(4) Some by (simp add: hpair_def)
  have tp: "top_parent (ps_heap st2) = top_parent (ps_heap st1)" using Some top assms(4,6) by (simp add: top_parent_def hpair_def heap_ok_def)
  show ?thesis
  proof (cases "top_parent (ps_heap st1)")
    case None
    let ?s = "\<lambda>st. upd_flags (\<lambda>f. f\<lparr>fl_done := True\<rparr>) (turned st)"
    have "paired H (?s st1) (?s st2)"
      using assms(1-5) c f by (simp add: paired_def settled_def names_ok_def buffer_ok_def num_flags_eq_def)
    with next_section_root [OF next1 Some None] next_section_root [OF next2 top] tp None show ?thesis by (simp add: sim_both)
  next
    case p: (Some p)
    note con = top_parent_ok(4-6) [OF assms(6) Some p]
    have pt: "parent_type (ps_heap st2) = parent_type (ps_heap st1)"
      using container_twin [OF _ con(2), of "nd_val (h_nodes (ps_heap st2) ! p)" "nd_val (H ! p)"] con assms(4) p tp
      by (simp add: parent_type_def hpair_def node_type_def)
    have "sim H (with_heap (seeking st1) (link_value (ps_line st1) i p (ps_heap st1)) Continue) (with_heap (seeking st2) (link_value (ps_line st1) i p (ps_heap st2)) Continue)"
      by (rule link_sim [OF assms(4-6) Some p]) (use assms(1-3) pt f c in \<open>simp_all add: num_flags_eq_def\<close>)
    with next_section_link [OF next1 Some p] next_section_link [OF next2 top] tp p assms(2) show ?thesis by simp
  qed
qed (use next1 in \<open>simp add: next_section_def Let_def sim_def\<close>)

lemma next_section_sim:
  assumes "paired H st1 st2" and "heap_ok (ps_heap st1)" and "fl_next (ps_flags st1) \<Longrightarrow> \<not> fl_string (ps_flags st1) \<and> \<not> fl_seek_value (ps_flags st1)"
  shows "sim H (next_section st1) (next_section st2)"
proof (cases "fl_next (ps_flags st1)")
  case True
  from finished_sim [OF pairedD(1-5) [OF assms(1)] assms(2) True assms(3) [OF True]] show ?thesis .
next
  case False
  note d = pairedD [OF assms(1)] and f = num_flags_eqD [OF pairedD(3) [OF assms(1)]]
  have "paired H (upd_flags (\<lambda>f. f\<lparr>fl_reproc := False\<rparr>) st1) (upd_flags (\<lambda>f. f\<lparr>fl_reproc := False\<rparr>) st2)" "paired H (advance st1) (advance st2)"
    by (rule paired_flags [OF assms(1)]; use d(1-3) in \<open>simp add: num_flags_eq_def\<close>)+
  with False f show ?thesis by (simp add: next_section_def sim_both)
qed

section \<open>A turn that reads no number\<close>

text \<open>The character at the position starts a number.\<close>

definition at_number :: "string \<Rightarrow> pst \<Rightarrow> bool" where
  "at_number text st \<longleftrightarrow>
     (let f = ps_flags st
      in fl_seek_value f \<and> \<not> fl_need_comma f \<and> \<not> fl_need_colon f \<and> \<not> fl_line_comment f \<and> \<not> fl_block_comment f \<and>
         ps_ptr st < length text \<and> (is_digit (text ! ps_ptr st) \<or> text ! ps_ptr st = CHR ''-''))"

lemma value_section_sim:
  assumes "paired H st1 st2" and "first_inv js text st1" and "fits H st1" and "\<not> fl_string (ps_flags st1)" "\<not> fl_done (ps_flags st1)"
    and "fl_seek_value (ps_flags st1) \<Longrightarrow> fl_need_comma (ps_flags st1) \<or> fl_need_colon (ps_flags st1) \<or> \<not> (is_digit b \<or> b = CHR ''-'')"
  shows "sim H (value_section True js fo text b st1) (value_section False js fo text b st2)"
proof -
  note d = pairedD [OF assms(1)] and f = num_flags_eqD [OF pairedD(3) [OF assms(1)]]
  show ?thesis
  proof (cases "fl_seek_value (ps_flags st1)")
    case True
    with f seek_section_sim [OF assms(1-3) True assms(6) [OF True]] show ?thesis by (simp add: value_section_def)
  next
    case False
    have ok: "heap_ok (ps_heap st1)" using assms(2) by (simp add: first_inv_def)
    have nn: "\<not> num_type (top_type (ps_heap st1))" using d(9) assms(5) by (simp add: settled_def)
    moreover have "top_type (ps_heap st1) = Some T_Object \<or> num_type (top_type (ps_heap st1))"
      using assms(2,4,5) False by (auto simp: first_inv_def ctl_ok_def num_type_def)
    ultimately have t: "top_type (ps_heap st1) = Some T_Object" by blast
    moreover have "top_type (ps_heap st2) = top_type (ps_heap st1)"
      using hpair_top_type [OF d(4) ok _ nn] assms(3) by (simp add: fits_def)
    ultimately show ?thesis
      using object_section_sim [OF assms(1) t ok False assms(4)] f False by (simp add: value_section_def)
  qed
qed

lemma after_section_sim:
  assumes "paired H st1 st2" and "first_inv js text st1" and "fits H st1" and "\<not> fl_string (ps_flags st1)"
    and b: "b = (if ps_ptr st1 = length text then NUL else text ! ps_ptr st1)" and "\<not> at_number text st1"
  shows "sim H (after_section True js fo text b st1) (after_section False js fo text b st2)"
  unfolding after_section_def
proof (rule sim_then [OF comment_section_sim [OF assms(1-4)]])
  have ptr: "b \<noteq> NUL \<Longrightarrow> ps_ptr st1 < length text" using assms(2) b by (auto simp: first_inv_def split: if_splits)
  fix s1
  assume "comment_section js text b st1 = Fall s1"
  from comment_section_fall [OF assms(2,4) b this] have s1: "s1 = st1" "\<not> fl_line_comment (ps_flags st1)" "\<not> fl_block_comment (ps_flags st1)" by simp_all
  show "grow s1 (then_flow (done_section b s1) (\<lambda>st. then_flow (value_section True js fo text b st) next_section))"
    unfolding s1(1) by (rule after_comment_grow [OF assms(2,4) s1(2,3) ptr])
  fix s2
  assume p: "paired H s1 s2"
  show "sim H (then_flow (done_section b s1) (\<lambda>st. then_flow (value_section True js fo text b st) next_section))
      (then_flow (done_section b s2) (\<lambda>st. then_flow (value_section False js fo text b st) next_section))"
  proof (rule sim_then [OF done_section_sim [OF p]])
    fix t1
    assume "done_section b s1 = Fall t1"
    then have t1: "t1 = st1" "\<not> fl_done (ps_flags st1)" using s1(1) by (auto simp: done_section_def skip_ws_def fail_def split: if_splits)
    note next_grow = value_next_grow [OF assms(2,4) t1(2) s1(2,3) ptr]
    show "grow t1 (then_flow (value_section True js fo text b t1) next_section)"
      unfolding t1(1) by (rule grow_then [OF value_section_grow [OF assms(2,4)] next_grow])
    fix t2
    assume q: "paired H t1 t2"
    have "fl_need_comma (ps_flags st1) \<or> fl_need_colon (ps_flags st1) \<or> \<not> (is_digit b \<or> b = CHR ''-'')" if "fl_seek_value (ps_flags st1)"
      using that assms(6) s1(2,3) b ptr by (auto simp: at_number_def Let_def is_digit_def split: if_splits)
    note val = value_section_sim [OF q [unfolded t1(1)] assms(2-4) t1(2) this]
    show "sim H (then_flow (value_section True js fo text b t1) next_section) (then_flow (value_section False js fo text b t2) next_section)"
      unfolding t1(1)
    proof (rule sim_then [OF val])
      fix u1
      assume u1: "value_section True js fo text b st1 = Fall u1"
      show "grow u1 (next_section u1)" by (rule next_grow) (use u1 in simp_all)
      fix u2
      assume u2: "paired H u1 u2"
      have "finished js text (work text st1) u1 \<or> goes_on js text (work text st1) u1"
        using value_section_good [OF assms(2,4) t1(2) ptr s1(2,3), where fo = fo and b = b] u1 by (simp add: value_mid_def)
      then show "sim H (next_section u1) (next_section u2)"
        by (intro next_section_sim [OF u2]) (auto simp: finished_def goes_on_def first_inv_def Let_def split: if_splits)
    qed
  qed
qed

lemma step_sim:
  assumes "paired H st1 st2" and "first_inv js text st1" and "fits H st1" and "\<not> at_number text st1"
  shows "sim H (parse_step True js fo text st1) (parse_step False js fo text st2)"
proof -
  define b where "b = (if ps_ptr st1 = length text then NUL else text ! ps_ptr st1)"
  have ptr: "ps_ptr st1 \<le> length text" using assms(2) by (simp add: first_inv_def)
  note step = parse_step_sections [OF ptr b_def] parse_step_sections [of st2 "text" b, unfolded pairedD(1) [OF assms(1)], OF ptr b_def]
  have good: "after_string js text st1 b s1" if "string_section True text b st1 = Fall s1" for s1
    using string_section_good [OF assms(2) b_def] that by simp
  have "sim H (then_flow (string_section True text b st1) (after_section True js fo text b)) (then_flow (string_section False text b st2) (after_section False js fo text b))"
  proof (rule sim_then [OF string_section_sim [OF assms(1-3)]])
    fix s1 s2
    assume s: "string_section True text b st1 = Fall s1" "fits H s1" "paired H s1 s2"
    from good [OF s(1)] show "sim H (after_section True js fo text b s1) (after_section False js fo text b s2)"
      unfolding after_string_def
    proof (elim disjE conjE)
      assume "s1 = st1" "\<not> fl_string (ps_flags s1)"
      with after_section_sim [OF _ assms(2,3) _ b_def assms(4)] s(3) show ?thesis by simp
    next
      assume q: "b = CHR 0x22" "finished js text (work text st1) s1" "top_type (ps_heap s1) = Some T_String"
        "\<not> fl_line_comment (ps_flags s1)" "\<not> fl_block_comment (ps_flags s1)"
      have ok: "heap_ok (ps_heap s1)" using q(2) by (simp add: finished_def Let_def)
      have "top_type (ps_heap s2) = Some T_String"
        using hpair_top_type [OF pairedD(4) [OF s(3)] ok] q(3) s(2) by (simp add: fits_def num_type_def)
      then have "after_section False js fo text b s2 = next_section s2"
        using q num_flags_eqD [OF pairedD(3) [OF s(3)]]
        by (simp add: after_section_def comment_section_def done_section_def value_section_def then_flow_def finished_def Let_def)
      moreover have "sim H (next_section s1) (next_section s2)"
        by (rule next_section_sim [OF s(3) ok]) (use q(2) in \<open>simp add: finished_def Let_def\<close>)
      ultimately show ?thesis using after_value_string [OF q(2-5,1)] by simp
    qed
  qed (use after_section_grow [OF assms(2) b_def good] in blast)
  then show ?thesis unfolding step .
qed

section \<open>Numbers\<close>

text \<open>
  While the first pass walks over a number only the value at the top changes. The second
  pass has read the whole number in the turn of its first character.
\<close>

definition renum :: "pheap \<Rightarrow> pheap \<Rightarrow> bool" where
  "renum h h' \<longleftrightarrow>
     heap_ok h \<and> num_type (top_type h) \<and> (\<exists>i v. h_top h = Some i \<and> num_type (Some (payload_type v)) \<and> h' = set_node i v h)"

lemma set_node_twice: "i < length (h_nodes h) \<Longrightarrow> set_node i w (set_node i v h) = set_node i w h"
  by (simp add: set_node_def)

lemma renum_trans:
  assumes "renum h h1" and "renum h1 h2"
  shows "renum h h2"
proof -
  obtain i v where i: "h_top h = Some i" "h1 = set_node i v h" "heap_ok h" "num_type (top_type h)" using assms(1) by (auto simp: renum_def)
  moreover obtain w where "h2 = set_node i w h1" "num_type (Some (payload_type w))" using assms(2) i by (auto simp: renum_def)
  moreover have "i < length (h_nodes h)" using i by (simp add: heap_ok_def)
  ultimately show ?thesis by (auto simp: renum_def set_node_twice)
qed

lemma renumI:
  "heap_ok h \<Longrightarrow> num_type (top_type h) \<Longrightarrow> h_top h = Some i \<Longrightarrow> num_type (Some (payload_type v)) \<Longrightarrow> renum h (set_node i v h)"
  unfolding renum_def by blast

lemma renum_refl:
  assumes "heap_ok h" and "num_type (top_type h)"
  shows "renum h h"
proof -
  obtain i where i: "h_top h = Some i" using assms(2) by (auto simp: num_type_def top_type_def)
  have "renum h (set_node i (nd_val (h_nodes h ! i)) h)" using assms(2) i by (intro renumI [OF assms]) (simp_all add: top_type_def)
  then show ?thesis by (simp add: set_node_def)
qed

lemma put_renum:
  assumes "heap_ok (ps_heap st)" and "num_type (top_type (ps_heap st))"
  shows "renum (ps_heap st) (ps_heap (put_int n st))" "renum (ps_heap st) (ps_heap (put_dbl x st))"
proof -
  obtain i where i: "h_top (ps_heap st) = Some i" using assms(2) by (auto simp: num_type_def top_type_def)
  have "renum (ps_heap st) (set_node i (V_Integer n) (ps_heap st))" "renum (ps_heap st) (set_node i (V_Double x) (ps_heap st))"
    by (rule renumI [OF assms i]; simp add: num_type_def)+
  with i show "renum (ps_heap st) (ps_heap (put_int n st))" "renum (ps_heap st) (ps_heap (put_dbl x st))"
    by (simp_all add: put_int_def put_dbl_def set_top_def)
qed

lemma counting_num: "num_type (Some (payload_type v)) \<Longrightarrow> counting v"
  by (cases v) (auto simp: num_type_def)

lemma renum_ok:
  assumes "renum h h'"
  shows "heap_ok h' \<and> num_type (top_type h') \<and> h_top h' = h_top h"
proof -
  obtain i v where i: "h_top h = Some i" "num_type (Some (payload_type v))" "h' = set_top v h" and h: "heap_ok h" "num_type (top_type h)"
    using assms by (auto simp: renum_def set_top_def)
  have "\<not> container t" if "top_type h = Some t" for t using h(2) that by (auto simp: num_type_def container_def)
  with set_top_ok [OF h(1) counting_num [OF i(2)]] i show ?thesis by (simp add: set_top_def)
qed

text \<open>What the section for numbers may do.\<close>

definition num_flow :: "char \<Rightarrow> pst \<Rightarrow> flow \<Rightarrow> bool" where
  "num_flow b st r \<longleftrightarrow>
     (case r of
        Fail e \<Rightarrow> True
      | Break st' \<Rightarrow> False
      | Continue st' \<Rightarrow>
          ps_line st' = ps_line st \<and> renum (ps_heap st) (ps_heap st') \<and> num_flags_eq (ps_flags st') (ps_flags st) \<and>
          (ps_ptr st' = ps_ptr st \<or> ps_ptr st' = ps_ptr st + 1 \<and> num_char b)
      | Fall st' \<Rightarrow>
          ps_line st' = ps_line st \<and> renum (ps_heap st) (ps_heap st') \<and> ps_ptr st' = ps_ptr st \<and>
          num_flags_eq (ps_flags st') ((ps_flags st)\<lparr>fl_next := True, fl_reproc := True\<rparr>))"

lemma num_flow_simps [simp]:
  "num_flow b st (Fail e)" "num_flow b st (fail st' err)"
  "num_flow b st (Continue st') \<longleftrightarrow> ps_line st' = ps_line st \<and> renum (ps_heap st) (ps_heap st') \<and> num_flags_eq (ps_flags st') (ps_flags st) \<and>
     (ps_ptr st' = ps_ptr st \<or> ps_ptr st' = ps_ptr st + 1 \<and> num_char b)"
  "num_flow b st (Fall st') \<longleftrightarrow> ps_line st' = ps_line st \<and> renum (ps_heap st) (ps_heap st') \<and> ps_ptr st' = ps_ptr st \<and>
     num_flags_eq (ps_flags st') ((ps_flags st)\<lparr>fl_next := True, fl_reproc := True\<rparr>)"
  by (simp_all add: num_flow_def fail_def)

lemma renum_put_after:
  assumes "renum h (ps_heap st)"
  shows "renum h (ps_heap (put_int n st))" "renum h (ps_heap (put_dbl x st))"
  using renum_trans [OF assms] put_renum renum_ok [OF assms] by blast+

lemma finish_number_flow:
  assumes "renum (ps_heap st0) (ps_heap st)" and "ps_line st = ps_line st0" "ps_ptr st = ps_ptr st0" "num_flags_eq (ps_flags st) (ps_flags st0)"
  shows "num_flow b st0 (finish_number fo st)"
  using assms renum_put_after [OF assms(1)] by (simp add: finish_number_def Let_def num_flags_eq_def)

lemma digit_section_flow:
  assumes "heap_ok (ps_heap st)" and "num_type (top_type (ps_heap st))" and "is_digit b"
  shows "num_flow b st (digit_section fo b st)"
proof -
  note r = renum_refl [OF assms(1,2)]
  have put: "renum (ps_heap st) (ps_heap (put_int n s))" "renum (ps_heap st) (ps_heap (put_dbl x s))" if "ps_heap s = ps_heap st" for n x s
    using renum_put_after [of "ps_heap st" s] r that by simp_all
  show ?thesis unfolding digit_section_def Let_def using r assms(3) by (simp add: put num_char_def num_flags_eq_def)
qed

lemma number_section_flow:
  assumes "heap_ok (ps_heap st)" and "num_type (top_type (ps_heap st))"
  shows "num_flow b st (number_section fo b st)"
proof -
  note r = renum_refl [OF assms]
  have put: "renum (ps_heap st) (ps_heap (put_int n s))" "renum (ps_heap st) (ps_heap (put_dbl x s))" if "renum (ps_heap st) (ps_heap s)" for n x s
    using renum_put_after [OF that] by simp_all
  have fin: "num_flow b st (finish_number fo s)" if "renum (ps_heap st) (ps_heap s)" "ps_line s = ps_line st" "ps_ptr s = ps_ptr st" "ps_flags s = ps_flags st" for s
    by (rule finish_number_flow) (use that in \<open>simp_all add: num_flags_eq_def\<close>)
  have "num_flow b st (end_number fo b st)"
    unfolding end_number_def Let_def using r by (simp add: put fin num_char_def num_flags_eq_def)
  moreover have "num_flow b st (digit_section fo b st)" if "is_digit b" by (rule digit_section_flow [OF assms that])
  ultimately show ?thesis
    unfolding number_section_def using r by (simp add: put num_char_def num_flags_eq_def) blast
qed

definition numpair :: "node list \<Rightarrow> string \<Rightarrow> pst \<Rightarrow> pst \<Rightarrow> bool" where
  "numpair H text st1 st2 \<longleftrightarrow>
     ps_line st2 = ps_line st1 \<and> num_flags_eq (ps_flags st2) ((ps_flags st1)\<lparr>fl_next := True, fl_reproc := True\<rparr>) \<and>
     \<not> fl_line_comment (ps_flags st1) \<and> \<not> fl_block_comment (ps_flags st1) \<and>
     hpair H (ps_heap st1) (ps_heap st2) \<and> names_ok (ps_flags st1) (ps_heap st1) (ps_heap st2) \<and>
     ps_ptr st1 \<le> ps_ptr st2 \<and> ps_ptr st2 \<le> length text \<and>
     (\<forall>i. ps_ptr st1 \<le> i \<and> i < ps_ptr st2 \<longrightarrow> num_char (text ! i)) \<and> (ps_ptr st2 < length text \<longrightarrow> \<not> num_char (text ! ps_ptr st2))"

lemma renum_hpair:
  assumes "renum h1 h1'" and "hpair H h1 h2"
  shows "hpair H h1' h2"
proof -
  obtain i v where i: "h_top h1 = Some i" "num_type (Some (payload_type v))" "h1' = set_node i v h1" "i < length (h_nodes h1)" "num_type (top_type h1)"
    "counting (nd_val (h_nodes h1 ! i))"
    using assms(1) by (auto simp: renum_def heap_ok_def nodes_ok_def)
  have v: "twin v w u = (w = u)" if "counting v" "num_type (Some (payload_type v))" for v w u
    using that by (cases v) (auto simp: num_type_def)
  have "twin (nd_val (h_nodes h1 ! i)) w u = twin v w u" for w u
    using v [OF i(6)] v [OF counting_num [OF i(2)] i(2)] i(1,5) by (simp add: top_type_def)
  then have "twin (nd_val (h_nodes h1' ! k)) (nd_val (h_nodes h2 ! k)) (nd_val (H ! k))" if "k < length (h_nodes h1)" for k
    using assms(2) that i(3,4) by (auto simp: hpair_def set_node_nth)
  moreover have par: "nd_parent (h_nodes h1' ! k) = nd_parent (h_nodes h1 ! k)" for k using i(3,4) by (simp add: set_node_def nth_list_update)
  moreover have "kin (h_nodes h1) (h_nodes h2) (h_top h1)" using assms(2) by (simp add: hpair_def)
  from kin_cong [OF this, of "h_nodes h1'" "h_nodes h2"] par have "kin (h_nodes h1') (h_nodes h2) (h_top h1)"
    using i(3,4) by (simp add: set_node_def open_list_update)
  ultimately show ?thesis using assms(2) i(3) by (simp add: hpair_def)
qed

lemma renum_names: "renum h1 h1' \<Longrightarrow> names_ok f h1 h2 \<Longrightarrow> names_ok f h1' h2"
  by (auto simp: renum_def names_ok_def heap_ok_def open_above_set_node)

lemma then_flow_Fall: "then_flow (Fall st) g = g st"
  by (simp add: then_flow_def)

text \<open>The first character of a number.\<close>

lemma at_number_step:
  assumes "at_number text st" and "\<not> fl_string (ps_flags st)" "\<not> fl_done (ps_flags st)"
  shows "parse_step first_pass js fo text st =
    then_flow (with_heap (upd_flags (\<lambda>f. f\<lparr>fl_seek_value := False\<rparr>) st) (new_value first_pass js T_Integer (ps_line st) (ps_heap st))
      (start_number first_pass text (text ! ps_ptr st))) next_section"
proof -
  let ?b = "text ! ps_ptr st"
  have b: "\<not> is_ws ?b" "?b \<notin> {CHR '']'', CHR ''/'', CHR ''{'', CHR ''['', CHR 0x22, CHR ''t'', CHR ''f'', CHR ''n''}"
    using assms(1) by (auto simp: at_number_def Let_def is_ws_def is_digit_def)
  have v: "value_section first_pass js fo text ?b st =
      with_heap (upd_flags (\<lambda>f. f\<lparr>fl_seek_value := False\<rparr>) st) (new_value first_pass js T_Integer (ps_line st) (ps_heap st)) (start_number first_pass text ?b)"
    using assms(1) b by (simp add: at_number_def Let_def value_section_def seek_section_def begin_value_def)
  have p: "ps_ptr st < length text" "\<not> fl_line_comment (ps_flags st)" "\<not> fl_block_comment (ps_flags st)" using assms(1) by (simp_all add: at_number_def Let_def)
  have "string_section first_pass text ?b st = Fall st" "comment_section js text ?b st = Fall st" "done_section ?b st = Fall st"
    using assms(2,3) b(2) p(2,3) by (simp_all add: string_section_def comment_section_def done_section_def)
  with v p(1) show ?thesis by (simp add: parse_step_def Let_def then_flow_Fall)
qed

lemma takeWhile_range:
  assumes "q = p + length (takeWhile P (drop p xs))" and "p \<le> length xs"
  shows "q \<le> length xs" "\<And>i. p \<le> i \<Longrightarrow> i < q \<Longrightarrow> P (xs ! i)" "q < length xs \<Longrightarrow> \<not> P (xs ! q)"
proof -
  let ?t = "takeWhile P (drop p xs)"
  have len: "length ?t \<le> length xs - p" using length_takeWhile_le [of P "drop p xs"] by simp
  with assms show "q \<le> length xs" by simp
  show "P (xs ! i)" if "p \<le> i" "i < q" for i
  proof -
    have j: "i - p < length ?t" using that assms(1) by simp
    then have "?t ! (i - p) = xs ! i" using takeWhile_nth [OF j] len that assms(2) by (simp add: nth_drop)
    moreover have "?t ! (i - p) \<in> set ?t" using j by (rule nth_mem)
    ultimately show ?thesis using set_takeWhileD by metis
  qed
  show "\<not> P (xs ! q)" if "q < length xs"
    using nth_length_takeWhile [of P "drop p xs"] that assms by simp
qed

lemma number_start_sim:
  assumes "paired H st1 st2" and "first_inv js text st1" and "at_number text st1" and "parse_step True js fo text st1 = Continue s1" and "fits H s1"
  shows "(\<exists>g. parse_step False js fo text st2 = Fail (P_Error (ps_line st1) E_Alloc g) \<and> wrecked H g) \<or>
    (\<exists>s2. parse_step False js fo text st2 = next_section s2 \<and> numpair H text s1 s2 \<and> in_number js text s1)"
proof -
  note d = pairedD [OF assms(1)] and f = num_flags_eqD [OF pairedD(3) [OF assms(1)]]
  let ?p = "ps_ptr st1" and ?u = "\<lambda>st. upd_flags (\<lambda>f. f\<lparr>fl_seek_value := False\<rparr>) st"
  have at: "fl_seek_value (ps_flags st1)" "\<not> fl_line_comment (ps_flags st1)" "\<not> fl_block_comment (ps_flags st1)" "?p < length text"
    "is_digit (text ! ?p) \<or> text ! ?p = CHR ''-''" using assms(3) by (simp_all add: at_number_def Let_def)
  have c: "heap_ok (ps_heap st1)" "\<not> fl_string (ps_flags st1)" "\<not> fl_done (ps_flags st1)" "\<And>t. top_type (ps_heap st1) = Some t \<Longrightarrow> container t"
    "\<not> fl_next (ps_flags st1)" "\<not> fl_reproc (ps_flags st1)"
    using assms(2) at(1) by (auto simp: first_inv_def ctl_ok_def container_def)
  have at2: "at_number text st2" using assms(3) d(1) f by (simp add: at_number_def Let_def)
  note step1 = at_number_step [OF assms(3) c(2,3), where js = js and fo = fo and first_pass = True]
  have step2: "parse_step False js fo text st2 = then_flow (with_heap (?u st2) (new_value False js T_Integer (ps_line st1) (ps_heap st2)) (start_number False text (text ! ?p))) next_section"
    using at_number_step [OF at2, where js = js and fo = fo and first_pass = False] c(2,3) f d(1,2) by simp
  obtain h1 where h1: "new_value True js T_Integer (ps_line st1) (ps_heap st1) = Inr h1"
    using step1 assms(4) by (cases "new_value True js T_Integer (ps_line st1) (ps_heap st1)") (auto simp: with_heap_def then_flow_def)
  let ?b = "text ! ?p"
  let ?n = "upd_flags (\<lambda>f. f\<lparr>fl_num_negative := False, fl_num_e := False, fl_num_e_got_sign := False, fl_num_e_negative := False, fl_num_zero := False\<rparr>)
      ((?u st1)\<lparr>ps_heap := h1, ps_num_digits := 0, ps_num_fraction := 0, ps_num_e := 0\<rparr>)"
  have s1: "s1 = (if ?b \<noteq> CHR ''-'' then upd_flags (\<lambda>f. f\<lparr>fl_reproc := False\<rparr>) (upd_flags (\<lambda>f. f\<lparr>fl_reproc := True\<rparr>) ?n)
      else advance (upd_flags (\<lambda>f. f\<lparr>fl_num_negative := True\<rparr>) ?n))"
    using step1 assms(4) h1 c(5)
    by (simp add: with_heap_def start_number_def Let_def then_flow_def next_section_def split: if_splits)
  have h: "ps_heap s1 = h1" "ps_line s1 = ps_line st1" "ps_ptr s1 = ?p \<or> ps_ptr s1 = ?p + 1" "num_flags_eq (ps_flags s1) ((ps_flags st1)\<lparr>fl_seek_value := False\<rparr>)"
    using s1 c(6) by (simp_all add: num_flags_eq_def)
  have "sized H (h_nodes h1)" using assms(5) h(1) by (simp add: fits_def)
  from new_value_sim [OF d(4) h1 this c(1)] show ?thesis
  proof (elim disjE exE conjE)
    fix h2
    assume h2: "new_value False js T_Integer (ps_line st1) (ps_heap st2) = Inr h2" "hpair H h1 h2"
      "nd_val (h_nodes h2 ! length (h_nodes (ps_heap st1))) = filled (nd_val (H ! length (h_nodes (ps_heap st1))))"
      "\<forall>i < length (h_nodes (ps_heap st1)). nd_val (h_nodes h2 ! i) = nd_val (h_nodes (ps_heap st2) ! i)"
    let ?q = "?p + length (takeWhile num_char (drop ?p text))"
    let ?s2 = "upd_flags (\<lambda>f. f\<lparr>fl_next := True, fl_reproc := True\<rparr>) ((?u st2)\<lparr>ps_heap := h2, ps_ptr := ?q\<rparr>)"
    note q = takeWhile_range [OF refl less_imp_le [OF at(4)], where P = num_char]
    have "num_char ?b" using at(5) by (auto simp: num_char_def)
    then have pq: "?p < ?q" using at(4) by (simp add: Cons_nth_drop_Suc [symmetric])
    have step: "parse_step False js fo text st2 = next_section ?s2"
      unfolding step2 h2(1) by (simp add: with_heap_def start_number_def then_flow_def d(1))
    have "names_ok (ps_flags s1) h1 h2"
      by (rule new_names_ok [OF d(5) at(1) c(1) h1 h2(4,3)]) (use \<open>sized H (h_nodes h1)\<close> new_value_first_heap [OF h1] in \<open>auto simp: sized_def nth_append\<close>)
    moreover have "num_flags_eq (ps_flags ?s2) ((ps_flags s1)\<lparr>fl_next := True, fl_reproc := True\<rparr>)"
      using h(4) d(3) by (simp add: num_flags_eq_def)
    moreover have "\<not> fl_line_comment (ps_flags s1)" "\<not> fl_block_comment (ps_flags s1)" using h(4) at by (simp_all add: num_flags_eq_def)
    ultimately have np: "numpair H text s1 ?s2"
      using h h2(2) q pq d(2) by (auto simp: numpair_def Suc_le_eq)
    have "top_type h1 = Some T_Integer" using new_value_first_ok [OF h1 c(1,4)] by simp
    then have "in_number js text s1"
      using first_step_good [OF assms(2), of fo] assms(4) h(1,4) c by (simp add: in_number_def num_type_def num_flags_eq_def)
    with step np show ?thesis by blast
  qed (simp add: step2 with_heap_def then_flow_def)
qed

text \<open>Inside a number.\<close>

lemma number_step:
  assumes "in_number js text st" and "\<not> fl_line_comment (ps_flags st)" "\<not> fl_block_comment (ps_flags st)"
    and b: "b = (if ps_ptr st = length text then NUL else text ! ps_ptr st)"
  shows "(\<exists>e. parse_step True js fo text st = Fail e) \<or> parse_step True js fo text st = then_flow (number_section fo b st) next_section"
proof -
  have c: "\<not> fl_string (ps_flags st)" "\<not> fl_done (ps_flags st)" "\<not> fl_seek_value (ps_flags st)" "num_type (top_type (ps_heap st))" "ps_ptr st \<le> length text"
    using assms(1) by (auto simp: in_number_def first_inv_def)
  have str: "string_section True text b st = Fall st" and don: "done_section b st = Fall st" and val: "value_section True js fo text b st = number_section fo b st"
    using c by (auto simp: string_section_def done_section_def value_section_def num_type_def)
  have "comment_section js text b st = Fall st \<or> (\<exists>e. comment_section js text b st = Fail e)"
    using c assms(2,3) by (auto simp: comment_section_def num_type_def fail_def)
  with parse_step_sections [OF c(5) b, of True js fo] str don val show ?thesis
    by (auto simp: after_section_def then_flow_Fall) (simp add: then_flow_def)
qed

text \<open>A character of a number that is left over after it is an error.\<close>

lemma left_over_fails:
  assumes "ps_ptr st < length text" and "num_char (text ! ps_ptr st)" and "fl_need_comma (ps_flags st)" "\<not> fl_string (ps_flags st)"
    "\<not> fl_line_comment (ps_flags st)" "\<not> fl_block_comment (ps_flags st)"
    and "fl_done (ps_flags st) \<or> fl_seek_value (ps_flags st) \<or> top_type (ps_heap st) = Some T_Object"
  shows "\<exists>e. parse_step True js fo text st = Fail e"
proof -
  let ?b = "text ! ps_ptr st"
  have b: "\<not> is_ws ?b" "?b \<noteq> NUL" "?b \<notin> {CHR '']'', CHR ''/'', CHR ''}'', CHR '','', CHR 0x22}"
    using assms(2) by (auto simp: num_char_def is_ws_def is_digit_def)
  have sec: "string_section True text ?b st = Fall st" "comment_section js text ?b st = Fall st"
    using assms(4-6) b(3) by (simp_all add: string_section_def comment_section_def)
  have val: "\<exists>e. then_flow (value_section True js fo text ?b st) next_section = Fail e" if "\<not> fl_done (ps_flags st)"
    using that assms(3,7) b by (auto simp: value_section_def seek_section_def object_section_def fail_def then_flow_def)
  show ?thesis
    using assms(1) sec val b by (cases "fl_done (ps_flags st)") (auto simp: parse_step_def Let_def then_flow_Fall done_section_def fail_def then_flow_def)
qed

lemma next_section_flags:
  assumes "next_section st = Continue s" and "fl_next (ps_flags st)" and "heap_ok (ps_heap st)"
  shows "fl_need_comma (ps_flags s) \<and> fl_string (ps_flags s) = fl_string (ps_flags st) \<and> fl_line_comment (ps_flags s) = fl_line_comment (ps_flags st) \<and>
    fl_block_comment (ps_flags s) = fl_block_comment (ps_flags st) \<and>
    (fl_done (ps_flags s) \<or> fl_seek_value (ps_flags s) \<or> top_type (ps_heap s) = Some T_Object) \<and> (fl_reproc (ps_flags st) \<longrightarrow> ps_ptr s = ps_ptr st)"
proof (cases "h_top (ps_heap st)")
  case (Some i)
  show ?thesis
  proof (cases "top_parent (ps_heap st)")
    case None
    with assms(1) next_section_root [OF assms(2) Some None] show ?thesis by auto
  next
    case p: (Some p)
    have pt: "parent_type (ps_heap st) = Some T_Array \<or> parent_type (ps_heap st) = Some T_Object"
      using top_parent_ok(6) [OF assms(3) Some p] p by (auto simp: parent_type_def container_def node_type_def)
    note link = next_section_link [OF assms(2) Some p]
    obtain h where h: "link_value (ps_line st) i p (ps_heap st) = Inr h"
      using assms(1) link by (cases "link_value (ps_line st) i p (ps_heap st)") (auto simp: with_heap_def)
    then have s: "s = (seeking st)\<lparr>ps_heap := h\<rparr>" using assms(1) link by (simp add: with_heap_def)
    have "top_type h = parent_type (ps_heap st)" using link_value_ok [OF assms(3) Some p h] by simp
    with pt show ?thesis unfolding s by auto
  qed
qed (use assms(1,2) in \<open>auto simp: next_section_def Let_def split: if_splits\<close>)

lemma number_turn:
  assumes "numpair H text s1 s2" and "in_number js text s1" and "parse_step True js fo text s1 = Continue t"
  shows "numpair H text t s2 \<and> in_number js text t \<or> sim H (Continue t) (next_section s2) \<or> (\<exists>e. parse_step True js fo text t = Fail e)"
proof -
  define b where "b = (if ps_ptr s1 = length text then NUL else text ! ps_ptr s1)"
  have np: "num_flags_eq (ps_flags s2) ((ps_flags s1)\<lparr>fl_next := True, fl_reproc := True\<rparr>)" "hpair H (ps_heap s1) (ps_heap s2)"
    "names_ok (ps_flags s1) (ps_heap s1) (ps_heap s2)" "\<not> fl_line_comment (ps_flags s1)" "\<not> fl_block_comment (ps_flags s1)"
    "ps_line s2 = ps_line s1" "ps_ptr s1 \<le> ps_ptr s2" "ps_ptr s2 \<le> length text"
    "\<And>i. ps_ptr s1 \<le> i \<Longrightarrow> i < ps_ptr s2 \<Longrightarrow> num_char (text ! i)" "ps_ptr s2 < length text \<Longrightarrow> \<not> num_char (text ! ps_ptr s2)"
    using assms(1) by (auto simp: numpair_def)
  have c: "heap_ok (ps_heap s1)" "num_type (top_type (ps_heap s1))" "first_inv js text s1" "\<not> fl_string (ps_flags s1)" "\<not> fl_done (ps_flags s1)" "\<not> fl_seek_value (ps_flags s1)"
    using assms(2) by (auto simp: in_number_def first_inv_def)
  have step: "then_flow (number_section fo b s1) next_section = Continue t"
    using number_step [OF assms(2) np(4,5) b_def, of fo] assms(3) by auto
  have fl: "num_flow b s1 (number_section fo b s1)" by (rule number_section_flow [OF c(1,2)])
  show ?thesis
  proof (cases "number_section fo b s1")
    case (Continue u)
    with step fl have t: "ps_line t = ps_line s1" "renum (ps_heap s1) (ps_heap t)" "num_flags_eq (ps_flags t) (ps_flags s1)"
      "ps_ptr t = ps_ptr s1 \<or> ps_ptr t = ps_ptr s1 + 1 \<and> num_char b" by (simp_all add: then_flow_def)
    have "\<not> num_char NUL" by (simp add: num_char_def is_digit_def)
    then have "num_char b \<Longrightarrow> ps_ptr s1 < ps_ptr s2" using np(7-8,10) by (auto simp: b_def le_less split: if_splits)
    with t(4) np(7) have "ps_ptr t \<le> ps_ptr s2" "ps_ptr s1 \<le> ps_ptr t" by auto
    moreover have "names_ok (ps_flags t) (ps_heap t) (ps_heap s2)"
      using renum_names [OF t(2) np(3)] num_flags_eqD(4) [OF t(3)] by (simp add: names_ok_def)
    ultimately have "numpair H text t s2"
      using np(1,4-6,8-10) t(1,3) renum_hpair [OF t(2) np(2)] by (auto simp: numpair_def num_flags_eq_def)
    moreover have "in_number js text t"
      using first_step_good [OF c(3), of fo] assms(3) t(3) c(4-6) renum_ok [OF t(2)] by (simp add: in_number_def num_flags_eq_def)
    ultimately show ?thesis by blast
  next
    case (Fall u)
    with step fl have u: "ps_line u = ps_line s1" "renum (ps_heap s1) (ps_heap u)" "ps_ptr u = ps_ptr s1"
      "num_flags_eq (ps_flags u) ((ps_flags s1)\<lparr>fl_next := True, fl_reproc := True\<rparr>)" "next_section u = Continue t" by (simp_all add: then_flow_def)
    have ok: "heap_ok (ps_heap u)" using renum_ok [OF u(2)] by simp
    have f: "num_flags_eq (ps_flags s2) (ps_flags u)" using np(1) u(4) by (simp add: num_flags_eq_def)
    have v: "fl_next (ps_flags u)" "fl_reproc (ps_flags u)" "\<not> fl_string (ps_flags u)" "\<not> fl_seek_value (ps_flags u)" "\<not> fl_line_comment (ps_flags u)"
      "\<not> fl_block_comment (ps_flags u)" using num_flags_eqD [OF u(4)] c(4,6) np(4,5) by simp_all
    show ?thesis
    proof (cases "ps_ptr s1 = ps_ptr s2")
      case True
      have "names_ok (ps_flags u) (ps_heap u) (ps_heap s2)" using renum_names [OF u(2) np(3)] v(4) by (simp add: names_ok_def)
      then have "sim H (next_section u) (next_section s2)"
        by (intro finished_sim) (use True u f np(6) ok v renum_hpair [OF u(2) np(2)] in simp_all)
      with u(5) show ?thesis by simp
    next
      case False
      note n = next_section_flags [OF u(5) v(1) ok]
      have "\<exists>e. parse_step True js fo text t = Fail e"
        by (rule left_over_fails) (use n v u(3) np(7,8) np(9) [of "ps_ptr s1"] False in auto)
      then show ?thesis by blast
    qed
  qed (use step fl in \<open>auto simp: then_flow_def num_flow_def\<close>)
qed

lemma next_section_no_break: "next_section st \<noteq> Break s"
  by (auto simp: next_section_def Let_def with_heap_def split: option.split sum.split)

lemma number_no_break:
  shows "first_inv js text st \<Longrightarrow> at_number text st \<Longrightarrow> parse_step True js fo text st \<noteq> Break s"
    and "in_number js text st \<Longrightarrow> \<not> fl_line_comment (ps_flags st) \<Longrightarrow> \<not> fl_block_comment (ps_flags st) \<Longrightarrow> parse_step True js fo text st \<noteq> Break s"
proof -
  assume a: "first_inv js text st" "at_number text st"
  have "\<not> fl_string (ps_flags st)" "\<not> fl_done (ps_flags st)" using a by (auto simp: first_inv_def ctl_ok_def at_number_def Let_def)
  from at_number_step [OF a(2) this, where js = js and fo = fo and first_pass = True] show "parse_step True js fo text st \<noteq> Break s"
    by (auto simp: then_flow_def with_heap_def start_number_def Let_def next_section_no_break split: sum.split)
next
  assume a: "in_number js text st" "\<not> fl_line_comment (ps_flags st)" "\<not> fl_block_comment (ps_flags st)"
  let ?b = "if ps_ptr st = length text then NUL else text ! ps_ptr st"
  have "num_flow ?b st (number_section fo ?b st)" using a(1) by (intro number_section_flow) (auto simp: in_number_def first_inv_def)
  then have "then_flow (number_section fo ?b st) next_section \<noteq> Break s"
    by (cases "number_section fo ?b st") (simp_all add: then_flow_def next_section_no_break num_flow_def)
  with number_step [OF a refl, of fo] show "parse_step True js fo text st \<noteq> Break s" by auto
qed

section \<open>The second pass\<close>

definition run_flow :: "json_settings \<Rightarrow> float_ops \<Rightarrow> string \<Rightarrow> flow \<Rightarrow> pst pres option" where
  "run_flow js fo text r =
     (case r of Fail e \<Rightarrow> Some (Inl e) | Break st \<Rightarrow> Some (Inr st) | Continue st \<Rightarrow> parse_loop False js fo text st | Fall st \<Rightarrow> parse_loop False js fo text st)"

text \<open>The second pass ends: an allocation fails, or it arrives where the first pass did.\<close>

definition ends_with :: "node list \<Rightarrow> pst \<Rightarrow> pst pres option \<Rightarrow> bool" where
  "ends_with H st r \<longleftrightarrow> (\<exists>n g. r = Some (Inl (P_Error n E_Alloc g)) \<and> wrecked H g) \<or> (\<exists>st2. r = Some (Inr st2) \<and> paired H st st2)"

lemma parse_loop_flow:
  "parse_loop False js fo text st = run_flow js fo text (parse_step False js fo text st)"
  by (simp add: run_flow_def parse_loop.simps [of False js fo "text" st])

lemma second_pass_follows:
  assumes "first_inv js text st" and "parse_loop True js fo text st = Some (Inr st')" and "H = h_nodes (ps_heap st')"
  shows "(\<forall>st2. paired H st st2 \<longrightarrow> ends_with H st' (parse_loop False js fo text st2)) \<and>
    (\<forall>s2. numpair H text st s2 \<and> in_number js text st \<longrightarrow> ends_with H st' (run_flow js fo text (next_section s2)))"
  using assms
proof (induction "work text st" arbitrary: st rule: less_induct)
  case less
  note inv = less.prems(1) and loop = less.prems(2) [unfolded parse_loop.simps [of True js fo "text" st]]
  note good = first_step_good [OF inv, of fo]
  have fit: "fits H st" using first_pass_fits [OF less.prems(1,2)] less.prems(3) by simp
  have IH: "paired H s st2 \<Longrightarrow> ends_with H st' (parse_loop False js fo text st2)"
      "numpair H text s s2 \<Longrightarrow> in_number js text s \<Longrightarrow> ends_with H st' (run_flow js fo text (next_section s2))"
    if "parse_step True js fo text st = Continue s" for s st2 s2
    using less.hyps [of s] that good loop less.prems(3) by simp_all
  have fits: "fits H s" if "parse_step True js fo text st = Continue s" for s
    using first_pass_fits [of js "text" s fo st'] that good loop less.prems(3) by simp
  have follow: "ends_with H st' (run_flow js fo text r)" if "sim H (Continue s) r" "parse_step True js fo text st = Continue s" for s r
  proof -
    from that(1) fits [OF that(2)] consider n g where "r = Fail (P_Error n E_Alloc g)" "wrecked H g" | st2 where "r = Continue st2" "paired H s st2"
      by (auto simp: sim_def)
    then show ?thesis
      by cases (simp_all add: run_flow_def ends_with_def [of H st' "Some _"] IH(1) [OF that(2)])
  qed
  show ?case
  proof (intro conjI allI impI)
    fix st2
    assume p: "paired H st st2"
    show "ends_with H st' (parse_loop False js fo text st2)"
      unfolding parse_loop_flow
    proof (cases "parse_step True js fo text st")
      case (Continue s)
      show "ends_with H st' (run_flow js fo text (parse_step False js fo text st2))"
      proof (cases "at_number text st")
        case True
        have alloc: "wrecked H g \<Longrightarrow> ends_with H st' (run_flow js fo text (Fail (P_Error n E_Alloc g)))" for n g by (simp add: run_flow_def ends_with_def)
        from number_start_sim [OF p inv True Continue fits [OF Continue]] IH(2) [OF Continue] alloc show ?thesis by metis
      next
        case False
        from step_sim [OF p inv fit False, of fo] Continue follow show ?thesis by simp
      qed
    next
      case (Break s)
      then have "s = st'" using loop by simp
      moreover have "\<not> at_number text st" using number_no_break(1) [OF inv] Break by blast
      moreover have "fits H s" using final_fits [of js "text" s] good Break \<open>s = st'\<close> less.prems(3) by (simp add: good_def)
      ultimately show "ends_with H st' (run_flow js fo text (parse_step False js fo text st2))"
        using step_sim [OF p inv fit, of fo] Break by (auto simp: sim_def run_flow_def ends_with_def)
    qed (use loop good in \<open>simp_all add: good_def\<close>)
  next
    fix s2
    assume n: "numpair H text st s2 \<and> in_number js text st"
    show "ends_with H st' (run_flow js fo text (next_section s2))"
    proof (cases "parse_step True js fo text st")
      case (Continue s)
      from number_turn [OF conjunct1 [OF n] conjunct2 [OF n] Continue] show ?thesis
      proof (elim disjE exE)
        assume "numpair H text s s2 \<and> in_number js text s"
        with IH(2) [OF Continue] show ?thesis by blast
      next
        assume "sim H (Continue s) (next_section s2)"
        from follow [OF this Continue] show ?thesis .
      next
        fix e
        assume "parse_step True js fo text s = Fail e"
        with loop Continue show ?thesis by (simp add: parse_loop.simps [of True js fo "text" s])
      qed
    next
      case (Break s)
      with n number_no_break(2) [of js "text" st] show ?thesis by (auto simp: numpair_def)
    qed (use loop good in \<open>simp_all add: good_def\<close>)
  qed
qed

lemma start_first_inv: "first_inv js text (start_pass empty_heap)"
  by (simp add: first_inv_def start_pass_def empty_heap_def no_flags_def heap_ok_def nodes_ok_def ctl_ok_def top_type_def)

lemma start_paired:
  assumes "heap_ok h" and "h_nodes h \<noteq> []"
  shows "paired (h_nodes h) (start_pass empty_heap) (start_pass (h\<lparr>h_alloc := h_root h\<rparr>))"
  using assms
  by (simp add: paired_def start_pass_def empty_heap_def no_flags_def num_flags_eq_def settled_def top_type_def num_type_def hpair_def
      names_ok_def open_above_def buffer_ok_def heap_ok_def kin_empty)

lemma done_hollow_free:
  assumes "paired H st st2" and "first_inv js text st" and "fl_done (ps_flags st)" and "H = h_nodes (ps_heap st)"
  shows "h_root (ps_heap st2) = Some 0" "length (h_nodes (ps_heap st2)) = length H" "kin H (h_nodes (ps_heap st2)) (Some 0)" "nodes_ok H" "H \<noteq> []" "nd_parent (H ! 0) = None"
    "\<And>i. i < length H \<Longrightarrow> nd_parent (h_nodes (ps_heap st2) ! i) = nd_parent (H ! i) \<and> \<not> hollow (nd_val (h_nodes (ps_heap st2) ! i))"
proof -
  let ?h = "ps_heap st" and ?h2 = "ps_heap st2"
  have hp: "hpair H ?h ?h2" and ok: "heap_ok ?h" using pairedD(4) [OF assms(1)] assms(2) by (simp_all add: first_inv_def)
  have "h_top ?h \<noteq> None" "top_parent ?h = None" using assms(2,3) by (auto simp: first_inv_def ctl_ok_def top_type_def)
  then obtain t where t: "h_top ?h = Some t" "nd_parent (H ! t) = None" using assms(4) by (auto simp: top_parent_def)
  have tl: "t < length H" using ok t assms(4) by (simp add: heap_ok_def)
  have k: "kin H (h_nodes ?h2) (Some t)" using hp t(1) assms(4) by (simp add: hpair_def)
  from kinD(4) [OF k tl t(2)] have "t = 0" .
  with k t(2) show "kin H (h_nodes ?h2) (Some 0)" "nd_parent (H ! 0) = None" by simp_all
  show "nodes_ok H" using ok assms(4) by (simp add: heap_ok_def)
  show "H \<noteq> []" using tl by auto
  then show "h_root ?h2 = Some 0" using hp ok assms(4) by (simp add: hpair_def heap_ok_def)
  show "length (h_nodes ?h2) = length H" using hp by (simp add: hpair_def)
  have "counting (nd_val (H ! i))" if "i < length H" for i using ok that assms(4) by (simp add: heap_ok_def nodes_ok_def)
  then have "le_payload (nd_val (H ! i)) (nd_val (H ! i))" if "i < length H" for i using that by (cases "nd_val (H ! i)") force+
  then show "nd_parent (h_nodes ?h2 ! i) = nd_parent (H ! i) \<and> \<not> hollow (nd_val (h_nodes ?h2 ! i))" if "i < length H" for i
    using hp that hollow_twin [of "nd_val (H ! i)" "nd_val (h_nodes ?h2 ! i)" "nd_val (H ! i)"] assms(4) by (simp add: hpair_def)
qed

text \<open>Both passes together.\<close>

abbreviation second_start :: "pst \<Rightarrow> pst" where
  "second_start st \<equiv> start_pass ((ps_heap st)\<lparr>h_alloc := h_root (ps_heap st)\<rparr>)"

lemma passes_end:
  obtains n e g where "parse_loop True js fo text (start_pass empty_heap) = Some (Inl (P_Error n e g))" "rooted g"
  | st n g where "parse_loop True js fo text (start_pass empty_heap) = Some (Inr st)" "parse_loop False js fo text (second_start st) = Some (Inl (P_Error n E_Alloc g))"
      "wrecked (h_nodes (ps_heap st)) g" "nodes_ok (h_nodes (ps_heap st))"
  | st st2 where "parse_loop True js fo text (start_pass empty_heap) = Some (Inr st)" "parse_loop False js fo text (second_start st) = Some (Inr st2)"
      "paired (h_nodes (ps_heap st)) st st2" "first_inv js text st" "fl_done (ps_flags st)"
proof -
  obtain r where r: "parse_loop True js fo text (start_pass empty_heap) = Some r" "\<And>f. r \<noteq> Inl (P_Fault f)"
    "\<And>st. r = Inr st \<Longrightarrow> first_inv js text st \<and> fl_done (ps_flags st)"
    using first_pass_ends [OF start_first_inv, where fo = fo and js = js] by blast
  show thesis
  proof (cases r)
    case (Inl e)
    with r(2) obtain n x g where e: "e = P_Error n x g" by (cases e) auto
    have "rooted (ps_heap (start_pass empty_heap))" by (simp add: rooted_def start_pass_def empty_heap_def)
    from loop_keeps [OF r(1) this] Inl e have "rooted g" by simp
    with that(1) r(1) Inl e show thesis by simp
  next
    case (Inr st)
    let ?H = "h_nodes (ps_heap st)"
    have inv: "first_inv js text st" "fl_done (ps_flags st)" using r(3) [OF Inr] by simp_all
    then have ok: "heap_ok (ps_heap st)" "?H \<noteq> []" by (auto simp: first_inv_def ctl_ok_def heap_ok_def top_type_def)
    have "ends_with ?H st (parse_loop False js fo text (second_start st))"
      using second_pass_follows [OF start_first_inv r(1) [unfolded Inr] refl] start_paired [OF ok] by blast
    then show thesis
      using that(2,3) r(1) Inr inv ok(1) by (auto simp: ends_with_def heap_ok_def)
  qed
qed

text \<open>The second pass could not allocate the elements or entries of the root.\<close>

definition root_unallocated :: "json_settings \<Rightarrow> float_ops \<Rightarrow> string \<Rightarrow> bool" where
  "root_unallocated js fo text \<longleftrightarrow>
     (\<exists>st n g. parse_loop True js fo text (start_pass empty_heap) = Some (Inr st) \<and>
        parse_loop False js fo text (second_start st) = Some (Inl (P_Error n E_Alloc g)) \<and> hollow (nd_val (h_nodes g ! 0)))"

lemma json_parse_ex_cases:
  "\<exists>r. json_parse_ex js fo json = Some r \<and>
     (case r of Inl (P_Fault f) \<Rightarrow> f = Null_Deref \<and> root_unallocated js fo (skip_bom json) | _ \<Rightarrow> \<not> root_unallocated js fo (skip_bom json))"
proof (rule passes_end [of js fo "skip_bom json"])
  fix n e g
  assume a: "parse_loop True js fo (skip_bom json) (start_pass empty_heap) = Some (Inl (P_Error n e g))" "rooted g"
  with first_failed [of g] show ?thesis by (simp add: json_parse_ex_def parse_failed_def rooted_def root_unallocated_def)
next
  fix st n g
  assume a: "parse_loop True js fo (skip_bom json) (start_pass empty_heap) = Some (Inr st)" "parse_loop False js fo (skip_bom json) (second_start st) = Some (Inl (P_Error n E_Alloc g))"
    "wrecked (h_nodes (ps_heap st)) g" "nodes_ok (h_nodes (ps_heap st))"
  have iff: "root_unallocated js fo (skip_bom json) \<longleftrightarrow> hollow (nd_val (h_nodes g ! 0))" using a(1,2) by (simp add: root_unallocated_def)
  from second_failed [OF a(3,4)] show ?thesis
  proof (elim disjE exE conjE)
    fix s
    assume s: "e_failed False g = Some (Inr s)"
    moreover have "\<not> hollow (nd_val (h_nodes g ! 0))" using root_hollow_fails [OF a(3)] s by auto
    ultimately show ?thesis using a(1,2) iff by (simp add: json_parse_ex_def parse_failed_def)
  qed (use a(1,2) iff in \<open>simp add: json_parse_ex_def parse_failed_def\<close>)
next
  fix st st2
  assume a: "parse_loop True js fo (skip_bom json) (start_pass empty_heap) = Some (Inr st)" "parse_loop False js fo (skip_bom json) (second_start st) = Some (Inr st2)"
    "paired (h_nodes (ps_heap st)) st st2" "first_inv js (skip_bom json) st" "fl_done (ps_flags st)"
  with done_hollow_free(1) [OF a(3-5) refl] show ?thesis by (simp add: json_parse_ex_def root_unallocated_def)
qed

section \<open>An example\<close>

text \<open>Operations on doubles for the examples, whose texts have none.\<close>

definition example_ops :: float_ops where
  "example_ops = \<lparr>fo_of_int = (\<lambda>i. i), fo_digit = (\<lambda>x d. x), fo_fraction = (\<lambda>x y n. x), fo_scale = (\<lambda>x y n. x), fo_neg = (\<lambda>x. x)\<rparr>"

text \<open>An allocator whose call \<open>k\<close> fails.\<close>

definition js_failing :: "nat \<Rightarrow> json_settings" where
  "js_failing k = \<lparr>js_max_memory = 0, js_comments = False, js_value_extra = 24, js_mem_alloc = (\<lambda>n sz. n \<noteq> k)\<rparr>"

lemmas turn_defs = parse_step_def string_section_def comment_section_def done_section_def value_section_def seek_section_def begin_value_def
  next_section_def number_section_def start_number_def digit_section_def end_number_def finish_number_def is_int_def top_int_def put_int_def would_overflow_def
  then_flow_def with_heap_def fail_def advance_def upd_flags_def upd_heap_def new_value_def new_value_first_def new_value_second_def json_alloc_def link_value_def
  top_type_def set_top_def set_node_def top_val_def top_parent_def parent_type_def start_pass_def empty_heap_def no_flags_def is_ws_def is_digit_def digit_val_def js_failing_def
  num_char_def Let_def

lemma first_pass_example:
  assumes "k > 1"
  shows "\<exists>st. parse_loop True (js_failing k) fo ''[1]'' (start_pass empty_heap) = Some (Inr st) \<and>
    ps_heap st = \<lparr>h_nodes = [\<lparr>nd_parent = None, nd_val = V_Array 1\<rparr>, \<lparr>nd_parent = Some 0, nd_val = V_Integer 1\<rparr>],
      h_top = Some 0, h_root = Some 0, h_alloc = Some 1, h_room = 0, h_buf = [], h_strlen = 0, h_used = 0, h_calls = 2\<rparr>"
  using assms by (subst parse_loop.simps, simp add: turn_defs)+

lemma second_pass_example:
  fixes h :: pheap
  defines "h \<equiv> \<lparr>h_nodes = [\<lparr>nd_parent = None, nd_val = V_Array 1\<rparr>, \<lparr>nd_parent = Some 0, nd_val = V_Integer 1\<rparr>],
      h_top = Some 0, h_root = Some 0, h_alloc = Some 0, h_room = 0, h_buf = [], h_strlen = 0, h_used = 0, h_calls = 2\<rparr>"
  shows "parse_loop False (js_failing 2) fo ''[1]'' (start_pass h) =
      Some (Inl (P_Error 1 E_Alloc (h\<lparr>h_alloc := Some 1, h_calls := 3\<rparr>)))"
    "\<exists>st. parse_loop False (js_failing 3) fo ''[1]'' (start_pass h) = Some (Inr st) \<and>
      h_nodes (ps_heap st) = [\<lparr>nd_parent = None, nd_val = F_Array 1 [1]\<rparr>, \<lparr>nd_parent = Some 0, nd_val = V_Integer 1\<rparr>] \<and> h_root (ps_heap st) = Some 0"
  unfolding h_def by (subst parse_loop.simps, simp add: turn_defs)+

section \<open>Properties\<close>

text \<open>
  Property C2. For every text, every limit on memory and every behaviour of the allocator,
  \<^verbatim>\<open>json_parse_ex\<close> returns. Both passes end, and neither reads beyond the text,
  dereferences a null pointer, reads a name that was not set, or writes beyond the memory
  whose size the first pass counted. The clean-up after an error ends as well and frees
  nothing twice. The one fault left is a null pointer in the clean-up, exactly when
  the second pass could not allocate the elements or entries of a nonempty root.
\<close>

theorem json_parse_ex_safe:
  "\<exists>r. json_parse_ex js fo json = Some r \<and>
     (case r of Inl (P_Fault f) \<Rightarrow> f = Null_Deref \<and> root_unallocated js fo (skip_bom json) | _ \<Rightarrow> \<not> root_unallocated js fo (skip_bom json))"
  by (rule json_parse_ex_cases)

text \<open>
  Property C4. Freeing what the parser returned gives all its memory back: after two
  successful passes \<^verbatim>\<open>json_builder_free\<close> on the root ends without touching freed
  memory, and has freed every value once, every buffer that was allocated once, and once
  every name of the objects that were turned into builder values; without any it does what
  \<^verbatim>\<open>json_value_free\<close> does.
\<close>

theorem parsed_value_is_freed:
  assumes "parse_loop True js fo text (start_pass empty_heap) = Some (Inr st)" and "parse_loop False js fo text (second_start st) = Some (Inr st2)"
  defines "ns \<equiv> h_nodes (ps_heap st2)"
  shows "\<exists>s. json_builder_free builder (h_root (ps_heap st2)) (whole (ps_heap st2)) = Some (Inr s) \<and>
    distinct (fh_freed s) \<and> set (fh_freed s) = {..<length ns} \<and>
    distinct (fh_bufs s) \<and> set (fh_bufs s) = {i. i < length ns \<and> has_buf (nd_val (ns ! i))} \<and>
    distinct (fh_names s) \<and> set (fh_names s) = {(i, k). i < length ns \<and> builder i \<and> payload_type (nd_val (ns ! i)) = T_Object \<and> k < length (kids_at ns i)} \<and>
    json_value_free (ps_heap st2) = json_builder_free (\<lambda>_. False) (h_root (ps_heap st2)) (whole (ps_heap st2))"
proof (rule passes_end [of js fo "text"])
  fix s s2
  assume "parse_loop True js fo text (start_pass empty_heap) = Some (Inr s)" "parse_loop False js fo text (second_start s) = Some (Inr s2)"
    and a: "paired (h_nodes (ps_heap s)) s s2" "first_inv js text s" "fl_done (ps_flags s)"
  then have "s2 = st2" using assms(1,2) by simp
  note d = done_hollow_free [OF a refl, unfolded this]
  have "json_value_free (ps_heap st2) = json_builder_free (\<lambda>_. False) (h_root (ps_heap st2)) (whole (ps_heap st2))"
    by (simp add: json_value_free_def json_value_free_ex_def json_builder_free_def)
  with free_all [OF d(3,4,2,5,7,6), of builder] show ?thesis unfolding d(1) ns_def whole_def by simp
qed (use assms(1,2) in simp_all)

theorem parsed_value_is_freed_witness:
  "\<exists>st st2 s. parse_loop True (js_failing 3) example_ops ''[1]'' (start_pass empty_heap) = Some (Inr st) \<and>
     parse_loop False (js_failing 3) example_ops ''[1]'' (second_start st) = Some (Inr st2) \<and>
     json_builder_free (\<lambda>_. False) (h_root (ps_heap st2)) (whole (ps_heap st2)) = Some (Inr s) \<and>
     distinct (fh_freed s) \<and> set (fh_freed s) = {0, 1} \<and> set (fh_bufs s) = {0} \<and> fh_names s = []"
proof -
  obtain st where st: "parse_loop True (js_failing 3) example_ops ''[1]'' (start_pass empty_heap) = Some (Inr st)"
    "ps_heap st = \<lparr>h_nodes = [\<lparr>nd_parent = None, nd_val = V_Array 1\<rparr>, \<lparr>nd_parent = Some 0, nd_val = V_Integer 1\<rparr>],
      h_top = Some 0, h_root = Some 0, h_alloc = Some 1, h_room = 0, h_buf = [], h_strlen = 0, h_used = 0, h_calls = 2\<rparr>"
    using first_pass_example [of 3] by auto
  with second_pass_example(2) [of example_ops] obtain st2 where st2: "parse_loop False (js_failing 3) example_ops ''[1]'' (second_start st) = Some (Inr st2)"
    "h_nodes (ps_heap st2) = [\<lparr>nd_parent = None, nd_val = F_Array 1 [1]\<rparr>, \<lparr>nd_parent = Some 0, nd_val = V_Integer 1\<rparr>]" by auto
  have "{..<2 :: nat} = {0, 1}" "{i. i < (2 :: nat) \<and> has_buf (nd_val ([\<lparr>nd_parent = None, nd_val = F_Array 1 [1]\<rparr>, \<lparr>nd_parent = Some 0, nd_val = V_Integer 1\<rparr>] ! i))} = {0}"
    by (auto simp: less_2_cases_iff)
  with parsed_value_is_freed [OF st(1) st2(1), of "\<lambda>_. False"] st(1) st2 show ?thesis by (auto simp: numeral_2_eq_2)
qed

text \<open>
  The fault does occur: when the parser cannot allocate the elements of a
  one-element array, its clean-up reads them through a null pointer.
\<close>

theorem root_allocation_failure_crashes:
  "json_parse_ex (js_failing 2) fo ''[1]'' = Some (Inl (P_Fault Null_Deref))"
proof -
  obtain st where "parse_loop True (js_failing 2) fo ''[1]'' (start_pass empty_heap) = Some (Inr st)"
    "ps_heap st = \<lparr>h_nodes = [\<lparr>nd_parent = None, nd_val = V_Array 1\<rparr>, \<lparr>nd_parent = Some 0, nd_val = V_Integer 1\<rparr>],
      h_top = Some 0, h_root = Some 0, h_alloc = Some 1, h_room = 0, h_buf = [], h_strlen = 0, h_used = 0, h_calls = 2\<rparr>"
    using first_pass_example [of 2] by auto
  with second_pass_example(1) [of fo] show ?thesis
    by (simp add: json_parse_ex_def skip_bom_def parse_failed_def e_failed_def json_value_free_ex_def free_loop.simps free_step_def whole_def)
qed

section \<open>Error messages\<close>

text \<open>
  The texts of the errors, printed into a buffer of \<^verbatim>\<open>json_error_max\<close> bytes without a
  bound and then copied to the caller's buffer of that size. The line and the column are
  printed as \<^verbatim>\<open>unsigned int\<close>; the column is not part of the model and is an argument.
\<close>

fun error_what :: "parse_error \<Rightarrow> string" where
  "error_what E_String_EOF = ''Unexpected EOF in string''"
| "error_what (E_Invalid_Char b) = ''Invalid character value `'' @ [b] @ ''`''"
| "error_what E_Block_Comment_EOF = ''Unexpected EOF in block comment''"
| "error_what E_Comment_Not_Allowed = ''Comment not allowed here''"
| "error_what E_EOF = ''EOF unexpected''"
| "error_what (E_Comment_Opening b) = ''Unexpected `'' @ [b] @ ''` in comment opening sequence''"
| "error_what (E_Trailing b) = ''Trailing garbage: `'' @ [b] @ ''`''"
| "error_what E_Unexpected_Bracket = ''Unexpected `]`''"
| "error_what (E_Expected_Comma b) = ''Expected `,` before `'' @ [b] @ ''`''"
| "error_what (E_Expected_Colon b) = ''Expected `:` before `'' @ [b] @ ''`''"
| "error_what (E_Seeking_Value b) = ''Unexpected `'' @ [b] @ ''` when seeking value''"
| "error_what E_Expected_Comma_Quote = ''Expected `,` before `'' @ [CHR 0x22] @ ''`''"
| "error_what (E_In_Object b) = ''Unexpected `'' @ [b] @ ''` in object''"
| "error_what (E_Zero_Before b) = ''Unexpected `0` before `'' @ [b] @ ''`''"
| "error_what E_Digit_Before_Dot = ''Expected digit before `.`''"
| "error_what E_Digit_After_Dot = ''Expected digit after `.`''"
| "error_what E_Digit_After_E = ''Expected digit after `e`''"
| "error_what E_Unknown_Value = ''Unknown value''"
| "error_what E_Alloc = ''Memory allocation failure''"
| "error_what E_Overflow = ''Too long (caught overflow)''"

definition error_text :: "nat \<Rightarrow> nat \<Rightarrow> parse_error \<Rightarrow> string" where
  "error_text line col e =
     (if e = E_Alloc then error_what e
      else dec_digits (line mod 2 ^ 32) @ '':'' @ dec_digits (col mod 2 ^ 32) @ '': '' @ error_what e)"

definition error_buf_text :: "nat \<Rightarrow> nat \<Rightarrow> parse_error \<Rightarrow> string" where
  "error_buf_text line col e =
     (if c_str (error_text line col e) \<noteq> [] then c_str (error_text line col e) else ''Unknown error'')"

lemma error_what_length: "length (error_what e) \<le> 50"
  by (cases e) simp_all

lemma unsigned_digits: "length (dec_digits (n mod 2 ^ 32)) \<le> 10"
  by (rule dec_digits_length) (simp_all add: order.strict_trans2 [OF mod_less_divisor [of "2 ^ 32" n]])

text \<open>
  Every message fits its buffer with the terminator, whatever the text that was parsed, and
  the fallback message is never used: the caller gets what the error says, up to a NUL
  character that the message quotes.
\<close>

theorem error_message_fits:
  "length (error_text line col e) < 128 \<and> error_buf_text line col e = c_str (error_text line col e)"
proof -
  obtain d ds where d: "dec_digits (line mod 2 ^ 32) = d # ds" "is_digit d"
    using dec_digits_read [of "line mod 2 ^ 32"] by (cases "dec_digits (line mod 2 ^ 32)") auto
  then have "d \<noteq> NUL" by (auto simp: is_digit_def)
  then have "c_str (error_text line col e) \<noteq> []" using d(1) by (simp add: error_text_def)
  moreover have "length (error_text line col e) < 128"
    using unsigned_digits [of line] unsigned_digits [of col] error_what_length [of e] by (simp add: error_text_def)
  ultimately show ?thesis by (simp add: error_buf_text_def)
qed

end
