(* ===== verification/Json_Serialize.thy ===== *)
theory Json_Serialize
  imports Json_Value
begin

unbundle bit_operations_syntax

text \<open>
  The serializer of \<^verbatim>\<open>shared/json-builder.c\<close>: \<^verbatim>\<open>json_measure_ex\<close>
  computes the buffer size, \<^verbatim>\<open>json_serialize_ex\<close> writes the text. Both are one
  loop without recursion: they descend through \<^verbatim>\<open>u.array.values\<close> and
  \<^verbatim>\<open>u.object.values\<close>, climb through \<^verbatim>\<open>parent\<close>, and remember in
  \<^verbatim>\<open>length_iterated\<close> how far each container has been walked. The walk is
  modelled once (\<open>walk_step\<close> is one pass of the \<^verbatim>\<open>while (value)\<close> loop, the
  stack holds the parents with their counters) and is driven by the events each loop body
  reacts to. The theorems relate the loops to a recursive printer and bound the text by
  the measured size.
\<close>

section \<open>Options\<close>

record json_serialize_opts =
  so_mode :: int
  so_opts :: c_int
  so_indent_size :: nat

abbreviation (input) json_serialize_mode_multiline :: int where
  "json_serialize_mode_multiline \<equiv> 0"

abbreviation (input) json_serialize_mode_single_line :: int where
  "json_serialize_mode_single_line \<equiv> 1"

abbreviation (input) json_serialize_mode_packed :: int where
  "json_serialize_mode_packed \<equiv> 2"

abbreviation (input) json_serialize_opt_CRLF :: c_int where
  "json_serialize_opt_CRLF \<equiv> 2"

abbreviation (input) json_serialize_opt_pack_brackets :: c_int where
  "json_serialize_opt_pack_brackets \<equiv> 4"

abbreviation (input) json_serialize_opt_no_space_after_comma :: c_int where
  "json_serialize_opt_no_space_after_comma \<equiv> 8"

abbreviation (input) json_serialize_opt_no_space_after_colon :: c_int where
  "json_serialize_opt_no_space_after_colon \<equiv> 16"

abbreviation (input) json_serialize_opt_use_tabs :: c_int where
  "json_serialize_opt_use_tabs \<equiv> 32"

definition default_opts :: json_serialize_opts where
  "default_opts = \<lparr>so_mode = json_serialize_mode_single_line, so_opts = 0, so_indent_size = 3\<rparr>"

abbreviation (input) f_spaces_around_brackets :: c_int where "f_spaces_around_brackets \<equiv> 1"
abbreviation (input) f_spaces_after_commas :: c_int where "f_spaces_after_commas \<equiv> 2"
abbreviation (input) f_spaces_after_colons :: c_int where "f_spaces_after_colons \<equiv> 4"
abbreviation (input) f_tabs :: c_int where "f_tabs \<equiv> 8"

definition get_serialize_flags :: "json_serialize_opts \<Rightarrow> c_int" where
  "get_serialize_flags so =
     (if so_mode so = json_serialize_mode_packed then 0
      else
        let flags =
          (if so_mode so = json_serialize_mode_multiline then
             (if so_opts so AND json_serialize_opt_use_tabs \<noteq> 0 then f_tabs else 0)
           else
             (if so_opts so AND json_serialize_opt_pack_brackets = 0
              then f_spaces_around_brackets else 0) OR
             (if so_opts so AND json_serialize_opt_no_space_after_comma = 0
              then f_spaces_after_commas else 0))
        in (if so_opts so AND json_serialize_opt_no_space_after_colon = 0
            then flags OR f_spaces_after_colons else flags))"

section \<open>Strings and integers\<close>

fun measure_string :: "string \<Rightarrow> nat" where
  "measure_string [] = 0"
| "measure_string (c # s) =
     (if c \<in> {CHR 0x22, CHR 0x5C, CHR 0x08, CHR 0x0C, CHR 0x0A, CHR 0x0D, CHR 0x09}
      then 2 else 1) + measure_string s"

fun serialize_string :: "string \<Rightarrow> string" where
  "serialize_string [] = []"
| "serialize_string (c # s) =
     (if c = CHR 0x22 then [CHR 0x5C, CHR 0x22]
      else if c = CHR 0x5C then [CHR 0x5C, CHR 0x5C]
      else if c = CHR 0x08 then [CHR 0x5C, CHR ''b'']
      else if c = CHR 0x0C then [CHR 0x5C, CHR ''f'']
      else if c = CHR 0x0A then [CHR 0x5C, CHR ''n'']
      else if c = CHR 0x0D then [CHR 0x5C, CHR ''r'']
      else if c = CHR 0x09 then [CHR 0x5C, CHR ''t'']
      else [c]) @ serialize_string s"

text \<open>The counting loop \<^verbatim>\<open>while (integer >= 10) integer /= 10\<close>, and the loop that fills the digits from the right.\<close>

fun int_width :: "nat \<Rightarrow> nat" where
  "int_width n = (if n < 10 then 1 else Suc (int_width (n div 10)))"

fun int_digits :: "nat \<Rightarrow> string \<Rightarrow> string" where
  "int_digits n ds =
     (let ds' = ''0123456789'' ! (n mod 10) # ds
      in if n div 10 > 0 then int_digits (n div 10) ds' else ds')"

declare int_width.simps [simp del] int_digits.simps [simp del]

text \<open>
  The text of a double: the \<^verbatim>\<open>%g\<close> format of the C library (the argument), with a
  decimal comma replaced and \<^verbatim>\<open>.0\<close> appended to a whole number.
\<close>

fun fix_comma :: "string \<Rightarrow> string" where
  "fix_comma [] = []"
| "fix_comma (c # s) = (if c = CHR '','' then CHR ''.'' # s else c # fix_comma s)"

definition double_text :: "string \<Rightarrow> string" where
  "double_text g =
     (if CHR '','' \<in> set g then fix_comma g
      else if CHR ''.'' \<notin> set g \<and> CHR ''e'' \<notin> set g then g @ ''.0''
      else g)"

section \<open>The walk\<close>

datatype walk_event =
    Ev_Empty bool
  | Ev_Open bool
  | Ev_Close bool
  | Ev_Comma
  | Ev_Key string
  | Ev_Atom json_value

text \<open>
  A configuration: the current value with its \<^verbatim>\<open>length_iterated\<close>, the chain of
  parents with theirs, and the state the events act on. The flag of an event tells an
  object from an array.
\<close>

type_synonym 's walk_cfg = "json_value \<times> nat \<times> (json_value \<times> nat) list \<times> 's"

fun walk_up :: "(json_value \<times> nat) list \<Rightarrow> 's \<Rightarrow> 's + 's walk_cfg" where
  "walk_up [] s = Inl s"
| "walk_up ((p, i) # parents) s = Inr (p, i, parents, s)"

definition walk_step :: "(walk_event \<Rightarrow> 's \<Rightarrow> 's) \<Rightarrow> 's walk_cfg \<Rightarrow> 's + 's walk_cfg" where
  "walk_step h cfg =
     (case cfg of (value, iterated, parents, s) \<Rightarrow>
        (case value of
           JArray vs \<Rightarrow>
             if iterated = 0 \<and> length vs = 0 then walk_up parents (h (Ev_Empty False) s)
             else
               let s = (if iterated = 0 then h (Ev_Open False) s else s)
               in if iterated = length vs then walk_up parents (h (Ev_Close False) s)
                  else
                    let s = (if iterated > 0 then h Ev_Comma s else s)
                    in Inr (vs ! iterated, 0, (value, Suc iterated) # parents, s)
         | JObject kvs \<Rightarrow>
             if iterated = 0 \<and> length kvs = 0 then walk_up parents (h (Ev_Empty True) s)
             else
               let s = (if iterated = 0 then h (Ev_Open True) s else s)
               in if iterated = length kvs then walk_up parents (h (Ev_Close True) s)
                  else
                    let s = (if iterated > 0 then h Ev_Comma s else s);
                        s = h (Ev_Key (fst (kvs ! iterated))) s
                    in Inr (snd (kvs ! iterated), 0, (value, Suc iterated) # parents, s)
         | _ \<Rightarrow> walk_up parents (h (Ev_Atom value) s)))"

partial_function (option) walk_loop ::
  "(walk_event \<Rightarrow> 's \<Rightarrow> 's) \<Rightarrow> 's walk_cfg \<Rightarrow> 's option" where
  "walk_loop h cfg = (case walk_step h cfg of Inl s \<Rightarrow> Some s | Inr cfg' \<Rightarrow> walk_loop h cfg')"

section \<open>Measuring\<close>

record measure_state =
  m_total :: nat
  m_newlines :: nat
  m_depth :: nat
  m_indents :: nat

definition MEASURE_NEWLINE :: "measure_state \<Rightarrow> measure_state" where
  "MEASURE_NEWLINE m = m\<lparr>m_newlines := m_newlines m + 1, m_indents := m_indents m + m_depth m\<rparr>"

definition measure_atom :: "(64 word \<Rightarrow> string) \<Rightarrow> json_value \<Rightarrow> nat" where
  "measure_atom fmt_g v =
     (case v of
        JString s \<Rightarrow> 2 + measure_string s
      | JInteger i \<Rightarrow>
          (let j = (if sint i < 0 then - i else i)
           in (if sint i < 0 then 1 else 0) + int_width (nat (sint j)))
      | JDouble d \<Rightarrow> length (fmt_g d) + 2
      | JBoolean b \<Rightarrow> if b \<noteq> 0 then 4 else 5
      | JNull \<Rightarrow> 4
      | _ \<Rightarrow> 0)"

definition measure_event ::
  "(64 word \<Rightarrow> string) \<Rightarrow> c_int \<Rightarrow> walk_event \<Rightarrow> measure_state \<Rightarrow> measure_state" where
  "measure_event fmt_g flags ev m =
     (let bracket_size = (if flags AND f_spaces_around_brackets \<noteq> 0 then 2 else 1);
          comma_size = (if flags AND f_spaces_after_commas \<noteq> 0 then 2 else 1);
          colon_size = (if flags AND f_spaces_after_colons \<noteq> 0 then 2 else 1)
      in case ev of
           Ev_Empty _ \<Rightarrow> m\<lparr>m_total := m_total m + 2\<rparr>
         | Ev_Open _ \<Rightarrow>
             MEASURE_NEWLINE (m\<lparr>m_total := m_total m + bracket_size, m_depth := m_depth m + 1\<rparr>)
         | Ev_Close _ \<Rightarrow>
             (let m = MEASURE_NEWLINE (m\<lparr>m_depth := m_depth m - 1\<rparr>)
              in m\<lparr>m_total := m_total m + bracket_size\<rparr>)
         | Ev_Comma \<Rightarrow> MEASURE_NEWLINE (m\<lparr>m_total := m_total m + comma_size\<rparr>)
         | Ev_Key name \<Rightarrow> m\<lparr>m_total := m_total m + (2 + colon_size) + measure_string name\<rparr>
         | Ev_Atom v \<Rightarrow> m\<lparr>m_total := m_total m + measure_atom fmt_g v\<rparr>)"

definition json_measure_ex ::
  "(64 word \<Rightarrow> string) \<Rightarrow> json_value \<Rightarrow> json_serialize_opts \<Rightarrow> nat option" where
  "json_measure_ex fmt_g value so =
     map_option
       (\<lambda>m. if so_mode so = json_serialize_mode_multiline
            then m_total m
              + m_newlines m * ((if so_opts so AND json_serialize_opt_CRLF \<noteq> 0 then 2 else 1) + so_indent_size so)
              + m_indents m * so_indent_size so
            else m_total m)
       (walk_loop (measure_event fmt_g (get_serialize_flags so))
          (value, 0, [], \<lparr>m_total = 1, m_newlines = 0, m_depth = 0, m_indents = 0\<rparr>))"

definition json_measure :: "(64 word \<Rightarrow> string) \<Rightarrow> json_value \<Rightarrow> nat option" where
  "json_measure fmt_g value = json_measure_ex fmt_g value default_opts"

section \<open>Serializing\<close>

text \<open>
  The bytes written so far, the current indentation, and whether a read left its array:
  negating the least 64-bit integer gives a negative digit index.
\<close>

record ser_state =
  s_buf :: string
  s_indent :: nat
  s_oob :: bool

definition put :: "string \<Rightarrow> ser_state \<Rightarrow> ser_state" where
  "put t s = s\<lparr>s_buf := s_buf s @ t\<rparr>"

definition newline_text :: "json_serialize_opts \<Rightarrow> nat \<Rightarrow> string" where
  "newline_text so n =
     (if so_mode so = json_serialize_mode_multiline
      then (if so_opts so AND json_serialize_opt_CRLF \<noteq> 0 then [CHR 0x0D] else []) @ [CHR 0x0A]
        @ replicate n (if get_serialize_flags so AND f_tabs \<noteq> 0 then CHR 0x09 else CHR '' '')
      else [])"

definition PRINT_NEWLINE :: "json_serialize_opts \<Rightarrow> ser_state \<Rightarrow> ser_state" where
  "PRINT_NEWLINE so s = put (newline_text so (s_indent s)) s"

definition PRINT_OPENING_BRACKET :: "c_int \<Rightarrow> char \<Rightarrow> ser_state \<Rightarrow> ser_state" where
  "PRINT_OPENING_BRACKET flags c s =
     put (if flags AND f_spaces_around_brackets \<noteq> 0 then [c, CHR '' ''] else [c]) s"

definition PRINT_CLOSING_BRACKET :: "c_int \<Rightarrow> char \<Rightarrow> ser_state \<Rightarrow> ser_state" where
  "PRINT_CLOSING_BRACKET flags c s =
     put (if flags AND f_spaces_around_brackets \<noteq> 0 then [CHR '' '', c] else [c]) s"

definition serialize_atom :: "(64 word \<Rightarrow> string) \<Rightarrow> json_value \<Rightarrow> ser_state \<Rightarrow> ser_state" where
  "serialize_atom fmt_g v s =
     (case v of
        JString t \<Rightarrow> put (CHR 0x22 # serialize_string t @ [CHR 0x22]) s
      | JInteger i \<Rightarrow>
          (let s = (if sint i < 0 then put ''-'' s else s);
               j = (if sint i < 0 then - i else i)
           in if sint j < 0 then s\<lparr>s_oob := True\<rparr>
              else put (int_digits (nat (sint j)) []) s)
      | JDouble d \<Rightarrow> put (double_text (fmt_g d)) s
      | JBoolean b \<Rightarrow> put (if b \<noteq> 0 then ''true'' else ''false'') s
      | JNull \<Rightarrow> put ''null'' s
      | _ \<Rightarrow> s)"

definition serialize_event ::
  "(64 word \<Rightarrow> string) \<Rightarrow> json_serialize_opts \<Rightarrow> walk_event \<Rightarrow> ser_state \<Rightarrow> ser_state" where
  "serialize_event fmt_g so ev s =
     (let flags = get_serialize_flags so
      in case ev of
           Ev_Empty obj \<Rightarrow> put (if obj then ''{}'' else ''[]'') s
         | Ev_Open obj \<Rightarrow>
             (let s = PRINT_OPENING_BRACKET flags (if obj then CHR ''{'' else CHR ''['') s;
                  s = s\<lparr>s_indent := s_indent s + so_indent_size so\<rparr>
              in PRINT_NEWLINE so s)
         | Ev_Close obj \<Rightarrow>
             (let s = s\<lparr>s_indent := s_indent s - so_indent_size so\<rparr>;
                  s = PRINT_NEWLINE so s
              in PRINT_CLOSING_BRACKET flags (if obj then CHR ''}'' else CHR '']'') s)
         | Ev_Comma \<Rightarrow>
             (let s = put '','' s;
                  s = (if flags AND f_spaces_after_commas \<noteq> 0 then put '' '' s else s)
              in PRINT_NEWLINE so s)
         | Ev_Key name \<Rightarrow>
             (let s = put (CHR 0x22 # serialize_string name @ [CHR 0x22, CHR '':'']) s
              in if flags AND f_spaces_after_colons \<noteq> 0 then put '' '' s else s)
         | Ev_Atom v \<Rightarrow> serialize_atom fmt_g v s)"

definition json_serialize_ex ::
  "(64 word \<Rightarrow> string) \<Rightarrow> json_value \<Rightarrow> json_serialize_opts \<Rightarrow> string cres option" where
  "json_serialize_ex fmt_g value so =
     map_option (\<lambda>s. if s_oob s then Inl Out_Of_Bounds else Inr (s_buf s))
       (walk_loop (serialize_event fmt_g so) (value, 0, [], \<lparr>s_buf = [], s_indent = 0, s_oob = False\<rparr>))"

definition json_serialize :: "(64 word \<Rightarrow> string) \<Rightarrow> json_value \<Rightarrow> string cres option" where
  "json_serialize fmt_g value = json_serialize_ex fmt_g value default_opts"

section \<open>The walk visits the events of the tree in order\<close>

definition commas :: "walk_event list list \<Rightarrow> walk_event list" where
  "commas xss = (case xss of [] \<Rightarrow> [] | xs # yss \<Rightarrow> xs @ concat (map ((#) Ev_Comma) yss))"

text \<open>The reference: the events of a value by recursion on the tree.\<close>

fun json_events :: "json_value \<Rightarrow> walk_event list" where
  "json_events (JArray vs) =
     (if vs = [] then [Ev_Empty False]
      else Ev_Open False # commas (map json_events vs) @ [Ev_Close False])"
| "json_events (JObject kvs) =
     (if kvs = [] then [Ev_Empty True]
      else Ev_Open True # commas (map (\<lambda>(k, v). Ev_Key k # json_events v) kvs) @ [Ev_Close True])"
| "json_events v = [Ev_Atom v]"

text \<open>Continuing at the parent after a value is done.\<close>

definition walk_resume ::
  "(walk_event \<Rightarrow> 's \<Rightarrow> 's) \<Rightarrow> (json_value \<times> nat) list \<Rightarrow> 's \<Rightarrow> 's option" where
  "walk_resume h parents s =
     (case walk_up parents s of Inl s \<Rightarrow> Some s | Inr cfg \<Rightarrow> walk_loop h cfg)"

lemma walk_resume_simps [simp]:
  "walk_resume h [] s = Some s"
  "walk_resume h ((p, i) # parents) s = walk_loop h (p, i, parents, s)"
  by (simp_all add: walk_resume_def)

lemma walk_loop_array:
  "walk_loop h (JArray vs, i, parents, s) =
     (if i = 0 \<and> vs = [] then walk_resume h parents (h (Ev_Empty False) s)
      else let s = (if i = 0 then h (Ev_Open False) s else s)
           in if i = length vs then walk_resume h parents (h (Ev_Close False) s)
              else walk_loop h (vs ! i, 0, (JArray vs, Suc i) # parents,
                     if i > 0 then h Ev_Comma s else s))"
  by (simp add: walk_loop.simps [of h "(JArray vs, i, parents, s)"] walk_step_def walk_resume_def
      Let_def)

lemma walk_loop_object:
  "walk_loop h (JObject kvs, i, parents, s) =
     (if i = 0 \<and> kvs = [] then walk_resume h parents (h (Ev_Empty True) s)
      else let s = (if i = 0 then h (Ev_Open True) s else s)
           in if i = length kvs then walk_resume h parents (h (Ev_Close True) s)
              else walk_loop h (snd (kvs ! i), 0, (JObject kvs, Suc i) # parents,
                     h (Ev_Key (fst (kvs ! i))) (if i > 0 then h Ev_Comma s else s)))"
  by (simp add: walk_loop.simps [of h "(JObject kvs, i, parents, s)"] walk_step_def walk_resume_def
      Let_def)

lemma walk_array_tail:
  assumes IH: "\<And>v parents s. v \<in> set vs \<Longrightarrow>
      walk_loop h (v, 0, parents, s) = walk_resume h parents (fold h (json_events v) s)"
    and "0 < i" and "i \<le> length vs"
  shows "walk_loop h (JArray vs, i, parents, s) = walk_resume h parents
    (fold h (concat (map ((#) Ev_Comma) (map json_events (drop i vs))) @ [Ev_Close False]) s)"
  using assms(2,3)
proof (induction "length vs - i" arbitrary: i s)
  case 0
  then show ?case by (auto simp: walk_loop_array [of h vs i])
next
  case (Suc d)
  then have i: "i < length vs" by simp
  then have "drop i vs = vs ! i # drop (Suc i) vs" by (simp add: Cons_nth_drop_Suc)
  with Suc i show ?case by (auto simp: walk_loop_array [of h vs i] IH)
qed

lemma walk_object_tail:
  assumes IH: "\<And>k v parents s. (k, v) \<in> set kvs \<Longrightarrow>
      walk_loop h (v, 0, parents, s) = walk_resume h parents (fold h (json_events v) s)"
    and "0 < i" and "i \<le> length kvs"
  shows "walk_loop h (JObject kvs, i, parents, s) = walk_resume h parents
    (fold h (concat (map ((#) Ev_Comma) (map (\<lambda>(k, v). Ev_Key k # json_events v) (drop i kvs)))
       @ [Ev_Close True]) s)"
  using assms(2,3)
proof (induction "length kvs - i" arbitrary: i s)
  case 0
  then show ?case by (auto simp: walk_loop_object [of h kvs i])
next
  case (Suc d)
  then have i: "i < length kvs" by simp
  then have "drop i kvs = kvs ! i # drop (Suc i) kvs" by (simp add: Cons_nth_drop_Suc)
  moreover have "walk_loop h (snd (kvs ! i), 0, ps, t)
      = walk_resume h ps (fold h (json_events (snd (kvs ! i))) t)" for ps t
    using i by (intro IH [of "fst (kvs ! i)"]) simp
  ultimately show ?case using Suc i by (auto simp: walk_loop_object [of h kvs i] split_beta)
qed

lemma walk_loop_events:
  "walk_loop h (v, 0, parents, s) = walk_resume h parents (fold h (json_events v) s)"
proof (induction v arbitrary: parents s)
  case (JArray vs)
  show ?case
  proof (cases vs)
    case Nil
    then show ?thesis by (simp add: walk_loop_array)
  next
    case (Cons v vs')
    then show ?thesis
      using JArray walk_array_tail [of vs h 1]
      by (simp add: walk_loop_array [of h "v # vs'" 0] commas_def)
  qed
next
  case (JObject kvs)
  show ?case
  proof (cases kvs)
    case Nil
    then show ?thesis by (simp add: walk_loop_object)
  next
    case (Cons kv kvs')
    have IH: "walk_loop h (v, 0, parents, s) = walk_resume h parents (fold h (json_events v) s)"
      if "(k, v) \<in> set kvs" for k v parents s
      using JObject [OF that] by simp
    show ?thesis
      using Cons IH [of "fst kv" "snd kv"] walk_object_tail [of kvs h 1] IH
      by (simp add: walk_loop_object [of h "kv # kvs'" 0] commas_def split_beta)
  qed
qed (simp_all add: walk_loop.simps [of h "(_, 0, _, _)"] walk_step_def walk_resume_def)

section \<open>Two clients of one walk\<close>

text \<open>
  The interface between the two loops: their states are related and every event of an
  admitted kind keeps the relation. Then the results of the two loops over one value are
  related too.
\<close>

locale walk_simulation =
  fixes h1 :: "walk_event \<Rightarrow> 's \<Rightarrow> 's"
    and h2 :: "walk_event \<Rightarrow> 't \<Rightarrow> 't"
    and admitted :: "walk_event \<Rightarrow> bool"
    and rel :: "'s \<Rightarrow> 't \<Rightarrow> bool"
  assumes event_rel: "admitted ev \<Longrightarrow> rel s t \<Longrightarrow> rel (h1 ev s) (h2 ev t)"
begin

lemma fold_rel: "(\<forall>ev \<in> set evs. admitted ev) \<Longrightarrow> rel s t \<Longrightarrow> rel (fold h1 evs s) (fold h2 evs t)"
  by (induction evs arbitrary: s t) (auto intro: event_rel)

lemma loops_rel:
  assumes "\<forall>ev \<in> set (json_events v). admitted ev" and "rel s t"
  shows "\<exists>s' t'. walk_loop h1 (v, 0, [], s) = Some s' \<and> walk_loop h2 (v, 0, [], t) = Some t' \<and> rel s' t'"
  using fold_rel [OF assms] by (simp add: walk_loop_events)

end

section \<open>Digits and strings have the measured length\<close>

lemma length_serialize_string: "length (serialize_string s) = measure_string s"
  by (induction s) auto

lemma length_int_digits: "length (int_digits n ds) = int_width n + length ds"
proof (induction n arbitrary: ds rule: int_width.induct)
  case (1 n)
  then show ?case
    by (cases "n < 10") (auto simp: int_digits.simps [of n] int_width.simps [of n] Let_def div_greater_zero_iff)
qed

lemma length_fix_comma [simp]: "length (fix_comma s) = length s"
  by (induction s) auto

lemma length_double_text: "length (double_text g) \<le> length g + 2"
  by (simp add: double_text_def)

text \<open>The least 64-bit integer is the only one whose negation is negative.\<close>

definition safe_event :: "walk_event \<Rightarrow> bool" where
  "safe_event ev \<longleftrightarrow> ev \<noteq> Ev_Atom (JInteger (- (2 ^ 63)))"

definition exact_event :: "walk_event \<Rightarrow> bool" where
  "exact_event ev \<longleftrightarrow> safe_event ev \<and> (\<forall>d. ev \<noteq> Ev_Atom (JDouble d))"

lemma sint_neg_word64:
  fixes i :: "64 word"
  assumes "sint i < 0" and "i \<noteq> - (2 ^ 63)"
  shows "sint (- i) = - sint i"
proof -
  have ne: "sint i \<noteq> - (2 ^ 63)"
  proof
    assume "sint i = - (2 ^ 63)"
    then have "word_of_int (sint i) = (word_of_int (- (2 ^ 63)) :: 64 word)" by simp
    with assms(2) show False by simp
  qed
  have "- (2 ^ 63) \<le> sint i" using sint_ge [of i] by simp
  with ne assms(1) have "- (2 ^ 63) \<le> - sint i" "- sint i < 2 ^ 63" by auto
  then have "signed_take_bit 63 (- sint i) = - sint i"
    by (intro signed_take_bit_int_eq_self) auto
  moreover have "sint (- i) = signed_take_bit 63 (- sint i)"
    by (simp add: sint_word_ariths)
  ultimately show ?thesis by simp
qed

section \<open>The text fits the measured size\<close>

definition measured :: "json_serialize_opts \<Rightarrow> measure_state \<Rightarrow> nat" where
  "measured so m =
     (if so_mode so = json_serialize_mode_multiline
      then m_total m
        + m_newlines m * ((if so_opts so AND json_serialize_opt_CRLF \<noteq> 0 then 2 else 1) + so_indent_size so)
        + m_indents m * so_indent_size so
      else m_total m)"

definition fits :: "json_serialize_opts \<Rightarrow> ser_state \<Rightarrow> measure_state \<Rightarrow> bool" where
  "fits so s m \<longleftrightarrow>
     \<not> s_oob s \<and> s_indent s = m_depth m * so_indent_size so \<and> length (s_buf s) + 1 \<le> measured so m"

definition fits_exactly :: "json_serialize_opts \<Rightarrow> ser_state \<Rightarrow> measure_state \<Rightarrow> bool" where
  "fits_exactly so s m \<longleftrightarrow>
     \<not> s_oob s \<and> length (s_buf s) + 1 = m_total m \<and> so_mode so \<noteq> json_serialize_mode_multiline"

lemmas event_defs =
  serialize_event_def measure_event_def PRINT_NEWLINE_def PRINT_OPENING_BRACKET_def
  PRINT_CLOSING_BRACKET_def MEASURE_NEWLINE_def put_def newline_text_def Let_def

lemma serialize_integer_facts:
  assumes "i \<noteq> - (2 ^ 63)"
  shows "\<exists>t. serialize_atom fmt_g (JInteger i) s = put t s \<and> length t = measure_atom fmt_g (JInteger i)"
proof (cases "sint i < 0")
  case True
  with sint_neg_word64 [OF True assms] show ?thesis
    by (auto simp: serialize_atom_def measure_atom_def put_def length_int_digits Let_def
        intro!: exI [of _ "''-'' @ int_digits (nat (- sint i)) []"])
next
  case False
  then show ?thesis
    by (auto simp: serialize_atom_def measure_atom_def put_def length_int_digits
        intro!: exI [of _ "int_digits (nat (sint i)) []"])
qed

lemma serialize_atom_facts:
  assumes "safe_event (Ev_Atom v)"
  shows "\<exists>t. serialize_atom fmt_g v s = put t s \<and> length t \<le> measure_atom fmt_g v \<and>
    (exact_event (Ev_Atom v) \<longrightarrow> length t = measure_atom fmt_g v)"
proof (cases v)
  case (JInteger i)
  with assms have "i \<noteq> - (2 ^ 63)" by (auto simp: safe_event_def)
  with serialize_integer_facts [of i fmt_g s] JInteger show ?thesis by auto
next
  case (JDouble d)
  then show ?thesis
    using length_double_text [of "fmt_g d"]
    by (auto simp: serialize_atom_def measure_atom_def exact_event_def)
next
  case (JString t)
  then show ?thesis
    by (auto simp: serialize_atom_def measure_atom_def length_serialize_string
        intro!: exI [of _ "CHR 0x22 # serialize_string t @ [CHR 0x22]"])
qed (auto simp: serialize_atom_def measure_atom_def put_def
    intro: exI [of _ "''true''"] exI [of _ "''false''"] exI [of _ "''null''"] exI [of _ "[]"])

lemma serialize_event_fits:
  assumes "safe_event ev" and "fits so s m"
  shows "fits so (serialize_event fmt_g so ev s) (measure_event fmt_g (get_serialize_flags so) ev m)"
proof (cases ev)
  case (Ev_Atom v)
  with serialize_atom_facts [of v fmt_g s] assms show ?thesis
    by (auto simp: fits_def measured_def serialize_event_def measure_event_def put_def)
next
  case (Ev_Close obj)
  with assms show ?thesis
    by (auto simp: fits_def measured_def event_defs diff_mult_distrib algebra_simps)
qed (use assms in \<open>auto simp: fits_def measured_def event_defs length_serialize_string algebra_simps\<close>)

lemma serialize_event_fits_exactly:
  assumes "exact_event ev" and "fits_exactly so s m"
  shows "fits_exactly so (serialize_event fmt_g so ev s)
    (measure_event fmt_g (get_serialize_flags so) ev m)"
proof (cases ev)
  case (Ev_Atom v)
  with serialize_atom_facts [of v fmt_g s] assms show ?thesis
    by (auto simp: fits_exactly_def serialize_event_def measure_event_def put_def exact_event_def)
qed (use assms in \<open>auto simp: fits_exactly_def event_defs length_serialize_string\<close>)

interpretation fit: walk_simulation "serialize_event fmt_g so"
  "measure_event fmt_g (get_serialize_flags so)" safe_event "fits so" for fmt_g so
  by unfold_locales (rule serialize_event_fits)

interpretation exact: walk_simulation "serialize_event fmt_g so"
  "measure_event fmt_g (get_serialize_flags so)" exact_event "fits_exactly so" for fmt_g so
  by unfold_locales (rule serialize_event_fits_exactly)

definition json_safe :: "json_value \<Rightarrow> bool" where
  "json_safe v \<longleftrightarrow> (\<forall>ev \<in> set (json_events v). safe_event ev)"

definition json_exact :: "json_value \<Rightarrow> bool" where
  "json_exact v \<longleftrightarrow> (\<forall>ev \<in> set (json_events v). exact_event ev)"

lemma json_measure_ex_loop:
  "json_measure_ex fmt_g v so =
     map_option (measured so) (walk_loop (measure_event fmt_g (get_serialize_flags so))
       (v, 0, [], \<lparr>m_total = 1, m_newlines = 0, m_depth = 0, m_indents = 0\<rparr>))"
  by (simp add: json_measure_ex_def measured_def [abs_def])

section \<open>The reference printer\<close>

definition join_text :: "string \<Rightarrow> string list \<Rightarrow> string" where
  "join_text sep ts = (case ts of [] \<Rightarrow> [] | t # us \<Rightarrow> t @ concat (map ((@) sep) us))"

abbreviation spaced :: "json_serialize_opts \<Rightarrow> c_int \<Rightarrow> string" where
  "spaced so f \<equiv> (if get_serialize_flags so AND f \<noteq> 0 then '' '' else [])"

definition comma_text :: "json_serialize_opts \<Rightarrow> nat \<Rightarrow> string" where
  "comma_text so n = '','' @ spaced so f_spaces_after_commas @ newline_text so n"

definition key_text :: "json_serialize_opts \<Rightarrow> string \<Rightarrow> string" where
  "key_text so k = CHR 0x22 # serialize_string k @ [CHR 0x22, CHR '':''] @ spaced so f_spaces_after_colons"

definition bracketed :: "json_serialize_opts \<Rightarrow> char \<Rightarrow> char \<Rightarrow> nat \<Rightarrow> string \<Rightarrow> string" where
  "bracketed so l r n t =
     l # spaced so f_spaces_around_brackets @ newline_text so (n + so_indent_size so) @ t
     @ newline_text so n @ spaced so f_spaces_around_brackets @ [r]"

definition int_text :: "int \<Rightarrow> string" where
  "int_text n = (if n < 0 then CHR ''-'' # int_digits (nat (- n)) [] else int_digits (nat n) [])"

text \<open>The text of a value at indentation \<open>n\<close>, by recursion on the tree.\<close>

fun json_text :: "(64 word \<Rightarrow> string) \<Rightarrow> json_serialize_opts \<Rightarrow> nat \<Rightarrow> json_value \<Rightarrow> string" where
  "json_text fmt_g so n (JArray vs) =
     (if vs = [] then ''[]''
      else bracketed so (CHR ''['') (CHR '']'') n
        (join_text (comma_text so (n + so_indent_size so))
          (map (json_text fmt_g so (n + so_indent_size so)) vs)))"
| "json_text fmt_g so n (JObject kvs) =
     (if kvs = [] then ''{}''
      else bracketed so (CHR ''{'') (CHR ''}'') n
        (join_text (comma_text so (n + so_indent_size so))
          (map (\<lambda>(k, v). key_text so k @ json_text fmt_g so (n + so_indent_size so) v) kvs)))"
| "json_text fmt_g so n (JInteger i) = int_text (sint i)"
| "json_text fmt_g so n (JDouble d) = double_text (fmt_g d)"
| "json_text fmt_g so n (JString s) = CHR 0x22 # serialize_string s @ [CHR 0x22]"
| "json_text fmt_g so n (JBoolean b) = (if b \<noteq> 0 then ''true'' else ''false'')"
| "json_text fmt_g so n JNull = ''null''"
| "json_text fmt_g so n JNone = []"

lemma put_simps [simp]:
  "put [] s = s"
  "put t (put u s) = put (u @ t) s"
  "s_indent (put t s) = s_indent s"
  "(put t s)\<lparr>s_indent := n\<rparr> = put t (s\<lparr>s_indent := n\<rparr>)"
  by (simp_all add: put_def)

lemma put_indent_restore [simp]: "put t (s\<lparr>s_indent := n\<rparr>)\<lparr>s_indent := m\<rparr> = put t (s\<lparr>s_indent := m\<rparr>)"
  by (simp add: put_def)

lemma s_indent_same [simp]: "s_indent s = n \<Longrightarrow> s\<lparr>s_indent := n\<rparr> = s"
  by auto

lemma fold_comma_tail:
  assumes "\<And>x s. x \<in> set xs \<Longrightarrow> s_indent s = n \<Longrightarrow> fold (serialize_event fmt_g so) (ev x) s = put (tx x) s"
    and "s_indent s = n"
  shows "fold (serialize_event fmt_g so) (concat (map ((#) Ev_Comma) (map ev xs))) s
    = put (concat (map ((@) (comma_text so n)) (map tx xs))) s"
  using assms
proof (induction xs arbitrary: s)
  case (Cons x xs)
  have "serialize_event fmt_g so Ev_Comma s = put (comma_text so n) s"
    using Cons.prems(2) by (simp add: serialize_event_def comma_text_def PRINT_NEWLINE_def Let_def)
  then show ?case using Cons by simp
qed simp

lemma fold_commas:
  assumes "\<And>x s. x \<in> set xs \<Longrightarrow> s_indent s = n \<Longrightarrow> fold (serialize_event fmt_g so) (ev x) s = put (tx x) s"
    and "s_indent s = n"
  shows "fold (serialize_event fmt_g so) (commas (map ev xs)) s
    = put (join_text (comma_text so n) (map tx xs)) s"
proof (cases xs)
  case (Cons x xs')
  then show ?thesis
    using assms fold_comma_tail [of xs' n fmt_g so ev tx "put (tx x) s"]
    by (simp add: commas_def join_text_def)
qed (simp add: commas_def join_text_def)

lemma fold_bracketed:
  assumes "fold (serialize_event fmt_g so) evs
      (put u (s\<lparr>s_indent := s_indent s + so_indent_size so\<rparr>))
      = put (u @ t) (s\<lparr>s_indent := s_indent s + so_indent_size so\<rparr>)"
    and "u = (if obj then CHR ''{'' else CHR ''['') # spaced so f_spaces_around_brackets
        @ newline_text so (s_indent s + so_indent_size so)"
  shows "fold (serialize_event fmt_g so) (Ev_Open obj # evs @ [Ev_Close obj]) s
    = put (bracketed so (if obj then CHR ''{'' else CHR ''['') (if obj then CHR ''}'' else CHR '']'')
        (s_indent s) t) s"
proof -
  have "serialize_event fmt_g so (Ev_Open obj) s
      = put u (s\<lparr>s_indent := s_indent s + so_indent_size so\<rparr>)"
    by (simp add: assms(2) serialize_event_def PRINT_OPENING_BRACKET_def PRINT_NEWLINE_def Let_def)
  with assms show ?thesis
    by (simp add: serialize_event_def PRINT_CLOSING_BRACKET_def PRINT_NEWLINE_def bracketed_def Let_def)
qed

lemma json_safe_simps [simp]:
  "json_safe (JArray vs) \<longleftrightarrow> (\<forall>v \<in> set vs. json_safe v)"
  "json_safe (JObject kvs) \<longleftrightarrow> (\<forall>(k, v) \<in> set kvs. json_safe v)"
  "json_safe (JInteger i) \<longleftrightarrow> i \<noteq> - (2 ^ 63)"
  "json_safe (JString s)" "json_safe (JDouble d)" "json_safe (JBoolean b)" "json_safe JNull" "json_safe JNone"
  by (cases vs; cases kvs; force simp: json_safe_def safe_event_def commas_def)+

lemma serialize_integer_text:
  assumes "i \<noteq> - (2 ^ 63)"
  shows "serialize_atom fmt_g (JInteger i) s = put (int_text (sint i)) s"
  using sint_neg_word64 [OF _ assms]
  by (auto simp: serialize_atom_def int_text_def Let_def)

lemma serialize_event_simps:
  "serialize_event fmt_g so (Ev_Key k) s = put (key_text so k) s"
  "serialize_event fmt_g so (Ev_Atom v) s = serialize_atom fmt_g v s"
  "serialize_event fmt_g so (Ev_Empty obj) s = put (if obj then ''{}'' else ''[]'') s"
  by (simp_all add: serialize_event_def key_text_def Let_def)

lemma fold_events_text:
  "json_safe v \<Longrightarrow>
   fold (serialize_event fmt_g so) (json_events v) s = put (json_text fmt_g so (s_indent s) v) s"
proof (induction v arbitrary: s)
  case (JArray vs)
  show ?case
  proof (cases "vs = []")
    case False
    let ?n = "s_indent s + so_indent_size so"
    have "fold (serialize_event fmt_g so) (commas (map json_events vs)) (put u (s\<lparr>s_indent := ?n\<rparr>))
        = put (u @ join_text (comma_text so ?n) (map (json_text fmt_g so ?n) vs)) (s\<lparr>s_indent := ?n\<rparr>)" for u
      using JArray by (subst fold_commas [where tx = "json_text fmt_g so ?n" and n = ?n]) auto
    from fold_bracketed [OF this refl, of False] False show ?thesis by simp
  qed (simp add: serialize_event_simps)
next
  case (JObject kvs)
  show ?case
  proof (cases "kvs = []")
    case False
    let ?n = "s_indent s + so_indent_size so"
    let ?ev = "\<lambda>(k, v). Ev_Key k # json_events v"
    let ?tx = "\<lambda>(k, v). key_text so k @ json_text fmt_g so ?n v"
    have "fold (serialize_event fmt_g so) (?ev kv) t = put (?tx kv) t"
      if "kv \<in> set kvs" "s_indent t = ?n" for kv t
      using JObject that
      by (cases kv) (auto simp: serialize_event_simps)
    then have "fold (serialize_event fmt_g so) (commas (map ?ev kvs)) (put u (s\<lparr>s_indent := ?n\<rparr>))
        = put (u @ join_text (comma_text so ?n) (map ?tx kvs)) (s\<lparr>s_indent := ?n\<rparr>)" for u
      by (subst fold_commas [where tx = ?tx and n = ?n]) auto
    from fold_bracketed [OF this refl, of True] False show ?thesis by simp
  qed (simp add: serialize_event_simps)
next
  case (JInteger i)
  then show ?case by (simp add: serialize_event_simps serialize_integer_text)
qed (simp_all add: serialize_event_simps serialize_atom_def)

lemma json_serialize_ex_text:
  assumes "json_safe v"
  shows "json_serialize_ex fmt_g v so = Some (Inr (json_text fmt_g so 0 v))"
  using fold_events_text [OF assms]
  by (simp add: json_serialize_ex_def walk_loop_events put_def)

lemma serialize_within_measure:
  assumes "json_safe v"
  shows "\<exists>t n. json_serialize_ex fmt_g v so = Some (Inr t) \<and> json_measure_ex fmt_g v so = Some n \<and>
    length t + 1 \<le> n"
proof -
  have "fits so \<lparr>s_buf = [], s_indent = 0, s_oob = False\<rparr>
      \<lparr>m_total = 1, m_newlines = 0, m_depth = 0, m_indents = 0\<rparr>"
    by (simp add: fits_def measured_def)
  from fit.loops_rel [OF assms [unfolded json_safe_def] this, of fmt_g] show ?thesis
    by (auto simp: json_serialize_ex_def json_measure_ex_loop fits_def)
qed

text \<open>The loops end for every value, and the serializer fails exactly on unsafe values.\<close>

lemma json_measure_total: "\<exists>n. json_measure_ex fmt_g v so = Some n"
  by (simp add: json_measure_ex_def walk_loop_events)

lemma neg_negative_iff:
  fixes i :: "64 word"
  assumes "sint i < 0"
  shows "sint (- i) < 0 \<longleftrightarrow> i = - (2 ^ 63)"
  using sint_neg_word64 [OF assms] assms by (cases "i = - (2 ^ 63)") auto

lemma serialize_event_oob: "s_oob (serialize_event fmt_g so ev s) \<longleftrightarrow> s_oob s \<or> \<not> safe_event ev"
proof (cases ev)
  case (Ev_Atom v)
  show ?thesis
  proof (cases v)
    case (JInteger i)
    have "\<not> sint (- (2 ^ 63) :: 64 word) \<ge> 0" by simp
    with Ev_Atom JInteger neg_negative_iff [of i] show ?thesis
      by (cases "sint i < 0") (auto simp: serialize_event_def serialize_atom_def safe_event_def put_def Let_def)
  qed (auto simp: Ev_Atom serialize_event_def serialize_atom_def safe_event_def put_def Let_def)
qed (auto simp: serialize_event_def safe_event_def put_def Let_def PRINT_OPENING_BRACKET_def PRINT_NEWLINE_def
    PRINT_CLOSING_BRACKET_def)

lemma fold_oob: "s_oob (fold (serialize_event fmt_g so) evs s) \<longleftrightarrow> s_oob s \<or> (\<exists>ev \<in> set evs. \<not> safe_event ev)"
  by (induction evs arbitrary: s) (auto simp: serialize_event_oob)

lemma json_serialize_total:
  "json_serialize_ex fmt_g v so = Some (if json_safe v then Inr (json_text fmt_g so 0 v) else Inl Out_Of_Bounds)"
proof (cases "json_safe v")
  case True
  with json_serialize_ex_text show ?thesis by simp
next
  case False
  then show ?thesis by (simp add: json_serialize_ex_def walk_loop_events fold_oob) (auto simp: json_safe_def)
qed

text \<open>In the modes without indentation the measured size is exact for a value without doubles.\<close>

lemma measure_exact_text:
  assumes "json_exact v" and "so_mode so \<noteq> json_serialize_mode_multiline"
  shows "json_measure_ex fmt_g v so = Some (length (json_text fmt_g so 0 v) + 1)"
proof -
  have "fits_exactly so \<lparr>s_buf = [], s_indent = 0, s_oob = False\<rparr>
      \<lparr>m_total = 1, m_newlines = 0, m_depth = 0, m_indents = 0\<rparr>"
    using assms(2) by (simp add: fits_exactly_def)
  from exact.loops_rel [OF assms(1) [unfolded json_exact_def] this, of fmt_g]
  obtain s m where loops:
    "walk_loop (serialize_event fmt_g so) (v, 0, [], \<lparr>s_buf = [], s_indent = 0, s_oob = False\<rparr>) = Some s"
    "walk_loop (measure_event fmt_g (get_serialize_flags so))
       (v, 0, [], \<lparr>m_total = 1, m_newlines = 0, m_depth = 0, m_indents = 0\<rparr>) = Some m"
    "fits_exactly so s m" by blast
  have "json_safe v" using assms(1) by (auto simp: json_safe_def json_exact_def exact_event_def)
  then show ?thesis
    using json_serialize_ex_text [of v fmt_g so] loops assms(2)
    by (auto simp: json_serialize_ex_def json_measure_ex_loop measured_def fits_exactly_def)
qed

section \<open>Properties\<close>




text \<open>
  Property C25. In the single-line and the packed mode the measured size is exact for a
  value without doubles: the number of bytes written plus the terminating NUL.
\<close>

theorem json_measure_exact:
  assumes "json_exact v" and "so_mode so \<noteq> json_serialize_mode_multiline"
  shows "json_measure_ex fmt_g v so = Some (length (json_text fmt_g so 0 v) + 1)"
  using assms by (rule measure_exact_text)

theorem json_measure_exact_witness:
  "json_measure_ex (\<lambda>_. ''0'') (JArray [JInteger 12, JNull]) default_opts = Some 13"
proof -
  have "json_exact (JArray [JInteger 12, JNull])"
    by (simp add: json_exact_def exact_event_def safe_event_def commas_def)
  then show ?thesis
    using json_measure_exact [of "JArray [JInteger 12, JNull]" default_opts "\<lambda>_. ''0''"]
    by (simp add: default_opts_def get_serialize_flags_def bracketed_def join_text_def
        comma_text_def newline_text_def int_text_def int_digits.simps)
qed

end
