(* ===== verification/Json_Trace.thy ===== *)
theory Json_Trace
  imports Json_Parse_Safe Json_Serialize
begin

text \<open>
  Runs of the parser over given text, for both passes at once: what the loop does with a
  space, a separator, a bracket, a string, a number or a literal when nothing fails. The
  states are described up to the flags and variables of numbers, the line and the number
  of allocations.
\<close>

section \<open>States in the middle of a text\<close>

definition mk_flags :: "bool \<Rightarrow> bool \<Rightarrow> bool \<Rightarrow> bool \<Rightarrow> pflags" where
  "mk_flags seek comma colon str =
     no_flags\<lparr>fl_seek_value := seek, fl_need_comma := comma, fl_need_colon := colon, fl_string := str\<rparr>"

definition heap_at :: "bool \<Rightarrow> node list \<Rightarrow> nat option \<Rightarrow> nat \<Rightarrow> pheap \<Rightarrow> bool" where
  "heap_at first_pass ns tp al h \<longleftrightarrow>
     h_nodes h = ns \<and> h_top h = tp \<and> h_root h = (if tp = None then None else Some 0) \<and>
     (\<not> first_pass \<longrightarrow> h_alloc h = (if al < length ns then Some al else None)) \<and> h_used h = 0"

definition at_mode :: "bool \<Rightarrow> nat \<Rightarrow> pflags \<Rightarrow> node list \<Rightarrow> nat option \<Rightarrow> nat \<Rightarrow> pst \<Rightarrow> bool" where
  "at_mode first_pass p f ns tp al st \<longleftrightarrow>
     ps_ptr st = p \<and> num_flags_eq (ps_flags st) f \<and> heap_at first_pass ns tp al (ps_heap st)"

text \<open>A value is finished at the position before \<open>p\<close>.\<close>

definition ended :: "bool \<Rightarrow> nat \<Rightarrow> node list \<Rightarrow> nat \<Rightarrow> nat \<Rightarrow> pst \<Rightarrow> bool" where
  "ended first_pass p ns i al st \<longleftrightarrow>
     (if fl_reproc (ps_flags st) then ps_ptr st else ps_ptr st + 1) = p \<and>
     num_flags_eq (ps_flags st) (no_flags\<lparr>fl_next := True, fl_reproc := fl_reproc (ps_flags st)\<rparr>) \<and>
     heap_at first_pass ns (Some i) al (ps_heap st)"

definition runs :: "bool \<Rightarrow> json_settings \<Rightarrow> float_ops \<Rightarrow> string \<Rightarrow> flow \<Rightarrow> pst pres option" where
  "runs first_pass js fo text r =
     (case r of
        Fail e \<Rightarrow> Some (Inl e)
      | Break st \<Rightarrow> Some (Inr st)
      | Continue st \<Rightarrow> parse_loop first_pass js fo text st
      | Fall st \<Rightarrow> parse_loop first_pass js fo text st)"

lemma runs_simps [simp]:
  "runs first_pass js fo text (Continue st) = parse_loop first_pass js fo text st"
  by (simp add: runs_def)

lemma parse_loop_runs: "parse_loop first_pass js fo text st = runs first_pass js fo text (parse_step first_pass js fo text st)"
  by (simp add: runs_def parse_loop.simps [of first_pass js fo "text" st])

text \<open>Nothing fails: there is no limit and the allocator gives what it is asked for.\<close>

definition generous :: "json_settings \<Rightarrow> bool" where
  "generous js \<longleftrightarrow> js_max_memory js = 0 \<and> (\<forall>n sz. js_mem_alloc js n sz) \<and> js_value_extra js \<le> UINT_MAX"

lemma json_alloc_generous:
  "generous js \<Longrightarrow> h_used h = 0 \<Longrightarrow> sz \<le> ULONG_MAX - 8 \<Longrightarrow> json_alloc js sz h = (True, h\<lparr>h_calls := h_calls h + 1\<rparr>)"
  by (simp add: json_alloc_def generous_def)

section \<open>One turn\<close>

lemma mk_flags_simps [simp]:
  "fl_seek_value (mk_flags s c k q) = s" "fl_need_comma (mk_flags s c k q) = c" "fl_need_colon (mk_flags s c k q) = k" "fl_string (mk_flags s c k q) = q"
  "\<not> fl_next (mk_flags s c k q)" "\<not> fl_reproc (mk_flags s c k q)" "\<not> fl_escaped (mk_flags s c k q)" "\<not> fl_done (mk_flags s c k q)"
  "\<not> fl_line_comment (mk_flags s c k q)" "\<not> fl_block_comment (mk_flags s c k q)"
  by (simp_all add: mk_flags_def no_flags_def)

lemma no_flags_simps [simp]:
  "\<not> fl_next no_flags" "\<not> fl_reproc no_flags" "\<not> fl_need_comma no_flags" "\<not> fl_seek_value no_flags" "\<not> fl_escaped no_flags" "\<not> fl_string no_flags"
  "\<not> fl_need_colon no_flags" "\<not> fl_done no_flags" "\<not> fl_line_comment no_flags" "\<not> fl_block_comment no_flags"
  by (simp_all add: no_flags_def)

lemma at_modeD:
  assumes "at_mode first_pass p (mk_flags s c k q) ns tp al st"
  shows "ps_ptr st = p" "h_nodes (ps_heap st) = ns" "h_top (ps_heap st) = tp" "h_root (ps_heap st) = (if tp = None then None else Some 0)"
    "\<not> first_pass \<Longrightarrow> h_alloc (ps_heap st) = (if al < length ns then Some al else None)" "h_used (ps_heap st) = 0"
    "fl_seek_value (ps_flags st) = s" "fl_need_comma (ps_flags st) = c" "fl_need_colon (ps_flags st) = k" "fl_string (ps_flags st) = q"
    "\<not> fl_next (ps_flags st)" "\<not> fl_reproc (ps_flags st)" "\<not> fl_escaped (ps_flags st)" "\<not> fl_done (ps_flags st)"
    "\<not> fl_line_comment (ps_flags st)" "\<not> fl_block_comment (ps_flags st)"
  using assms by (simp_all add: at_mode_def heap_at_def num_flags_eq_def)

text \<open>Outside strings, at the end and in comments nothing happens before the value section, unless the character opens a comment.\<close>

lemma value_turn:
  assumes "at_mode first_pass p (mk_flags s c k False) ns tp al st" and "p < length text" and "text ! p = b" and "b \<noteq> CHR ''/''"
  shows "parse_step first_pass js fo text st = then_flow (value_section first_pass js fo text b st) next_section"
  using assms(2-4) at_modeD [OF assms(1)]
  by (simp add: parse_step_def Let_def string_section_def comment_section_def done_section_def then_flow_Fall)

text \<open>A mode in which spaces are skipped: a value is sought, or the top is an object.\<close>

definition skips :: "bool \<Rightarrow> node list \<Rightarrow> nat option \<Rightarrow> bool" where
  "skips seek ns tp \<longleftrightarrow> seek \<or> (\<exists>i. tp = Some i \<and> payload_type (nd_val (ns ! i)) = T_Object)"

lemma skip_ws_at:
  assumes "at_mode first_pass p f ns tp al st"
  shows "\<exists>st'. skip_ws b st = Continue st' \<and> at_mode first_pass (p + 1) f ns tp al st'"
  using assms by (simp add: skip_ws_def at_mode_def)

lemma ws_turn:
  assumes "at_mode first_pass p (mk_flags s c k False) ns tp al st" and "p < length text" and "is_ws (text ! p)" and "skips s ns tp"
  shows "\<exists>st'. parse_step first_pass js fo text st = Continue st' \<and> at_mode first_pass (p + 1) (mk_flags s c k False) ns tp al st'"
proof -
  let ?b = "text ! p"
  note d = at_modeD [OF assms(1)]
  have "?b \<noteq> CHR ''/''" using assms(3) by (auto simp: is_ws_def)
  note turn = value_turn [OF assms(1,2) refl this]
  have "value_section first_pass js fo text ?b st = skip_ws ?b st"
  proof (cases s)
    case True
    with d(7) assms(3) show ?thesis by (simp add: value_section_def seek_section_def)
  next
    case False
    with assms(4) obtain i where "tp = Some i" "payload_type (nd_val (ns ! i)) = T_Object" by (auto simp: skips_def)
    with d(2,3,7) False assms(3) show ?thesis by (simp add: value_section_def object_section_def top_type_def)
  qed
  with turn skip_ws_at [OF assms(1), of ?b] show ?thesis by simp
qed

lemma drop_Cons_nth: "drop p text = b # r \<Longrightarrow> p < length text \<and> text ! p = b \<and> drop (p + 1) text = r"
  by (metis Cons_nth_drop_Suc Suc_eq_plus1 drop_eq_Nil leI list.distinct(1) list.inject)

lemma drop_app: "drop p text = xs @ ys \<Longrightarrow> drop (p + length xs) text = ys"
  by (metis add.commute append_eq_conv_conj drop_drop)

lemma ws_run:
  assumes "at_mode first_pass p (mk_flags s c k False) ns tp al st" and "drop p text = ws @ rest" and "list_all is_ws ws" and "skips s ns tp"
  shows "\<exists>st'. parse_loop first_pass js fo text st = parse_loop first_pass js fo text st' \<and>
    at_mode first_pass (p + length ws) (mk_flags s c k False) ns tp al st'"
  using assms
proof (induction ws arbitrary: p st)
  case (Cons w ws)
  from drop_Cons_nth [of p "text" w "ws @ rest"] Cons.prems have t: "p < length text" "text ! p = w" "drop (p + 1) text = ws @ rest" "is_ws w" by simp_all
  obtain st1 where st1: "parse_step first_pass js fo text st = Continue st1" "at_mode first_pass (p + 1) (mk_flags s c k False) ns tp al st1"
    using ws_turn [OF Cons.prems(1) t(1) _ Cons.prems(4), of js fo] t by auto
  from Cons.IH [OF st1(2) t(3) _ Cons.prems(4)] Cons.prems(3) st1(1) show ?case
    by (auto simp: parse_loop_runs [of first_pass js fo "text" st])
qed auto

section \<open>Separators\<close>

lemma comma_turn:
  assumes "at_mode first_pass p (mk_flags s True False False) ns tp al st" and "p < length text" and "text ! p = CHR '',''" and "skips s ns tp"
  shows "\<exists>st'. parse_step first_pass js fo text st = Continue st' \<and> at_mode first_pass (p + 1) (mk_flags s False False False) ns tp al st'"
proof -
  note d = at_modeD [OF assms(1)] and turn = value_turn [OF assms(1-3), of js fo]
  have f: "num_flags_eq ((ps_flags st)\<lparr>fl_need_comma := False\<rparr>) (mk_flags s False False False)"
    using assms(1) by (simp add: at_mode_def num_flags_eq_def)
  let ?st = "advance (upd_flags (\<lambda>f. f\<lparr>fl_need_comma := False\<rparr>) st)"
  have "parse_step first_pass js fo text st = Continue ?st"
  proof (cases s)
    case True
    with d turn show ?thesis by (simp add: value_section_def seek_section_def is_ws_def then_flow_def)
  next
    case False
    with assms(4) obtain i where "tp = Some i" "payload_type (nd_val (ns ! i)) = T_Object" by (auto simp: skips_def)
    with d False turn show ?thesis
      by (simp add: value_section_def object_section_def top_type_def is_ws_def then_flow_def next_section_def)
  qed
  with f assms(1) show ?thesis by (simp add: at_mode_def)
qed

lemma colon_turn:
  assumes "at_mode first_pass p (mk_flags True False True False) ns tp al st" and "p < length text" and "text ! p = CHR '':''"
  shows "\<exists>st'. parse_step first_pass js fo text st = Continue st' \<and> at_mode first_pass (p + 1) (mk_flags True False False False) ns tp al st'"
proof -
  note d = at_modeD [OF assms(1)] and turn = value_turn [OF assms(1-3), of js fo]
  have "num_flags_eq ((ps_flags st)\<lparr>fl_need_colon := False\<rparr>) (mk_flags True False False False)"
    using assms(1) by (simp add: at_mode_def num_flags_eq_def)
  with d turn assms(1) show ?thesis by (simp add: value_section_def seek_section_def is_ws_def then_flow_def at_mode_def)
qed

section \<open>New values\<close>

text \<open>The memory a counted value asks for is within what a request can ask for.\<close>

fun askable :: "payload \<Rightarrow> bool" where
  "askable (V_Array n) = (n \<le> UINT_MAX)"
| "askable (V_Object n m) = (n \<le> UINT_MAX \<and> m \<le> UINT_MAX)"
| "askable (V_String n) = (n \<le> UINT_MAX)"
| "askable _ = True"

lemma new_value_second_generous:
  assumes "generous js" and "h_used h = 0" and "askable (nd_val (h_nodes h ! a))"
  shows "\<exists>g. new_value_second js a h = Inr (set_node a (filled (nd_val (h_nodes h ! a))) g) \<and> h_used g = 0 \<and> h_nodes g = h_nodes h \<and> h_top g = Some a \<and>
    h_alloc g = (if Suc a < length (h_nodes h) then Some (Suc a) else None) \<and> h_root g = (if h_root h = None then Some a else h_root h)"
proof -
  define Q where "Q g \<longleftrightarrow> h_used g = 0 \<and> h_nodes g = h_nodes h \<and> h_top g = Some a \<and>
    h_alloc g = (if Suc a < length (h_nodes h) then Some (Suc a) else None) \<and> h_root g = (if h_root h = None then Some a else h_root h)" for g :: pheap
  have q: "Q (taken a h)" "Q ((taken a h)\<lparr>h_calls := c\<rparr>)" for c using assms(2) by (simp_all add: taken_def Q_def)
  then have t: "h_nodes (taken a h) = h_nodes h" "h_used (taken a h) = 0" by (simp_all add: Q_def)
  have "taken a h = set_node a (nd_val (h_nodes h ! a)) (taken a h)" by (simp add: set_node_def t)
  with q(1) have whole: "\<exists>g. taken a h = set_node a (nd_val (h_nodes h ! a)) g \<and> Q g" by (intro exI conjI)
  have put: "\<exists>g. set_node a w (taken a h) = set_node a w g \<and> Q g" "\<exists>g. set_node a w ((taken a h)\<lparr>h_calls := c\<rparr>) = set_node a w g \<and> Q g" for w c
    by (rule exI, rule conjI [OF refl q(1)], rule exI, rule conjI [OF refl q(2)])
  note al = json_alloc_generous [OF assms(1) t(2)]
  have "\<exists>g. new_value_second js a h = Inr (set_node a (filled (nd_val (h_nodes h ! a))) g) \<and> Q g"
    unfolding new_value_second_def Let_def taken_def [symmetric] t(1)
    using assms(3) al whole put by (cases "nd_val (h_nodes h ! a)") simp_all
  then show ?thesis unfolding Q_def .
qed

lemma new_value_at:
  assumes "heap_at first_pass (pre @ (if first_pass then [] else \<lparr>nd_parent = tp, nd_val = w\<rparr> # later)) tp (length pre) h"
    and "generous js" and "askable w" and "tp = None \<Longrightarrow> pre = []"
  shows "\<exists>h'. new_value first_pass js t line h = Inr h' \<and>
    heap_at first_pass (pre @ \<lparr>nd_parent = tp, nd_val = (if first_pass then zero_payload t else filled w)\<rparr> # (if first_pass then [] else later))
      (Some (length pre)) (length pre + 1) h'"
proof (cases first_pass)
  case True
  note h = assms(1) [unfolded True heap_at_def, simplified]
  have "json_alloc js (40 + js_value_extra js) h = (True, h\<lparr>h_calls := h_calls h + 1\<rparr>)"
    by (rule json_alloc_generous [OF assms(2)]) (use h assms(2) in \<open>simp_all add: generous_def\<close>)
  with True h assms(4) show ?thesis by (auto simp: new_value_def new_value_first_def Let_def heap_at_def)
next
  case False
  note h = assms(1) [unfolded heap_at_def] and simps = False
  have n: "h_nodes h ! length pre = \<lparr>nd_parent = tp, nd_val = w\<rparr>" "h_alloc h = Some (length pre)" "length (h_nodes h) = length pre + 1 + length later"
    using h False by simp_all
  obtain g where g: "new_value_second js (length pre) h = Inr (set_node (length pre) (filled w) g)" "h_used g = 0" "h_nodes g = h_nodes h" "h_top g = Some (length pre)"
    "h_alloc g = (if Suc (length pre) < length (h_nodes h) then Some (Suc (length pre)) else None)" "h_root g = (if h_root h = None then Some (length pre) else h_root h)"
    using new_value_second_generous [OF assms(2), of h "length pre"] h assms(3) n by auto
  have "heap_at False (pre @ \<lparr>nd_parent = tp, nd_val = filled w\<rparr> # later) (Some (length pre)) (length pre + 1) (set_node (length pre) (filled w) g)"
    using g n h False assms(4) by (auto simp: heap_at_def set_node_def)
  with g(1) n(2) False show ?thesis by (simp add: new_value_def)
qed

section \<open>Brackets and literals\<close>

abbreviation unseek :: "pst \<Rightarrow> pst" where
  "unseek st \<equiv> upd_flags (\<lambda>f. f\<lparr>fl_seek_value := False\<rparr>) st"

lemma begin_turn:
  assumes "at_mode first_pass p (mk_flags True False False False) ns tp al st" and "p < length text" and "text ! p = b"
    and "\<not> is_ws b" "b \<noteq> CHR '']''" "b \<noteq> CHR ''/''"
  shows "parse_step first_pass js fo text st = then_flow (begin_value first_pass js text b (unseek st)) next_section"
    and "at_mode first_pass p (mk_flags False False False False) ns tp al (unseek st)"
  using value_turn [OF assms(1-3,6), of js fo] at_modeD [OF assms(1)] assms(1,4,5)
  by (simp_all add: value_section_def seek_section_def at_mode_def num_flags_eq_def)

definition opn :: "bool \<Rightarrow> char" where "opn obj = (if obj then CHR ''{'' else CHR ''['')"
definition cls :: "bool \<Rightarrow> char" where "cls obj = (if obj then CHR ''}'' else CHR '']'')"
definition ctype :: "bool \<Rightarrow> jtype" where "ctype obj = (if obj then T_Object else T_Array)"

text \<open>The values before, the value that starts and, in the second pass, the ones that follow.\<close>

definition layout :: "bool \<Rightarrow> node list \<Rightarrow> nat option \<Rightarrow> payload \<Rightarrow> node list \<Rightarrow> node list" where
  "layout first_pass pre tp v later = pre @ \<lparr>nd_parent = tp, nd_val = v\<rparr> # (if first_pass then [] else later)"

definition awaiting :: "bool \<Rightarrow> node list \<Rightarrow> nat option \<Rightarrow> payload \<Rightarrow> node list \<Rightarrow> node list" where
  "awaiting first_pass pre tp w later = pre @ (if first_pass then [] else \<lparr>nd_parent = tp, nd_val = w\<rparr> # later)"

lemma layout_nth: "nd_val (layout first_pass pre tp v later ! length pre) = v" "length pre < length (layout first_pass pre tp v later)"
  "(layout first_pass pre tp v later)[length pre := \<lparr>nd_parent = tp, nd_val = u\<rparr>] = layout first_pass pre tp u later"
  "nd_parent (layout first_pass pre tp v later ! length pre) = tp"
  by (simp_all add: layout_def)

lemma heap_at_fields [simp]:
  "heap_at first_pass ns tp al (h\<lparr>h_room := r\<rparr>) = heap_at first_pass ns tp al h" "heap_at first_pass ns tp al (h\<lparr>h_buf := bf\<rparr>) = heap_at first_pass ns tp al h"
  "heap_at first_pass ns tp al (h\<lparr>h_strlen := n\<rparr>) = heap_at first_pass ns tp al h"
  by (simp_all add: heap_at_def)

lemma set_top_at:
  assumes "heap_at first_pass (layout first_pass pre tp v later) (Some (length pre)) al h"
  shows "heap_at first_pass (layout first_pass pre tp u later) (Some (length pre)) al (set_top u h)" "top_val h = v" "top_type h = Some (payload_type v)"
proof -
  have h: "h_nodes h = layout first_pass pre tp v later" "h_top h = Some (length pre)" using assms by (simp_all add: heap_at_def)
  have "(h_nodes h ! length pre)\<lparr>nd_val := u\<rparr> = \<lparr>nd_parent = tp, nd_val = u\<rparr>" using h(1) by (simp add: layout_def)
  with assms h show "heap_at first_pass (layout first_pass pre tp u later) (Some (length pre)) al (set_top u h)"
    by (simp add: heap_at_def set_top_def set_node_def layout_nth) (simp add: layout_def)
  show "top_val h = v" "top_type h = Some (payload_type v)" using h by (simp_all add: top_val_def top_type_def layout_nth)
qed

lemma new_value_layout:
  assumes "at_mode first_pass p f (awaiting first_pass pre tp w later) tp (length pre) st" and "generous js" and "askable w" and "tp = None \<Longrightarrow> pre = []"
  shows "\<exists>h'. new_value first_pass js t line (ps_heap st) = Inr h' \<and>
    heap_at first_pass (layout first_pass pre tp (if first_pass then zero_payload t else filled w) later) (Some (length pre)) (length pre + 1) h'"
  using new_value_at [of first_pass pre tp w later "ps_heap st" js t line] assms by (simp add: at_mode_def awaiting_def layout_def)

lemma open_turn:
  assumes "at_mode first_pass p (mk_flags True False False False) (awaiting first_pass pre tp w later) tp (length pre) st" and "generous js" and "askable w"
    and "tp = None \<Longrightarrow> pre = []" and "p < length text" and "text ! p = opn obj"
  shows "\<exists>st'. parse_step first_pass js fo text st = Continue st' \<and>
    at_mode first_pass (p + 1) (mk_flags (\<not> obj) False False False)
      (layout first_pass pre tp (if first_pass then zero_payload (ctype obj) else filled w) later) (Some (length pre)) (length pre + 1) st'"
proof -
  have b: "\<not> is_ws (opn obj)" "opn obj \<noteq> CHR '']''" "opn obj \<noteq> CHR ''/''" by (simp_all add: opn_def is_ws_def)
  note turn = begin_turn(1) [OF assms(1,5,6) b, of js fo] begin_turn(2) [OF assms(1,5,6) b]
  obtain h' where h': "new_value first_pass js (ctype obj) (ps_line st) (ps_heap st) = Inr h'"
    "heap_at first_pass (layout first_pass pre tp (if first_pass then zero_payload (ctype obj) else filled w) later) (Some (length pre)) (length pre + 1) h'"
    using new_value_layout [OF assms(1-4)] by blast
  with turn show ?thesis
    by (cases obj) (simp_all add: begin_value_def Let_def opn_def ctype_def with_heap_def then_flow_def at_mode_def num_flags_eq_def)
qed

lemma close_turn:
  assumes "at_mode first_pass p (mk_flags (\<not> obj) c False False) ns (Some i) al st" and "payload_type (nd_val (ns ! i)) = ctype obj"
    and "p < length text" and "text ! p = cls obj"
  shows "\<exists>u. parse_step first_pass js fo text st = next_section u \<and> ended first_pass (p + 1) ns i al u"
proof -
  have "cls obj \<noteq> CHR ''/''" by (simp add: cls_def)
  note turn = value_turn [OF assms(1,3,4) this, of js fo] and d = at_modeD [OF assms(1)]
  have "top_type (ps_heap st) = Some (ctype obj)" using d(2,3) assms(2) by (simp add: top_type_def)
  with d have "value_section first_pass js fo text (cls obj) st =
      Fall (upd_flags (\<lambda>f. if obj then f\<lparr>fl_need_comma := False, fl_next := True\<rparr> else f\<lparr>fl_need_comma := False, fl_seek_value := False, fl_next := True\<rparr>) st)"
    by (cases obj) (simp_all add: cls_def ctype_def value_section_def seek_section_def object_section_def is_ws_def)
  moreover have "ended first_pass (p + 1) ns i al
      (upd_flags (\<lambda>f. if obj then f\<lparr>fl_need_comma := False, fl_next := True\<rparr> else f\<lparr>fl_need_comma := False, fl_seek_value := False, fl_next := True\<rparr>) st)"
    using assms(1) d(12) by (cases obj) (simp_all add: ended_def at_mode_def num_flags_eq_def)
  ultimately show ?thesis using turn by (auto simp only: then_flow_Fall)
qed

lemma literal_atI: "drop p text = c # w @ rest \<Longrightarrow> literal_at text p w"
proof -
  assume d: "drop p text = c # w @ rest"
  then have "length text - p = Suc (length w + length rest)" by (metis length_Cons length_append length_drop)
  with drop_Cons_nth [OF d] show ?thesis by (simp add: literal_at_def)
qed

lemma literal_turn:
  assumes "at_mode first_pass p (mk_flags True False False False) (awaiting first_pass pre tp v later) tp (length pre) st" and "generous js"
    and "tp = None \<Longrightarrow> pre = []" and "drop p text = w @ rest"
    and "(w, v) \<in> {(''null'', V_Null), (''true'', V_Boolean 1), (''false'', V_Boolean 0)}"
  shows "\<exists>u. parse_step first_pass js fo text st = next_section u \<and>
    ended first_pass (p + length w) (layout first_pass pre tp v later) (length pre) (length pre + 1) u"
proof -
  obtain c cs where c: "w = c # cs" using assms(5) by auto
  have t: "p < length text" "text ! p = c" using drop_Cons_nth [of p "text" c "cs @ rest"] assms(4) c by simp_all
  have lit: "literal_at text p cs" using literal_atI assms(4) c by simp
  have b: "\<not> is_ws c" "c \<noteq> CHR '']''" "c \<noteq> CHR ''/''" using assms(5) c by (auto simp: is_ws_def)
  note turn = begin_turn(1) [OF assms(1) t b, of js fo] begin_turn(2) [OF assms(1) t b] and d = at_modeD(1) [OF assms(1)]
  have v: "askable v" "filled v = v" using assms(5) by auto
  define t where "t = (if v = V_Null then T_Null else T_Boolean)"
  obtain h where h: "new_value first_pass js t (ps_line st) (ps_heap st) = Inr h"
    "heap_at first_pass (layout first_pass pre tp (if first_pass then zero_payload t else v) later) (Some (length pre)) (length pre + 1) h"
    using new_value_layout [OF assms(1,2) v(1) assms(3), of t "ps_line st"] unfolding v(2) by blast
  define g where "g = (if w = ''true'' then set_top (V_Boolean 1) h else h)"
  define l where "l = length cs"
  let ?u = "upd_flags (\<lambda>f. f\<lparr>fl_next := True\<rparr>) ((unseek st)\<lparr>ps_ptr := p + l, ps_heap := g\<rparr>)"
  have "heap_at first_pass (layout first_pass pre tp v later) (Some (length pre)) (length pre + 1) g"
    using assms(5) h(2) set_top_at(1) [OF h(2), of "V_Boolean 1"] by (auto simp: g_def t_def split: if_splits)
  then have "ended first_pass (p + length w) (layout first_pass pre tp v later) (length pre) (length pre + 1) ?u"
    using turn(2) c d at_modeD(12) [OF turn(2)] by (simp add: ended_def at_mode_def num_flags_eq_def l_def)
  note fin = this
  have "begin_value first_pass js text c (unseek st) = Fall ?u"
  proof -
    consider "c = CHR ''n''" "cs = ''ull''" "v = V_Null" | "c = CHR ''t''" "cs = ''rue''" "v = V_Boolean 1" | "c = CHR ''f''" "cs = ''alse''" "v = V_Boolean 0"
      using assms(5) c by auto
    then show ?thesis
    proof cases
      case 1
      with lit h(1) d c show ?thesis by (simp add: begin_value_def with_heap_def t_def g_def l_def)
    next
      case 2
      with lit h(1) d c show ?thesis by (simp add: begin_value_def with_heap_def t_def g_def l_def upd_heap_def)
    next
      case 3
      with lit h(1) d c show ?thesis by (simp add: begin_value_def with_heap_def t_def g_def l_def)
    qed
  qed
  then have "parse_step first_pass js fo text st = next_section ?u" using turn(1) by (simp only: then_flow_Fall)
  with fin show ?thesis by blast
qed

section \<open>Strings\<close>

text \<open>Inside a string of which \<open>d\<close> has been read, with room for \<open>r\<close> bytes in the second pass.\<close>

definition in_string :: "bool \<Rightarrow> nat \<Rightarrow> node list \<Rightarrow> nat option \<Rightarrow> nat \<Rightarrow> string \<Rightarrow> nat \<Rightarrow> pst \<Rightarrow> bool" where
  "in_string first_pass p ns tp al d r st \<longleftrightarrow>
     at_mode first_pass p (mk_flags False False False True) ns tp al st \<and> h_strlen (ps_heap st) = length d \<and>
     (\<not> first_pass \<longrightarrow> h_buf (ps_heap st) = d \<and> h_room (ps_heap st) = r)"

lemma string_add_at:
  assumes "in_string first_pass p ns tp al d r st" and "\<not> first_pass \<Longrightarrow> length d < r"
    and "ps_heap s = ps_heap st" "ps_ptr s = q" "num_flags_eq (ps_flags s) (mk_flags False False False True)"
  shows "\<exists>st'. with_heap s (string_add first_pass [c] (ps_heap s)) (\<lambda>st. Continue (advance st)) = Continue st' \<and>
    in_string first_pass (q + 1) ns tp al (d @ [c]) r st'"
  using assms by (cases first_pass) (simp_all add: in_string_def string_add_def with_heap_def at_mode_def)

text \<open>What a character is written as: itself, or an escape of two characters.\<close>

lemma serialize_string_char:
  "serialize_string (c # s) = serialize_string [c] @ serialize_string s"
  by simp

lemma plain_turn:
  assumes "in_string first_pass p ns tp al d r st" and "p < length text" and "text ! p = c" and "c \<noteq> NUL" "c \<noteq> CHR 0x22" "c \<noteq> CHR 0x5C"
    and "\<not> first_pass \<Longrightarrow> length d < r" and "length d \<le> UINT_MAX - 8"
  shows "\<exists>st'. parse_step first_pass js fo text st = Continue st' \<and> in_string first_pass (p + 1) ns tp al (d @ [c]) r st'"
proof -
  have at: "at_mode first_pass p (mk_flags False False False True) ns tp al st" "h_strlen (ps_heap st) = length d" using assms(1) by (simp_all add: in_string_def)
  note d = at_modeD [OF at(1)]
  obtain st' where st': "with_heap st (string_add first_pass [c] (ps_heap st)) (\<lambda>st. Continue (advance st)) = Continue st'" "in_string first_pass (p + 1) ns tp al (d @ [c]) r st'"
    using string_add_at [OF assms(1,7) refl d(1), of c] at(1) by (auto simp: at_mode_def)
  have "string_section first_pass text c st = Continue st'"
    using d at(2) assms(4-6,8) st'(1) by (simp add: string_section_def)
  with st'(2) assms(2,3) d(1) show ?thesis by (simp add: parse_step_def Let_def then_flow_def)
qed

lemma escape_turns:
  assumes "in_string first_pass p ns tp al d r st" and "p + 1 < length text" and "text ! p = CHR 0x5C" and "text ! (p + 1) = e"
    and "(e, c) \<in> {(CHR 0x22, CHR 0x22), (CHR 0x5C, CHR 0x5C), (CHR ''b'', CHR 0x08), (CHR ''f'', CHR 0x0C), (CHR ''n'', CHR 0x0A), (CHR ''r'', CHR 0x0D), (CHR ''t'', CHR 0x09)}"
    and "\<not> first_pass \<Longrightarrow> length d < r" and "length d \<le> UINT_MAX - 8"
  shows "\<exists>st'. parse_loop first_pass js fo text st = parse_loop first_pass js fo text st' \<and> in_string first_pass (p + 2) ns tp al (d @ [c]) r st'"
proof -
  have at: "at_mode first_pass p (mk_flags False False False True) ns tp al st" "h_strlen (ps_heap st) = length d" using assms(1) by (simp_all add: in_string_def)
  note d = at_modeD [OF at(1)]
  let ?st = "advance (upd_flags (\<lambda>f. f\<lparr>fl_escaped := True\<rparr>) st)"
  have one: "parse_step first_pass js fo text st = Continue ?st"
    using d at(2) assms(2,3,7) by (simp add: parse_step_def Let_def then_flow_def string_section_def)
  let ?s = "upd_flags (\<lambda>f. f\<lparr>fl_escaped := False\<rparr>) ?st"
  obtain st' where st': "with_heap ?s (string_add first_pass [c] (ps_heap ?s)) (\<lambda>st. Continue (advance st)) = Continue st'" "in_string first_pass (p + 1 + 1) ns tp al (d @ [c]) r st'"
    using string_add_at [OF assms(1,6), of ?s "p + 1" c] at(1) by (auto simp: at_mode_def num_flags_eq_def)
  have "e \<noteq> NUL" using assms(5) by auto
  then have two: "parse_step first_pass js fo text ?st = then_flow (escape_section first_pass text e ?st) (after_section first_pass js fo text e)"
    using d at(2) assms(2,4,7) by (subst parse_step_sections [of _ _ e]) (simp_all add: string_section_def)
  have "escape_section first_pass text e ?st = Continue st'" using assms(5) st'(1) by (auto simp: escape_section_def Let_def)
  with one two st'(2) show ?thesis
    by (simp add: parse_loop_runs [of first_pass js fo "text" st] parse_loop_runs [of first_pass js fo "text" ?st] then_flow_def) (metis)
qed

lemma char_run:
  assumes "in_string first_pass p ns tp al d r st" and "drop p text = serialize_string [c] @ rest" and "c \<noteq> NUL"
    and "\<not> first_pass \<Longrightarrow> length d < r" and "length d \<le> UINT_MAX - 8"
  shows "\<exists>st'. parse_loop first_pass js fo text st = parse_loop first_pass js fo text st' \<and>
    in_string first_pass (p + length (serialize_string [c])) ns tp al (d @ [c]) r st'"
proof (cases "c \<in> {CHR 0x22, CHR 0x5C, CHR 0x08, CHR 0x0C, CHR 0x0A, CHR 0x0D, CHR 0x09}")
  case True
  then obtain e where e: "serialize_string [c] = [CHR 0x5C, e]"
    "(e, c) \<in> {(CHR 0x22, CHR 0x22), (CHR 0x5C, CHR 0x5C), (CHR ''b'', CHR 0x08), (CHR ''f'', CHR 0x0C), (CHR ''n'', CHR 0x0A), (CHR ''r'', CHR 0x0D), (CHR ''t'', CHR 0x09)}"
    by auto
  have t: "p < length text" "text ! p = CHR 0x5C" "drop (p + 1) text = e # rest" using drop_Cons_nth [of p "text" "CHR 0x5C" "e # rest"] assms(2) e(1) by simp_all
  from drop_Cons_nth [OF t(3)] have t1: "p + 1 < length text" "text ! (p + 1) = e" by simp_all
  from escape_turns [OF assms(1) t1(1) t(2) t1(2) e(2) assms(4,5), of js fo] e(1) show ?thesis by simp
next
  case False
  then have c: "serialize_string [c] = [c]" "c \<noteq> CHR 0x22" "c \<noteq> CHR 0x5C" by auto
  have t: "p < length text" "text ! p = c" using drop_Cons_nth [of p "text" c rest] assms(2) c(1) by simp_all
  from plain_turn [OF assms(1) t assms(3) c(2,3) assms(4,5), of js fo] c(1) show ?thesis
    by (auto simp: parse_loop_runs [of first_pass js fo "text" st])
qed

lemma chars_run:
  assumes "in_string first_pass p ns tp al d r st" and "drop p text = serialize_string s @ rest" and "nul_free s"
    and "\<not> first_pass \<Longrightarrow> length d + length s < r" and "length d + length s \<le> UINT_MAX - 8"
  shows "\<exists>st'. parse_loop first_pass js fo text st = parse_loop first_pass js fo text st' \<and>
    in_string first_pass (p + length (serialize_string s)) ns tp al (d @ s) r st'"
  using assms
proof (induction s arbitrary: p d st)
  case (Cons c s)
  have d: "drop p text = serialize_string [c] @ serialize_string s @ rest" using Cons.prems(2) by (simp only: serialize_string_char [of c s] append.assoc)
  obtain st1 where st1: "parse_loop first_pass js fo text st = parse_loop first_pass js fo text st1"
    "in_string first_pass (p + length (serialize_string [c])) ns tp al (d @ [c]) r st1"
    using char_run [OF Cons.prems(1) d, of js fo] Cons.prems(3-5) by (force simp: nul_free_def)
  have "drop (p + length (serialize_string [c])) text = serialize_string s @ rest"
    by (rule drop_app) (use d in simp)
  from Cons.IH [OF st1(2) this] Cons.prems(3-5) st1(1) show ?case
    unfolding serialize_string_char [of c s] by (simp add: nul_free_def add.assoc)
qed auto

text \<open>The quote that ends a string value or a name.\<close>

lemma quote_turn:
  assumes "in_string first_pass p ns (Some i) al d r st" and "p < length text" and "text ! p = CHR 0x22" and "length d \<le> UINT_MAX - 8" and "\<not> first_pass \<Longrightarrow> length d < r"
  defines "s \<equiv> upd_flags (\<lambda>f. f\<lparr>fl_string := False\<rparr>) (st\<lparr>ps_heap := (ps_heap st)\<lparr>h_room := 0\<rparr>\<rparr>)"
  shows "payload_type (nd_val (ns ! i)) = T_String \<Longrightarrow>
      string_section first_pass text (CHR 0x22) st = Fall (upd_flags (\<lambda>f. f\<lparr>fl_next := True\<rparr>) (upd_heap end_string s))"
    and "payload_type (nd_val (ns ! i)) = T_Object \<Longrightarrow>
      string_section first_pass text (CHR 0x22) st = with_heap s (end_name first_pass (ps_heap s)) (\<lambda>st.
        Continue (advance (upd_flags (\<lambda>f. f\<lparr>fl_seek_value := True, fl_need_colon := True\<rparr>) st)))"
proof -
  have at: "at_mode first_pass p (mk_flags False False False True) ns (Some i) al st" "h_strlen (ps_heap st) = length d" "\<not> first_pass \<Longrightarrow> h_room (ps_heap st) = r"
    using assms(1) by (simp_all add: in_string_def)
  note d = at_modeD [OF at(1)]
  have close: "string_close first_pass (ps_heap st) = Inr ((ps_heap st)\<lparr>h_room := 0\<rparr>)"
    using at(2,3) assms(5) by (auto simp: string_close_def)
  have tt: "top_type ((ps_heap st)\<lparr>h_room := 0\<rparr>) = Some (payload_type (nd_val (ns ! i)))" using d(2,3) by (simp add: top_type_def)
  show "payload_type (nd_val (ns ! i)) = T_String \<Longrightarrow>
      string_section first_pass text (CHR 0x22) st = Fall (upd_flags (\<lambda>f. f\<lparr>fl_next := True\<rparr>) (upd_heap end_string s))"
    "payload_type (nd_val (ns ! i)) = T_Object \<Longrightarrow>
      string_section first_pass text (CHR 0x22) st = with_heap s (end_name first_pass (ps_heap s)) (\<lambda>st.
        Continue (advance (upd_flags (\<lambda>f. f\<lparr>fl_seek_value := True, fl_need_colon := True\<rparr>) st)))"
    using d at(2) assms(4) close tt by (simp_all add: string_section_def with_heap_def [of st] s_def)
qed

lemma end_string_at:
  assumes "in_string first_pass p (layout first_pass pre tp v later) (Some (length pre)) al d r st" and "v = (if first_pass then V_String 0 else F_String n [])"
  shows "heap_at first_pass (layout first_pass pre tp (if first_pass then V_String (length d) else F_String n d) later) (Some (length pre)) al
    (end_string ((ps_heap st)\<lparr>h_room := 0\<rparr>))"
proof -
  let ?h = "(ps_heap st)\<lparr>h_room := 0\<rparr>"
  have h: "heap_at first_pass (layout first_pass pre tp v later) (Some (length pre)) al ?h" "h_strlen ?h = length d" "\<not> first_pass \<Longrightarrow> h_buf ?h = d"
    using assms(1) by (simp_all add: in_string_def at_mode_def)
  from set_top_at [OF h(1)] h(2,3) assms(2) show ?thesis by (cases first_pass) (simp_all add: end_string_def)
qed

lemma string_value_run:
  assumes "at_mode first_pass p (mk_flags True False False False) (awaiting first_pass pre tp (V_String (length s)) later) tp (length pre) st" and "generous js"
    and "tp = None \<Longrightarrow> pre = []" and "drop p text = CHR 0x22 # serialize_string s @ CHR 0x22 # rest" and "nul_free s" and "length s \<le> UINT_MAX - 8"
  shows "\<exists>u. parse_loop first_pass js fo text st = runs first_pass js fo text (next_section u) \<and>
    ended first_pass (p + length (serialize_string s) + 2)
      (layout first_pass pre tp (if first_pass then V_String (length s) else F_String (length s) s) later) (length pre) (length pre + 1) u"
proof -
  let ?v = "if first_pass then V_String 0 else F_String (length s) []" and ?i = "length pre" and ?q = "p + 1 + length (serialize_string s)"
  have t: "p < length text" "text ! p = CHR 0x22" "drop (p + 1) text = serialize_string s @ CHR 0x22 # rest" using drop_Cons_nth [OF assms(4)] by simp_all
  have b: "\<not> is_ws (CHR 0x22)" "CHR 0x22 \<noteq> CHR '']''" "CHR 0x22 \<noteq> CHR ''/''" by (simp_all add: is_ws_def)
  note turn = begin_turn(1) [OF assms(1) t(1,2) b, of js fo] begin_turn(2) [OF assms(1) t(1,2) b]
  obtain h where h: "new_value first_pass js T_String (ps_line st) (ps_heap st) = Inr h" "heap_at first_pass (layout first_pass pre tp ?v later) (Some ?i) (?i + 1) h"
    using new_value_layout [OF assms(1,2) _ assms(3), of T_String "ps_line st"] assms(6) unfolding filled.simps zero_payload.simps by auto
  let ?s1 = "advance (upd_heap open_string (upd_flags (\<lambda>f. f\<lparr>fl_string := True\<rparr>) ((unseek st)\<lparr>ps_heap := h\<rparr>)))"
  have one: "parse_step first_pass js fo text st = Continue ?s1"
    using turn(1) h(1) by (simp add: begin_value_def Let_def with_heap_def then_flow_def)
  have "in_string first_pass (p + 1) (layout first_pass pre tp ?v later) (Some ?i) (?i + 1) [] (length s + 1) ?s1"
    using turn(2) h(2) set_top_at(2) [OF h(2)] by (auto simp: in_string_def at_mode_def open_string_def num_flags_eq_def)
  from chars_run [OF this t(3) assms(5), of js fo] assms(6) obtain s2 where
    two: "parse_loop first_pass js fo text ?s1 = parse_loop first_pass js fo text s2" and
    s2: "in_string first_pass ?q (layout first_pass pre tp ?v later) (Some ?i) (?i + 1) s (length s + 1) s2" by auto
  have "drop ?q text = CHR 0x22 # rest" by (rule drop_app) (use t(3) in simp)
  from drop_Cons_nth [OF this] have q: "?q < length text" "text ! ?q = CHR 0x22" by simp_all
  let ?s = "upd_flags (\<lambda>f. f\<lparr>fl_string := False\<rparr>) (s2\<lparr>ps_heap := (ps_heap s2)\<lparr>h_room := 0\<rparr>\<rparr>)"
  let ?u = "upd_flags (\<lambda>f. f\<lparr>fl_next := True\<rparr>) (upd_heap end_string ?s)"
  have sec: "string_section first_pass text (CHR 0x22) s2 = Fall ?u"
    by (rule quote_turn(1) [OF s2 q]) (use assms(6) in \<open>simp_all add: layout_nth\<close>)
  have at2: "at_mode first_pass ?q (mk_flags False False False True) (layout first_pass pre tp ?v later) (Some ?i) (?i + 1) s2" using s2 by (simp add: in_string_def)
  have heap: "heap_at first_pass (layout first_pass pre tp (if first_pass then V_String (length s) else F_String (length s) s) later) (Some ?i) (?i + 1) (ps_heap ?u)"
    using end_string_at [OF s2 refl] by simp
  then have "ended first_pass (p + length (serialize_string s) + 2) (layout first_pass pre tp (if first_pass then V_String (length s) else F_String (length s) s) later) ?i (?i + 1) ?u"
    using at2 at_modeD(12) [OF at2] by (simp add: ended_def at_mode_def num_flags_eq_def)
  moreover have "top_type (ps_heap ?u) = Some T_String" using set_top_at(3) [OF heap] by (cases first_pass) simp_all
  then have "after_section first_pass js fo text (CHR 0x22) ?u = next_section ?u"
    using at_modeD [OF at2] by (simp add: after_section_def comment_section_def done_section_def value_section_def then_flow_def)
  then have "parse_step first_pass js fo text s2 = next_section ?u"
    using q sec at_modeD(1) [OF at2] by (subst parse_step_sections [of _ _ "CHR 0x22"]) (simp_all add: then_flow_Fall)
  ultimately show ?thesis
    using one two by (auto simp: parse_loop_runs [of first_pass js fo "text" st] parse_loop_runs [of first_pass js fo "text" s2])
qed

text \<open>The name of an entry: the object at the top gets the bytes of the name.\<close>

fun with_name :: "string \<Rightarrow> payload \<Rightarrow> payload" where
  "with_name k (V_Object n m) = V_Object n (m + length k + 1)"
| "with_name k (F_Object n m u es p) = F_Object n m (u + length k + 1) es (Some k)"
| "with_name k v = v"

definition name_fits :: "string \<Rightarrow> payload \<Rightarrow> bool" where
  "name_fits k v \<longleftrightarrow> (\<exists>n m. v = V_Object n m) \<or> (\<exists>n m u es p. v = F_Object n m u es p \<and> length es < n \<and> u + length k + 1 \<le> m)"

definition put_val :: "nat \<Rightarrow> payload \<Rightarrow> node list \<Rightarrow> node list" where
  "put_val i v ns = ns[i := (ns ! i)\<lparr>nd_val := v\<rparr>]"

lemma set_top_put: "heap_at first_pass ns (Some i) al h \<Longrightarrow> heap_at first_pass (put_val i v ns) (Some i) al (set_top v h)"
  by (simp add: heap_at_def set_top_def set_node_def put_val_def)

lemma name_run:
  assumes "at_mode first_pass p (mk_flags False False False False) ns (Some i) al st" and "name_fits k (nd_val (ns ! i))"
    and "counting (nd_val (ns ! i)) = first_pass"
    and "drop p text = CHR 0x22 # serialize_string k @ CHR 0x22 # rest" and "nul_free k" and "length k \<le> UINT_MAX - 8"
  shows "\<exists>st'. parse_loop first_pass js fo text st = parse_loop first_pass js fo text st' \<and>
    at_mode first_pass (p + length (serialize_string k) + 2) (mk_flags True False True False) (put_val i (with_name k (nd_val (ns ! i))) ns) (Some i) al st'"
proof -
  let ?v = "nd_val (ns ! i)" and ?q = "p + 1 + length (serialize_string k)"
  have ob: "payload_type ?v = T_Object" using assms(2) by (auto simp: name_fits_def)
  have t: "p < length text" "text ! p = CHR 0x22" "drop (p + 1) text = serialize_string k @ CHR 0x22 # rest" using drop_Cons_nth [OF assms(4)] by simp_all
  note d = at_modeD [OF assms(1)]
  have tv: "top_val (ps_heap st) = ?v" "top_type (ps_heap st) = Some T_Object" using d(2,3) ob by (simp_all add: top_val_def top_type_def)
  define r where "r = (case ?v of F_Object n m u es p \<Rightarrow> m - u | _ \<Rightarrow> 0)"
  have r: "length k < r" if "\<not> first_pass" using assms(2,3) that by (auto simp: name_fits_def r_def)
  let ?s1 = "advance (upd_heap open_name (upd_flags (\<lambda>f. f\<lparr>fl_string := True\<rparr>) st))"
  have one: "parse_step first_pass js fo text st = Continue ?s1"
    using value_turn [OF assms(1) t(1,2), of js fo] d tv(2)
    by (simp add: value_section_def object_section_def is_ws_def then_flow_def next_section_def)
  have "in_string first_pass (p + 1) ns (Some i) al [] r ?s1"
    using assms(1) tv(1) by (auto simp: in_string_def at_mode_def open_name_def num_flags_eq_def r_def)
  from chars_run [OF this t(3) assms(5), of js fo] assms(6) r obtain s2 where
    two: "parse_loop first_pass js fo text ?s1 = parse_loop first_pass js fo text s2" and s2: "in_string first_pass ?q ns (Some i) al k r s2" by auto
  have "drop ?q text = CHR 0x22 # rest" by (rule drop_app) (use t(3) in simp)
  from drop_Cons_nth [OF this] have q: "?q < length text" "text ! ?q = CHR 0x22" by simp_all
  have at2: "at_mode first_pass ?q (mk_flags False False False True) ns (Some i) al s2" "h_strlen (ps_heap s2) = length k" "\<not> first_pass \<Longrightarrow> h_buf (ps_heap s2) = k"
    using s2 by (simp_all add: in_string_def)
  let ?s = "upd_flags (\<lambda>f. f\<lparr>fl_string := False\<rparr>) (s2\<lparr>ps_heap := (ps_heap s2)\<lparr>h_room := 0\<rparr>\<rparr>)"
  let ?h = "set_top (with_name k ?v) (ps_heap ?s)"
  have tv2: "top_val (ps_heap ?s) = ?v" using at_modeD(2,3) [OF at2(1)] by (simp add: top_val_def)
  have "end_name first_pass (ps_heap ?s) = Inr ?h"
    using assms(2,3) tv2 at2(2,3) by (auto simp: name_fits_def end_name_def)
  with quote_turn(2) [OF s2 q assms(6)] r ob
  have sec: "string_section first_pass text (CHR 0x22) s2 = Continue (advance (upd_flags (\<lambda>f. f\<lparr>fl_seek_value := True, fl_need_colon := True\<rparr>) (?s\<lparr>ps_heap := ?h\<rparr>)))"
    (is "_ = Continue ?s3") by (simp add: with_heap_def)
  have "heap_at first_pass (put_val i (with_name k ?v) ns) (Some i) al ?h"
    by (rule set_top_put) (use at2(1) in \<open>simp add: at_mode_def\<close>)
  then have "at_mode first_pass (p + length (serialize_string k) + 2) (mk_flags True False True False) (put_val i (with_name k ?v) ns) (Some i) al ?s3"
    using at2(1) by (simp add: at_mode_def num_flags_eq_def)
  moreover have "parse_step first_pass js fo text s2 = Continue ?s3"
    using q sec at_modeD(1) [OF at2(1)] by (subst parse_step_sections [of _ _ "CHR 0x22"]) (simp_all add: then_flow_def)
  then have "parse_loop first_pass js fo text st = parse_loop first_pass js fo text ?s3"
    using one two by (simp add: parse_loop_runs [of first_pass js fo "text" st] parse_loop_runs [of first_pass js fo "text" s2])
  ultimately show ?thesis by blast
qed

end
