(* ===== verification/Json_Trace_Numbers.thy ===== *)
theory Json_Trace_Numbers
  imports Json_Trace
begin

text \<open>
  Runs of the parser over the decimal text of an integer: the first pass reads it digit by
  digit, the second skips it and keeps the value.
\<close>

section \<open>The digits\<close>

lemma int_digits_dec: "int_digits n ds = dec_digits n @ ds"
proof (induction n ds rule: int_digits.induct)
  case (1 n ds)
  then show ?case
    by (cases "n < 10") (simp_all add: int_digits.simps [of n] dec_digits.simps [of n] Let_def div_greater_zero_iff)
qed

text \<open>What may follow a value.\<close>

definition delim :: "string \<Rightarrow> bool" where
  "delim rest \<longleftrightarrow> rest = [] \<or> is_ws (hd rest) \<or> hd rest \<in> {CHR '','', CHR '']'', CHR ''}''}"

definition in_num :: "nat \<Rightarrow> bool \<Rightarrow> nat \<Rightarrow> nat \<Rightarrow> node list \<Rightarrow> nat option \<Rightarrow> nat \<Rightarrow> pst \<Rightarrow> bool" where
  "in_num p neg n k pre tp al st \<longleftrightarrow>
     at_mode True p (mk_flags False False False False) (layout True pre tp (V_Integer (of_nat n)) []) (Some (length pre)) al st \<and>
     ps_num_digits st = k \<and> (fl_num_zero (ps_flags st) \<longleftrightarrow> 0 < k \<and> n = 0) \<and> \<not> fl_num_e (ps_flags st) \<and> fl_num_negative (ps_flags st) = neg"

lemma sint_of_nat_word64: "int n \<le> JSON_INT_MAX \<Longrightarrow> sint (of_nat n :: json_int) = int n"
  by (simp add: signed_of_nat signed_take_bit_int_eq_self)

lemma fits_digit:
  assumes "int (10 * n + digit_val b) \<le> JSON_INT_MAX"
  shows "\<not> would_overflow (of_nat n) b"
proof -
  have "sint (of_nat n :: json_int) = int n" using assms by (intro sint_of_nat_word64) simp
  moreover have "int n * 10 \<le> JSON_INT_MAX - int (digit_val b)" using assms by simp
  then have "int n \<le> (JSON_INT_MAX - int (digit_val b)) div 10" by simp
  ultimately show ?thesis by (simp add: would_overflow_def)
qed

lemma in_num_top:
  assumes "in_num p neg n k pre tp al st"
  shows "top_type (ps_heap st) = Some T_Integer" "is_int st" "top_int st = of_nat n"
  using assms set_top_at(2,3) [of True pre tp "V_Integer (of_nat n)" "[]" al "ps_heap st"]
  by (simp_all add: in_num_def at_mode_def is_int_def top_int_def)

lemma put_int_at:
  assumes "in_num p neg n k pre tp al st"
  shows "heap_at True (layout True pre tp (V_Integer i) []) (Some (length pre)) al (set_top (V_Integer i) (ps_heap st))"
  using assms set_top_at(1) by (auto simp: in_num_def at_mode_def)

lemma digit_turn:
  assumes "in_num p neg n k pre tp al st" and "p < length text" and "text ! p = b" and "is_digit b" and "k = 0 \<and> n = 0 \<or> 0 < k \<and> 0 < n"
    and "int (10 * n + digit_val b) \<le> JSON_INT_MAX"
  shows "\<exists>st'. parse_step True js fo text st = Continue st' \<and> in_num (p + 1) neg (10 * n + digit_val b) (k + 1) pre tp al st'"
proof -
  have at: "at_mode True p (mk_flags False False False False) (layout True pre tp (V_Integer (of_nat n)) []) (Some (length pre)) al st" "ps_num_digits st = k"
    "\<not> fl_num_zero (ps_flags st)" "\<not> fl_num_e (ps_flags st)" "fl_num_negative (ps_flags st) = neg"
    using assms(1,5) by (auto simp: in_num_def)
  note d = at_modeD [OF at(1)] and tp = in_num_top [OF assms(1)]
  have b: "b \<noteq> CHR ''/''" using assms(4) by (auto simp: is_digit_def)
  let ?s = "st\<lparr>ps_num_digits := k + 1\<rparr>"
  let ?z = "if k + 1 = 1 \<and> b = CHR ''0'' then upd_flags (\<lambda>f. f\<lparr>fl_num_zero := True\<rparr>) ?s else ?s"
  let ?i = "of_nat n * 10 + of_nat (digit_val b) :: json_int"
  let ?st = "advance (put_int ?i ?z)"
  have z: "top_int s = of_nat n" "is_int s" if "ps_heap s = ps_heap st" for s using tp that by (simp_all add: top_int_def is_int_def)
  have sec: "digit_section fo b st = Continue ?st"
    unfolding digit_section_def Let_def using at z fits_digit [OF assms(6)] by simp
  have step: "parse_step True js fo text st = Continue ?st"
    using value_turn [OF at(1) assms(2,3) b, of js fo] d(7) tp(1) assms(4) sec by (simp add: value_section_def number_section_def then_flow_def)
  have i: "?i = of_nat (10 * n + digit_val b)" by simp
  have "digit_val b = 0 \<longleftrightarrow> b = CHR ''0''" using assms(4) by (auto simp: is_digit_def digit_val_def)
  then have "in_num (p + 1) neg (10 * n + digit_val b) (k + 1) pre tp al ?st"
    using assms(5) at put_int_at [OF assms(1), of "of_nat (10 * n + digit_val b)"] unfolding i
    by (auto simp: in_num_def at_mode_def put_int_def num_flags_eq_def)
  with step show ?thesis by blast
qed

lemma digits_run:
  assumes "in_num p neg 0 0 pre tp al st" and "drop p text = dec_digits n @ rest" and "int n \<le> JSON_INT_MAX"
  shows "\<exists>st'. parse_loop True js fo text st = parse_loop True js fo text st' \<and> in_num (p + length (dec_digits n)) neg n (length (dec_digits n)) pre tp al st'"
  using assms(2,3)
proof (induction n arbitrary: rest rule: dec_digits.induct)
  case (1 n)
  let ?c = "''0123456789'' ! (n mod 10)"
  have c: "is_digit ?c" "digit_val ?c = n mod 10" using digit_char [of "n mod 10"] by simp_all
  show ?case
  proof (cases "n < 10")
    case True
    then have e: "dec_digits n = [?c]" by (simp add: dec_digits.simps [of n])
    have t: "p < length text" "text ! p = ?c" using drop_Cons_nth [of p "text" ?c rest] 1(2) e by simp_all
    from digit_turn [OF assms(1) t c(1), of js fo] c(2) True e show ?thesis
      by (auto simp: parse_loop_runs [of True js fo "text" st])
  next
    case False
    let ?m = "n div 10" and ?q = "p + length (dec_digits (n div 10))"
    have e: "dec_digits n = dec_digits ?m @ [?c]" using False by (simp add: dec_digits.simps [of n])
    have d: "drop p text = dec_digits ?m @ ?c # rest" using 1(2) e by simp
    have "int ?m \<le> JSON_INT_MAX" using 1(3) div_le_dividend [of n 10] by linarith
    with 1(1) [OF False d] obtain st1 where st1: "parse_loop True js fo text st = parse_loop True js fo text st1" "in_num ?q neg ?m (length (dec_digits ?m)) pre tp al st1"
      by blast
    have "drop ?q text = ?c # rest" by (rule drop_app [OF d])
    from drop_Cons_nth [OF this] have t: "?q < length text" "text ! ?q = ?c" by simp_all
    have "10 * ?m + digit_val ?c = n" "0 < ?m" "0 < length (dec_digits ?m)" using c(2) False dec_digits_read [of ?m] by simp_all
    with digit_turn [OF st1(2) t c(1), of js fo] 1(3) e st1(1) show ?thesis
      by (auto simp: parse_loop_runs [of True js fo "text" st1] add.assoc)
  qed
qed

section \<open>The whole number\<close>

lemma end_turn:
  assumes "in_num p neg n k pre tp al st" and "drop p text = rest" and "delim rest" and "p \<le> length text"
  shows "\<exists>u. parse_step True js fo text st = next_section u \<and>
    ended True p (layout True pre tp (V_Integer (if neg then - of_nat n else of_nat n)) []) (length pre) al u"
proof -
  define b where "b = (if ps_ptr st = length text then NUL else text ! ps_ptr st)"
  have at: "at_mode True p (mk_flags False False False False) (layout True pre tp (V_Integer (of_nat n)) []) (Some (length pre)) al st"
    "\<not> fl_num_e (ps_flags st)" "fl_num_negative (ps_flags st) = neg"
    using assms(1) by (auto simp: in_num_def)
  note d = at_modeD [OF at(1)] and tp = in_num_top [OF assms(1)]
  have "b = NUL \<or> rest \<noteq> [] \<and> b = hd rest" using assms(2,4) d(1) by (auto simp: b_def hd_drop_conv_nth)
  then have b: "\<not> is_digit b" "b \<notin> {CHR ''/'', CHR ''+'', CHR ''-'', CHR ''.'', CHR ''e'', CHR ''E''}"
    using assms(3) by (auto simp: delim_def is_ws_def is_digit_def)
  let ?v = "V_Integer (if neg then - of_nat n else of_nat n)"
  let ?s = "if neg then put_int (- of_nat n) st else st"
  let ?u = "upd_flags (\<lambda>f. f\<lparr>fl_next := True, fl_reproc := True\<rparr>) ?s"
  have "number_section fo b st = Fall ?u"
    using b at tp by (simp add: number_section_def end_number_def finish_number_def Let_def)
  then have "after_section True js fo text b st = next_section ?u"
    using d b(2) tp(1) by (simp add: after_section_def comment_section_def done_section_def value_section_def then_flow_Fall)
  then have "parse_step True js fo text st = next_section ?u"
    using d(1,10) assms(4) by (subst parse_step_sections [OF _ b_def]) (simp_all add: string_section_def then_flow_Fall)
  moreover have "heap_at True (layout True pre tp ?v []) (Some (length pre)) al (ps_heap ?s)"
    using put_int_at [OF assms(1)] at(1) by (auto simp: put_int_def at_mode_def)
  then have "ended True p (layout True pre tp ?v []) (length pre) al ?u"
    using at(1) by (auto simp: ended_def at_mode_def num_flags_eq_def)
  ultimately show ?thesis by blast
qed

lemma int_text_num:
  assumes "(i :: json_int) \<noteq> - (2 ^ 63)"
  obtains n where "int_text (sint i) = (if sint i < 0 then CHR ''-'' # dec_digits n else dec_digits n)" "int n \<le> JSON_INT_MAX"
    "i = (if sint i < 0 then - of_nat n else of_nat n)" "n = nat \<bar>sint i\<bar>"
proof -
  have "sint i \<noteq> - (2 ^ 63)"
  proof
    assume "sint i = - (2 ^ 63)"
    then have "i = word_of_int (- (2 ^ 63))" by (metis of_int_sint scast_id)
    with assms show False by simp
  qed
  moreover have "- (2 ^ 63) \<le> sint i" "sint i \<le> 2 ^ 63 - 1" using sint_range_size [of i] by (simp_all add: size_word_def)
  ultimately have "int (nat \<bar>sint i\<bar>) \<le> JSON_INT_MAX" by (auto simp: abs_if)
  moreover have "i = (if sint i < 0 then - of_nat (nat \<bar>sint i\<bar>) else of_nat (nat \<bar>sint i\<bar>))" by (auto simp: abs_if)
  ultimately show thesis by (intro that [of "nat \<bar>sint i\<bar>"]) (auto simp: int_text_def int_digits_dec abs_if)
qed

lemma num_chars_int_text:
  assumes "int_text n = ds"
  shows "list_all num_char ds" "\<exists>b r. ds = b # r \<and> (is_digit b \<or> b = CHR ''-'')"
proof -
  have d: "list_all num_char (dec_digits m)" "\<exists>b r. dec_digits m = b # r \<and> is_digit b" for m
    using dec_digits_read [of m] by (auto simp: list_all_iff num_char_def neq_Nil_conv)
  show "list_all num_char ds" "\<exists>b r. ds = b # r \<and> (is_digit b \<or> b = CHR ''-'')"
    using assms d [of "nat n"] d [of "nat (- n)"] by (auto simp: int_text_def int_digits_dec num_char_def)
qed

lemma takeWhile_delim:
  assumes "list_all num_char ds" and "delim rest"
  shows "takeWhile num_char (ds @ rest) = ds"
proof -
  have "rest = [] \<or> \<not> num_char (hd rest)" using assms(2) by (auto simp: delim_def num_char_def is_digit_def is_ws_def)
  then have "takeWhile num_char rest = []" by (cases rest) auto
  with assms(1) show ?thesis by (simp add: takeWhile_append list_all_iff)
qed

lemma number_value_run:
  assumes "at_mode first_pass p (mk_flags True False False False) (awaiting first_pass pre tp (V_Integer i) later) tp (length pre) st" and "generous js"
    and "tp = None \<Longrightarrow> pre = []" and "drop p text = int_text (sint i) @ rest" and "delim rest" and "i \<noteq> - (2 ^ 63)"
  shows "\<exists>u. parse_loop first_pass js fo text st = runs first_pass js fo text (next_section u) \<and>
    ended first_pass (p + length (int_text (sint i))) (layout first_pass pre tp (V_Integer i) later) (length pre) (length pre + 1) u"
proof -
  let ?ds = "int_text (sint i)"
  obtain b r where b: "?ds = b # r" "is_digit b \<or> b = CHR ''-''" using num_chars_int_text(2) [OF refl, of "sint i"] by blast
  have t: "p < length text" "text ! p = b" "drop (p + 1) text = r @ rest" using drop_Cons_nth [of p "text" b "r @ rest"] assms(4) b(1) by simp_all
  have nb: "\<not> is_ws b" "b \<noteq> CHR '']''" "b \<noteq> CHR ''/''" "b \<notin> {CHR ''{'', CHR ''['', CHR 0x22, CHR ''t'', CHR ''f'', CHR ''n''}"
    using b(2) by (auto simp: is_ws_def is_digit_def)
  note turn = begin_turn(1) [OF assms(1) t(1,2) nb(1-3), of js fo] begin_turn(2) [OF assms(1) t(1,2) nb(1-3)]
  obtain h where h: "new_value first_pass js T_Integer (ps_line st) (ps_heap st) = Inr h"
    "heap_at first_pass (layout first_pass pre tp (if first_pass then V_Integer 0 else V_Integer i) later) (Some (length pre)) (length pre + 1) h"
    using new_value_layout [OF assms(1,2) _ assms(3), of T_Integer "ps_line st"] unfolding filled.simps zero_payload.simps askable.simps by blast
  let ?s = "(unseek st)\<lparr>ps_heap := h\<rparr>"
  have bv: "begin_value first_pass js text b (unseek st) = start_number first_pass text b ?s"
    using b(2) nb(4) h(1) by (simp add: begin_value_def Let_def with_heap_def)
  show ?thesis
  proof (cases first_pass)
    case False
    let ?u = "upd_flags (\<lambda>f. f\<lparr>fl_next := True, fl_reproc := True\<rparr>) (?s\<lparr>ps_ptr := p + length ?ds\<rparr>)"
    have "takeWhile num_char (drop p text) = ?ds" using takeWhile_delim [OF num_chars_int_text(1) [OF refl] assms(5)] assms(4) by simp
    then have "start_number first_pass text b ?s = Fall ?u" using False at_modeD(1) [OF turn(2)] by (simp add: start_number_def)
    then have "parse_step first_pass js fo text st = next_section ?u" using turn(1) bv by (simp only: then_flow_Fall)
    moreover have "ended first_pass (p + length ?ds) (layout first_pass pre tp (V_Integer i) later) (length pre) (length pre + 1) ?u"
      using turn(2) h(2) False by (simp add: ended_def at_mode_def num_flags_eq_def)
    ultimately show ?thesis by (auto simp: parse_loop_runs [of first_pass js fo "text" st])
  next
    case True
    obtain n where n: "?ds = (if sint i < 0 then CHR ''-'' # dec_digits n else dec_digits n)" "int n \<le> JSON_INT_MAX"
      "i = (if sint i < 0 then - of_nat n else of_nat n)" using int_text_num [OF assms(6)] by metis
    let ?neg = "sint i < 0"
    define q where "q = (if ?neg then p + 1 else p)"
    have neg: "b = CHR ''-'' \<longleftrightarrow> ?neg"
    proof (cases ?neg)
      case False
      then have "dec_digits n = b # r" using n(1) b(1) by simp
      then have "b \<in> set (dec_digits n)" by simp
      then have "is_digit b" using dec_digits_read [of n] by blast
      with False show ?thesis by (auto simp: is_digit_def)
    qed (use n(1) b(1) in simp)
    obtain s1 where s1: "parse_step first_pass js fo text st = Continue s1" "in_num q ?neg 0 0 pre tp (length pre + 1) s1"
    proof (cases ?neg)
      case neg': True
      let ?s1 = "advance (upd_flags (\<lambda>f. f\<lparr>fl_num_negative := True\<rparr>) (upd_flags (\<lambda>f. f\<lparr>fl_num_negative := False, fl_num_e := False, fl_num_e_got_sign := False,
        fl_num_e_negative := False, fl_num_zero := False\<rparr>) (?s\<lparr>ps_num_digits := 0, ps_num_fraction := 0, ps_num_e := 0\<rparr>)))"
      have "parse_step first_pass js fo text st = Continue ?s1"
        using turn(1) bv True neg neg' by (simp add: start_number_def Let_def then_flow_def)
      moreover have "in_num q ?neg 0 0 pre tp (length pre + 1) ?s1"
        using turn(2) h(2) True neg' by (simp add: in_num_def at_mode_def num_flags_eq_def q_def layout_def)
      ultimately show thesis by (rule that)
    next
      case pos: False
      let ?s1 = "upd_flags (\<lambda>f. f\<lparr>fl_reproc := False\<rparr>) (upd_flags (\<lambda>f. f\<lparr>fl_reproc := True\<rparr>) (upd_flags (\<lambda>f. f\<lparr>fl_num_negative := False, fl_num_e := False, fl_num_e_got_sign := False,
        fl_num_e_negative := False, fl_num_zero := False\<rparr>) (?s\<lparr>ps_num_digits := 0, ps_num_fraction := 0, ps_num_e := 0\<rparr>)))"
      have "parse_step first_pass js fo text st = Continue ?s1"
        using turn(1) bv True neg pos at_modeD(11) [OF turn(2)] by (simp add: start_number_def Let_def then_flow_def next_section_def)
      moreover have "in_num q ?neg 0 0 pre tp (length pre + 1) ?s1"
        using turn(2) h(2) True pos by (simp add: in_num_def at_mode_def num_flags_eq_def q_def layout_def)
      ultimately show thesis by (rule that)
    qed
    have dq: "drop q text = dec_digits n @ rest" using assms(4) n(1) t(3) b(1) by (auto simp: q_def split: if_splits)
    have pq: "q + length (dec_digits n) = p + length ?ds" using n(1) by (simp add: q_def)
    obtain s2 where s2: "parse_loop True js fo text s1 = parse_loop True js fo text s2" "in_num (p + length ?ds) ?neg n (length (dec_digits n)) pre tp (length pre + 1) s2"
      using digits_run [OF s1(2) dq n(2), of js fo] unfolding pq by blast
    have de: "drop (p + length ?ds) text = rest" using drop_app [OF assms(4)] .
    have "p + length ?ds \<le> length text" using arg_cong [OF assms(4), of length] t(1) by simp
    from end_turn [OF s2(2) de assms(5) this, of js fo, folded n(3)] obtain u where u: "parse_step True js fo text s2 = next_section u"
      "ended True (p + length ?ds) (layout True pre tp (V_Integer i) []) (length pre) (length pre + 1) u" by blast
    with s1(1) s2(1) True show ?thesis
      by (auto simp: parse_loop_runs [of True js fo "text" st] parse_loop_runs [of True js fo "text" s2] layout_def)
  qed
qed

end
