(* ===== verification/Json_Round_Trip.thy ===== *)
theory Json_Round_Trip
  imports Json_Trace_Numbers
begin

text \<open>
  Parsing what \<^verbatim>\<open>json_serialize_ex\<close> has printed gives the value back, for every
  layout the options allow: the runs of the parser over the text of a value, by induction
  on the value, for the values the first pass creates and for those the second one fills.
\<close>

section \<open>The values a text leads to\<close>

fun nsize :: "json_value \<Rightarrow> nat" where
  "nsize (JArray vs) = Suc (sum_list (map nsize vs))"
| "nsize (JObject kvs) = Suc (sum_list (map (\<lambda>(k, v). nsize v) kvs))"
| "nsize _ = 1"

text \<open>Elements as entries with an empty name.\<close>

fun kids :: "json_value \<Rightarrow> (string \<times> json_value) list" where
  "kids (JArray vs) = map (Pair []) vs"
| "kids (JObject kvs) = kvs"
| "kids _ = []"

definition nsizes :: "(string \<times> json_value) list \<Rightarrow> nat" where
  "nsizes kvs = sum_list (map (\<lambda>(k, v). nsize v) kvs)"

definition names_len :: "(string \<times> json_value) list \<Rightarrow> nat" where
  "names_len kvs = sum_list (map (\<lambda>(k, v). length k + 1) kvs)"

fun starts :: "nat \<Rightarrow> (string \<times> json_value) list \<Rightarrow> nat list" where
  "starts b [] = []"
| "starts b ((k, v) # kvs) = b # starts (b + nsize v) kvs"

definition linked :: "nat \<Rightarrow> (string \<times> json_value) list \<Rightarrow> (string \<times> nat) list" where
  "linked b kvs = zip (map fst kvs) (starts b kvs)"

text \<open>
  An array or object with the entries linked so far, the bytes of names used and the name
  of the entry whose value is open.
\<close>

definition cpay :: "bool \<Rightarrow> bool \<Rightarrow> nat \<Rightarrow> nat \<Rightarrow> (string \<times> nat) list \<Rightarrow> nat \<Rightarrow> string option \<Rightarrow> payload" where
  "cpay obj first_pass n m kis u nm =
     (if first_pass then (if obj then V_Object (length kis) u else V_Array (length kis))
      else if obj then F_Object n (if n = 0 then 0 else m) u kis nm else F_Array n (map snd kis))"

fun is_container :: "json_value \<Rightarrow> bool" where
  "is_container (JArray vs) = True"
| "is_container (JObject kvs) = True"
| "is_container _ = False"

fun is_object :: "json_value \<Rightarrow> bool" where
  "is_object (JObject kvs) = True"
| "is_object _ = False"

definition pay :: "bool \<Rightarrow> nat \<Rightarrow> json_value \<Rightarrow> payload" where
  "pay first_pass base v =
     (case v of
        JInteger i \<Rightarrow> V_Integer i
      | JBoolean b \<Rightarrow> V_Boolean b
      | JString s \<Rightarrow> if first_pass then V_String (length s) else F_String (length s) s
      | JNull \<Rightarrow> V_Null
      | _ \<Rightarrow> cpay (is_object v) first_pass (length (kids v)) (names_len (kids v)) (linked (base + 1) (kids v)) (names_len (kids v)) None)"

lemma nsize_kids: "is_container v \<Longrightarrow> nsize v = Suc (nsizes (kids v))" "\<not> is_container v \<Longrightarrow> nsize v = 1 \<and> kids v = []"
  by (cases v; simp add: nsizes_def comp_def)+

lemma nsize_pos [simp]: "0 < nsize v"
  by (cases v) simp_all

lemma nsizes_simps [simp]: "nsizes [] = 0" "nsizes ((k, v) # kvs) = nsize v + nsizes kvs" "nsizes (xs @ ys) = nsizes xs + nsizes ys"
  by (simp_all add: nsizes_def)

lemma names_len_simps [simp]: "names_len [] = 0" "names_len ((k, v) # kvs) = length k + 1 + names_len kvs" "names_len (xs @ ys) = names_len xs + names_len ys"
  by (simp_all add: names_len_def)

function nodes_of :: "bool \<Rightarrow> nat option \<Rightarrow> nat \<Rightarrow> json_value \<Rightarrow> node list"
  and nodes_list :: "bool \<Rightarrow> nat \<Rightarrow> nat \<Rightarrow> (string \<times> json_value) list \<Rightarrow> node list" where
  "nodes_of first_pass par base v = \<lparr>nd_parent = par, nd_val = pay first_pass base v\<rparr> # nodes_list first_pass base (base + 1) (kids v)"
| "nodes_list first_pass par b [] = []"
| "nodes_list first_pass par b ((k, v) # kvs) = nodes_of first_pass (Some par) b v @ nodes_list first_pass par (b + nsize v) kvs"
  by pat_completeness auto
termination
proof (relation "measure (case_sum (\<lambda>(fp, par, b, v). 2 * nsize v) (\<lambda>(fp, par, b, kvs). 2 * nsizes kvs + 1))", goal_cases)
  case (2 fp par base v)
  then show ?case using nsize_kids [of v] by (cases "is_container v") simp_all
qed simp_all

declare nodes_of.simps [simp del]

lemma nodes_length: "length (nodes_of first_pass par base v) = nsize v" "length (nodes_list first_pass q b kvs) = nsizes kvs"
proof (induction first_pass par base v and first_pass q b kvs rule: nodes_of_nodes_list.induct)
  case (1 first_pass par base v)
  then show ?case using nsize_kids [of v] by (cases "is_container v") (simp_all add: nodes_of.simps)
qed simp_all

lemma nodes_list_append: "nodes_list first_pass q b (xs @ ys) = nodes_list first_pass q b xs @ nodes_list first_pass q (b + nsizes xs) ys"
  by (induction xs arbitrary: b) (auto simp: add.assoc)

lemma starts_append: "starts b (xs @ ys) = starts b xs @ starts (b + nsizes xs) ys"
  by (induction xs arbitrary: b) (auto simp: add.assoc)

lemma length_starts [simp]: "length (starts b kvs) = length kvs"
  by (induction b kvs rule: starts.induct) simp_all

lemma linked_append: "linked b (xs @ [(k, v)]) = linked b xs @ [(k, b + nsizes xs)]"
  by (simp add: linked_def starts_append)

lemma length_linked [simp]: "length (linked b kvs) = length kvs"
  by (simp add: linked_def)

section \<open>Linking\<close>

lemma put_val_fields: "length (put_val q v ns) = length ns"
  by (simp add: put_val_def)

lemma cpay_type: "payload_type (cpay obj first_pass n m kis u nm) = ctype obj" "counting (cpay obj first_pass n m kis u nm) = first_pass"
  by (simp_all add: cpay_def ctype_def)

lemma link_at:
  assumes "ended first_pass p ns i al u" and "nd_parent (ns ! i) = Some q" and "nd_val (ns ! q) = cpay obj first_pass n m kis w nm"
    and "nm = (if obj then Some k else None)" and "length kis < n" and "n \<le> UINT_MAX - 8"
  shows "\<exists>st. next_section u = Continue st \<and>
    at_mode first_pass p (mk_flags (\<not> obj) True False False) (put_val q (cpay obj first_pass n m (kis @ [(k, i)]) w None) ns) (Some q) al st"
proof -
  let ?c = "cpay obj first_pass n m (kis @ [(k, i)]) w None"
  have h: "h_nodes (ps_heap u) = ns" "h_top (ps_heap u) = Some i" "fl_next (ps_flags u)" using assms(1) by (auto simp: ended_def heap_at_def num_flags_eq_def)
  have tp: "top_parent (ps_heap u) = Some q" using h(1,2) assms(2) by (simp add: top_parent_def)
  have pt: "parent_type (ps_heap u) = Some (ctype obj)" using tp h(1) assms(3) by (simp add: parent_type_def cpay_type)
  let ?h = "(set_node q ?c (ps_heap u))\<lparr>h_top := Some q\<rparr>"
  have link: "link_value (ps_line u) i q (ps_heap u) = Inr ?h"
    using h(1) assms(3-6) by (cases first_pass; cases obj) (simp_all add: link_value_def cpay_def)
  have step: "next_section u = Continue ((seeking u)\<lparr>ps_heap := ?h\<rparr>)"
    using next_section_link [OF h(3,2) tp] link by (simp add: with_heap_def)
  have "heap_at first_pass (put_val q ?c ns) (Some q) al ?h"
    using assms(1) h(1) by (simp add: ended_def heap_at_def put_val_def set_node_def)
  moreover have "num_flags_eq (ps_flags (seeking u)) (mk_flags (\<not> obj) True False False)"
    using assms(1) pt by (simp add: ended_def num_flags_eq_def ctype_def)
  ultimately show ?thesis using step assms(1) by (simp add: at_mode_def ended_def)
qed

section \<open>Entries\<close>

text \<open>Values before, a container, the values of its finished entries and, in the second pass, what follows.\<close>

definition stage :: "bool \<Rightarrow> node list \<Rightarrow> nat option \<Rightarrow> payload \<Rightarrow> (string \<times> json_value) list \<Rightarrow> node list \<Rightarrow> node list" where
  "stage first_pass pre tp c dn later =
     pre @ \<lparr>nd_parent = tp, nd_val = c\<rparr> # nodes_list first_pass (length pre) (length pre + 1) dn @ (if first_pass then [] else later)"

lemma stage_put: "put_val (length pre) c' (stage first_pass pre tp c dn later) = stage first_pass pre tp c' dn later"
  by (simp add: stage_def put_val_def)

lemma stage_nth: "nd_val (stage first_pass pre tp c dn later ! length pre) = c"
  by (simp add: stage_def)

definition traces :: "json_settings \<Rightarrow> float_ops \<Rightarrow> string \<Rightarrow> json_value \<Rightarrow> string \<Rightarrow> bool" where
  "traces js fo text v txt \<longleftrightarrow>
     (\<forall>first_pass p pre tp post st rest.
        drop p text = txt @ rest \<and> delim rest \<and> (tp = None \<longrightarrow> pre = []) \<and>
        at_mode first_pass p (mk_flags True False False False) (pre @ (if first_pass then [] else nodes_of True tp (length pre) v @ post)) tp (length pre) st \<longrightarrow>
        (\<exists>u. parse_loop first_pass js fo text st = runs first_pass js fo text (next_section u) \<and>
           ended first_pass (p + length txt) (pre @ nodes_of first_pass tp (length pre) v @ (if first_pass then [] else post)) (length pre) (length pre + nsize v) u))"

lemma tracesD:
  assumes "traces js fo text v txt" and "drop p text = txt @ rest" and "delim rest" and "tp = None \<Longrightarrow> pre = []"
    and "at_mode first_pass p (mk_flags True False False False) (pre @ (if first_pass then [] else nodes_of True tp (length pre) v @ post)) tp (length pre) st"
  shows "\<exists>u. parse_loop first_pass js fo text st = runs first_pass js fo text (next_section u) \<and>
    ended first_pass (p + length txt) (pre @ nodes_of first_pass tp (length pre) v @ (if first_pass then [] else post)) (length pre) (length pre + nsize v) u"
  using assms unfolding traces_def by blast

lemma ws_text:
  "list_all is_ws (newline_text so n)" "list_all is_ws (spaced so f)"
  by (auto simp: newline_text_def is_ws_def list_all_iff)

lemma nodes_of_parent: "nd_parent ((xs @ nodes_of first_pass par b v @ ys) ! length xs) = par"
  by (simp add: nodes_of.simps)

text \<open>The value of an entry, up to its link.\<close>

lemma element_run:
  assumes "traces js fo text v txt" and "drop p text = txt @ rest" and "delim rest"
    and "at_mode first_pass p (mk_flags True False False False)
      (stage first_pass pre tp (cpay obj first_pass n m (linked (length pre + 1) dn) w nm) dn (nodes_of True (Some (length pre)) (length pre + 1 + nsizes dn) v @ later))
      (Some (length pre)) (length pre + 1 + nsizes dn) st"
    and "nm = (if obj then Some k else None)" and "length dn < n" and "n \<le> UINT_MAX - 8"
  shows "\<exists>st'. parse_loop first_pass js fo text st = parse_loop first_pass js fo text st' \<and>
    at_mode first_pass (p + length txt) (mk_flags (\<not> obj) True False False)
      (stage first_pass pre tp (cpay obj first_pass n m (linked (length pre + 1) (dn @ [(k, v)])) w None) (dn @ [(k, v)]) later)
      (Some (length pre)) (length pre + 1 + nsizes (dn @ [(k, v)])) st'"
proof -
  let ?base = "length pre" and ?c = "\<lambda>kis nm. cpay obj first_pass n m kis w nm"
  let ?pre = "pre @ \<lparr>nd_parent = tp, nd_val = ?c (linked (?base + 1) dn) nm\<rparr> # nodes_list first_pass ?base (?base + 1) dn"
  have len: "length ?pre = ?base + 1 + nsizes dn" by (simp add: nodes_length)
  have st: "at_mode first_pass p (mk_flags True False False False) (?pre @ (if first_pass then [] else nodes_of True (Some ?base) (length ?pre) v @ later)) (Some ?base) (length ?pre) st"
    using assms(4) unfolding len by (cases first_pass) (simp_all add: stage_def)
  obtain u where u: "parse_loop first_pass js fo text st = runs first_pass js fo text (next_section u)"
    "ended first_pass (p + length txt) (?pre @ nodes_of first_pass (Some ?base) (length ?pre) v @ (if first_pass then [] else later)) (length ?pre) (length ?pre + nsize v) u"
    using tracesD [OF assms(1-3) _ st] by auto
  let ?ns = "?pre @ nodes_of first_pass (Some ?base) (length ?pre) v @ (if first_pass then [] else later)"
  have par: "nd_parent (?ns ! length ?pre) = Some ?base" "nd_val (?ns ! ?base) = ?c (linked (?base + 1) dn) nm"
    by (rule nodes_of_parent) simp
  have ns: "put_val ?base (?c (linked (?base + 1) dn @ [(k, length ?pre)]) None) ?ns =
      stage first_pass pre tp (?c (linked (?base + 1) (dn @ [(k, v)])) None) (dn @ [(k, v)]) later"
    unfolding len by (simp add: stage_def put_val_def nodes_list_append linked_append)
  from link_at [OF u(2) par assms(5) _ assms(7)] assms(6) ns u(1) len show ?thesis by (auto simp: add.assoc)
qed

lemma cpay_array: "cpay False first_pass n m kis w nm = cpay False first_pass n m kis w' nm'"
  by (simp add: cpay_def)

lemma cpay_name: "with_name k (cpay True first_pass n m kis w nm') = cpay True first_pass n m kis (w + length k + 1) (Some k)"
  "length kis < n \<Longrightarrow> w + length k + 1 \<le> m \<Longrightarrow> name_fits k (cpay True first_pass n m kis w nm')"
  by (auto simp: cpay_def name_fits_def)

lemma skips_stage: "skips s (stage first_pass pre tp (cpay obj first_pass n m kis w nm) dn later) (Some (length pre)) \<longleftrightarrow> s \<or> obj"
  by (auto simp: skips_def stage_nth cpay_type ctype_def)

text \<open>The name of an entry with the colon and the space behind it.\<close>

lemma key_run:
  assumes "drop p text = key_text so k @ rest"
    and "at_mode first_pass p (mk_flags False False False False) (stage first_pass pre tp (cpay True first_pass n m kis w None) dn later) (Some (length pre)) al st"
    and "nul_free k" and "length kis < n" and "w + length k + 1 \<le> m" and "m \<le> UINT_MAX - 8"
  shows "\<exists>st'. parse_loop first_pass js fo text st = parse_loop first_pass js fo text st' \<and>
    at_mode first_pass (p + length (key_text so k)) (mk_flags True False False False)
      (stage first_pass pre tp (cpay True first_pass n m kis (w + length k + 1) (Some k)) dn later) (Some (length pre)) al st'"
proof -
  let ?ns = "\<lambda>w nm. stage first_pass pre tp (cpay True first_pass n m kis w nm) dn later" and ?sp = "spaced so f_spaces_after_colons"
  let ?q = "p + length (serialize_string k) + 2"
  have t: "drop p text = CHR 0x22 # serialize_string k @ CHR 0x22 # CHR '':'' # ?sp @ rest" using assms(1) by (simp add: key_text_def)
  obtain s1 where s1: "parse_loop first_pass js fo text st = parse_loop first_pass js fo text s1"
    "at_mode first_pass ?q (mk_flags True False True False) (?ns (w + length k + 1) (Some k)) (Some (length pre)) al s1"
    using name_run [OF assms(2) _ _ t assms(3), of js fo] assms(4-6) unfolding stage_nth stage_put cpay_name(1) cpay_type(2)
    by (auto simp: cpay_name(2))
  have "drop ?q text = CHR '':'' # ?sp @ rest" using drop_app [of p "text" "CHR 0x22 # serialize_string k @ [CHR 0x22]"] t by simp
  from drop_Cons_nth [OF this] have q: "?q < length text" "text ! ?q = CHR '':''" "drop (?q + 1) text = ?sp @ rest" by simp_all
  obtain s2 where s2: "parse_step first_pass js fo text s1 = Continue s2"
    "at_mode first_pass (?q + 1) (mk_flags True False False False) (?ns (w + length k + 1) (Some k)) (Some (length pre)) al s2"
    using colon_turn [OF s1(2) q(1,2), of js fo] by blast
  from ws_run [OF s2(2) q(3) ws_text(2), of js fo] obtain s3 where s3: "parse_loop first_pass js fo text s2 = parse_loop first_pass js fo text s3"
    "at_mode first_pass (?q + 1 + length ?sp) (mk_flags True False False False) (?ns (w + length k + 1) (Some k)) (Some (length pre)) al s3"
    by (auto simp: skips_stage)
  have eq: "?q + 1 + length ?sp = p + length (key_text so k)" by (simp add: key_text_def)
  have "parse_loop first_pass js fo text st = parse_loop first_pass js fo text s3"
    using s1(1) s2(1) s3(1) by (simp add: parse_loop_runs [of first_pass js fo "text" s1])
  with s3(2) [unfolded eq] show ?thesis by blast
qed

definition item_text :: "(64 word \<Rightarrow> string) \<Rightarrow> json_serialize_opts \<Rightarrow> nat \<Rightarrow> bool \<Rightarrow> string \<times> json_value \<Rightarrow> string" where
  "item_text fmt_g so i obj kv = (if obj then key_text so (fst kv) else []) @ json_text fmt_g so i (snd kv)"

lemma item_run:
  assumes "traces js fo text v (json_text fmt_g so i v)" and "drop p text = item_text fmt_g so i obj (k, v) @ rest" and "delim rest"
    and "at_mode first_pass p (mk_flags (\<not> obj) False False False)
      (stage first_pass pre tp (cpay obj first_pass n m (linked (length pre + 1) dn) (names_len dn) None) dn
        (nodes_of True (Some (length pre)) (length pre + 1 + nsizes dn) v @ later)) (Some (length pre)) (length pre + 1 + nsizes dn) st"
    and "length dn < n" and "n \<le> UINT_MAX - 8" and "obj \<Longrightarrow> nul_free k \<and> names_len dn + length k + 1 \<le> m \<and> m \<le> UINT_MAX - 8"
  shows "\<exists>st'. parse_loop first_pass js fo text st = parse_loop first_pass js fo text st' \<and>
    at_mode first_pass (p + length (item_text fmt_g so i obj (k, v))) (mk_flags (\<not> obj) True False False)
      (stage first_pass pre tp (cpay obj first_pass n m (linked (length pre + 1) (dn @ [(k, v)])) (names_len (dn @ [(k, v)])) None) (dn @ [(k, v)]) later)
      (Some (length pre)) (length pre + 1 + nsizes (dn @ [(k, v)])) st'"
proof (cases obj)
  case False
  let ?w = "names_len (dn @ [(k, v)])"
  have eq: "cpay False first_pass n m kis (names_len dn) None = cpay False first_pass n m kis ?w None" for kis by (rule cpay_array)
  have at: "at_mode first_pass p (mk_flags True False False False) (stage first_pass pre tp (cpay False first_pass n m (linked (length pre + 1) dn) ?w None) dn
      (nodes_of True (Some (length pre)) (length pre + 1 + nsizes dn) v @ later)) (Some (length pre)) (length pre + 1 + nsizes dn) st"
    using assms(4) False unfolding eq [symmetric] by simp
  have "drop p text = json_text fmt_g so i v @ rest" using assms(2) False by (simp add: item_text_def)
  from element_run [OF assms(1) this assms(3) at _ assms(5,6), of k] False show ?thesis by (simp add: item_text_def)
next
  case True
  let ?w = "names_len dn + length k + 1" and ?later = "nodes_of True (Some (length pre)) (length pre + 1 + nsizes dn) v @ later"
  have t: "drop p text = key_text so k @ json_text fmt_g so i v @ rest" using assms(2) True by (simp add: item_text_def)
  obtain s1 where s1: "parse_loop first_pass js fo text st = parse_loop first_pass js fo text s1"
    "at_mode first_pass (p + length (key_text so k)) (mk_flags True False False False)
      (stage first_pass pre tp (cpay True first_pass n m (linked (length pre + 1) dn) ?w (Some k)) dn ?later) (Some (length pre)) (length pre + 1 + nsizes dn) s1"
    using key_run [OF t, of first_pass pre tp n m "linked (length pre + 1) dn" "names_len dn" dn ?later "length pre + 1 + nsizes dn" st js fo]
      assms(4,5) assms(7) [OF True] True by auto
  from element_run [OF assms(1) drop_app [OF t] assms(3) s1(2) _ assms(5,6), of k] s1(1) True show ?thesis by (simp add: item_text_def add.assoc)
qed

text \<open>All entries: separators are skipped, entries are linked.\<close>

definition items_text :: "(64 word \<Rightarrow> string) \<Rightarrow> json_serialize_opts \<Rightarrow> nat \<Rightarrow> bool \<Rightarrow> (string \<times> json_value) list \<Rightarrow> string" where
  "items_text fmt_g so i obj kvs = concat (map (\<lambda>kv. comma_text so i @ item_text fmt_g so i obj kv) kvs)"

lemma items_text_simps [simp]:
  "items_text fmt_g so i obj [] = []"
  "items_text fmt_g so i obj (kv # kvs) = comma_text so i @ item_text fmt_g so i obj kv @ items_text fmt_g so i obj kvs"
  by (simp_all add: items_text_def)

lemma comma_run:
  assumes "drop p text = comma_text so i @ rest"
    and "at_mode first_pass p (mk_flags (\<not> obj) True False False) (stage first_pass pre tp (cpay obj first_pass n m kis w nm) dn later) (Some (length pre)) al st"
  shows "\<exists>st'. parse_loop first_pass js fo text st = parse_loop first_pass js fo text st' \<and>
    at_mode first_pass (p + length (comma_text so i)) (mk_flags (\<not> obj) False False False)
      (stage first_pass pre tp (cpay obj first_pass n m kis w nm) dn later) (Some (length pre)) al st'"
proof -
  let ?ns = "stage first_pass pre tp (cpay obj first_pass n m kis w nm) dn later" and ?ws = "spaced so f_spaces_after_commas @ newline_text so i"
  have t: "drop p text = CHR '','' # ?ws @ rest" using assms(1) by (simp add: comma_text_def)
  note q = drop_Cons_nth [OF t]
  have sk: "skips (\<not> obj) ?ns (Some (length pre))" by (simp add: skips_stage)
  obtain s1 where s1: "parse_step first_pass js fo text st = Continue s1" "at_mode first_pass (p + 1) (mk_flags (\<not> obj) False False False) ?ns (Some (length pre)) al s1"
    using comma_turn [OF assms(2) _ _ sk, of "text" js fo] q by blast
  have "drop (p + 1) text = ?ws @ rest" using q by simp
  from ws_run [OF s1(2) this _ sk, of js fo] ws_text obtain s2 where s2: "parse_loop first_pass js fo text s1 = parse_loop first_pass js fo text s2"
    "at_mode first_pass (p + 1 + length ?ws) (mk_flags (\<not> obj) False False False) ?ns (Some (length pre)) al s2" by auto
  have eq: "p + 1 + length ?ws = p + length (comma_text so i)" by (simp add: comma_text_def)
  have "parse_loop first_pass js fo text st = parse_loop first_pass js fo text s2" using s1(1) s2(1) by (simp add: parse_loop_runs [of first_pass js fo "text" st])
  with s2(2) [unfolded eq] show ?thesis by blast
qed

lemma items_run:
  assumes "\<And>k v. (k, v) \<in> set todo \<Longrightarrow> traces js fo text v (json_text fmt_g so i v) \<and> (obj \<longrightarrow> nul_free k)"
    and "drop p text = items_text fmt_g so i obj todo @ rest" and "delim rest"
    and "at_mode first_pass p (mk_flags (\<not> obj) True False False)
      (stage first_pass pre tp (cpay obj first_pass n m (linked (length pre + 1) dn) (names_len dn) None) dn
        (nodes_list True (length pre) (length pre + 1 + nsizes dn) todo @ later)) (Some (length pre)) (length pre + 1 + nsizes dn) st"
    and "length dn + length todo \<le> n" and "n \<le> UINT_MAX - 8" and "obj \<Longrightarrow> names_len dn + names_len todo \<le> m \<and> m \<le> UINT_MAX - 8"
  shows "\<exists>st'. parse_loop first_pass js fo text st = parse_loop first_pass js fo text st' \<and>
    at_mode first_pass (p + length (items_text fmt_g so i obj todo)) (mk_flags (\<not> obj) True False False)
      (stage first_pass pre tp (cpay obj first_pass n m (linked (length pre + 1) (dn @ todo)) (names_len (dn @ todo)) None) (dn @ todo) later)
      (Some (length pre)) (length pre + 1 + nsizes (dn @ todo)) st'"
  using assms
proof (induction todo arbitrary: p dn st)
  case Nil
  then show ?case by auto
next
  case (Cons kv todo)
  obtain k v where kv: "kv = (k, v)" by force
  let ?c = "length (comma_text so i)" and ?t = "item_text fmt_g so i obj (k, v)"
  let ?later = "nodes_list True (length pre) (length pre + 1 + nsizes (dn @ [(k, v)])) todo @ later"
  have t: "drop p text = comma_text so i @ ?t @ items_text fmt_g so i obj todo @ rest" using Cons.prems(2) kv by simp
  have d: "delim (items_text fmt_g so i obj todo @ rest)" using Cons.prems(3) by (cases todo) (simp_all add: delim_def comma_text_def)
  obtain s1 where s1: "parse_loop first_pass js fo text st = parse_loop first_pass js fo text s1"
    "at_mode first_pass (p + ?c) (mk_flags (\<not> obj) False False False)
      (stage first_pass pre tp (cpay obj first_pass n m (linked (length pre + 1) dn) (names_len dn) None) dn
        (nodes_of True (Some (length pre)) (length pre + 1 + nsizes dn) v @ ?later)) (Some (length pre)) (length pre + 1 + nsizes dn) s1"
    using comma_run [OF t Cons.prems(4), of js fo] kv by (auto simp: add.assoc)
  have k: "traces js fo text v (json_text fmt_g so i v)" "length dn < n" "obj \<Longrightarrow> nul_free k \<and> names_len dn + length k + 1 \<le> m \<and> m \<le> UINT_MAX - 8"
    using Cons.prems(1) [of k v] Cons.prems(5,7) kv by auto
  obtain s2 where s2: "parse_loop first_pass js fo text s1 = parse_loop first_pass js fo text s2"
    "at_mode first_pass (p + ?c + length ?t) (mk_flags (\<not> obj) True False False)
      (stage first_pass pre tp (cpay obj first_pass n m (linked (length pre + 1) (dn @ [(k, v)])) (names_len (dn @ [(k, v)])) None) (dn @ [(k, v)]) ?later)
      (Some (length pre)) (length pre + 1 + nsizes (dn @ [(k, v)])) s2"
    using item_run [OF k(1) drop_app [OF t] d s1(2) k(2) Cons.prems(6) k(3)] by blast
  have "drop (p + ?c + length ?t) text = items_text fmt_g so i obj todo @ rest" by (rule drop_app [OF drop_app [OF t]])
  from Cons.IH [OF _ this Cons.prems(3) s2(2)] Cons.prems(1,5-7) s1(1) s2(1) kv show ?case by (auto simp: add.assoc)
qed

section \<open>Values\<close>

text \<open>
  The values that have a text of their own: no doubles, no missing value, no NUL byte in
  strings, and booleans 0 and 1. Sizes are within the parser's limits.
\<close>

fun printable :: "json_value \<Rightarrow> bool" where
  "printable (JArray vs) = (\<forall>v \<in> set vs. printable v)"
| "printable (JObject kvs) = (\<forall>(k, v) \<in> set kvs. nul_free k \<and> printable v)"
| "printable (JInteger i) = (i \<noteq> - (2 ^ 63))"
| "printable (JString s) = nul_free s"
| "printable (JBoolean b) = (b = 0 \<or> b = 1)"
| "printable JNull = True"
| "printable _ = False"

fun small :: "json_value \<Rightarrow> bool" where
  "small (JArray vs) = (length vs \<le> UINT_MAX - 8 \<and> (\<forall>v \<in> set vs. small v))"
| "small (JObject kvs) = (length kvs \<le> UINT_MAX - 8 \<and> names_len kvs \<le> UINT_MAX - 8 \<and> (\<forall>(k, v) \<in> set kvs. small v))"
| "small (JString s) = (length s \<le> UINT_MAX - 8)"
| "small _ = True"

definition open_ws :: "json_serialize_opts \<Rightarrow> nat \<Rightarrow> string" where
  "open_ws so i = spaced so f_spaces_around_brackets @ newline_text so (i + so_indent_size so)"

definition close_ws :: "json_serialize_opts \<Rightarrow> nat \<Rightarrow> string" where
  "close_ws so i = newline_text so i @ spaced so f_spaces_around_brackets"

lemma container_text:
  assumes "is_container v"
  shows "json_text fmt_g so i v =
    (case kids v of
       [] \<Rightarrow> [opn (is_object v), cls (is_object v)]
     | kv # kvs \<Rightarrow> opn (is_object v) # open_ws so i @ item_text fmt_g so (i + so_indent_size so) (is_object v) kv
         @ items_text fmt_g so (i + so_indent_size so) (is_object v) kvs @ close_ws so i @ [cls (is_object v)])"
proof (cases v)
  case (JArray vs)
  then show ?thesis
    by (cases vs) (simp_all add: bracketed_def opn_def cls_def open_ws_def close_ws_def item_text_def items_text_def join_text_def comp_def)
next
  case (JObject kvs)
  then show ?thesis
    by (cases kvs) (simp_all add: bracketed_def opn_def cls_def open_ws_def close_ws_def item_text_def items_text_def join_text_def comp_def case_prod_beta)
qed (use assms in simp_all)

lemma pay_container:
  assumes "is_container v"
  shows "pay first_pass base v = cpay (is_object v) first_pass (length (kids v)) (names_len (kids v)) (linked (base + 1) (kids v)) (names_len (kids v)) None"
  using assms by (cases v) (simp_all add: pay_def)

lemma opened_pay:
  assumes "is_container v"
  shows "(if first_pass then zero_payload (ctype (is_object v)) else filled (pay True base v)) =
    cpay (is_object v) first_pass (length (kids v)) (names_len (kids v)) (linked (base + 1) []) (names_len []) None"
  using pay_container [OF assms, of True base] by (simp add: cpay_def ctype_def linked_def)

lemma container_small:
  assumes "is_container v" and "small v"
  shows "length (kids v) \<le> UINT_MAX - 8" "is_object v \<Longrightarrow> names_len (kids v) \<le> UINT_MAX - 8" "askable (pay True base v)"
  using assms pay_container [OF assms(1), of True base] by (cases v; simp add: cpay_def)+

lemma delim_ws: "list_all is_ws ws \<Longrightarrow> delim (ws @ cls obj # rest)"
  by (cases ws) (simp_all add: delim_def cls_def)

lemma container_traces:
  assumes "is_container v" and "generous js" and "small v" and "printable v"
    and "\<And>k w. (k, w) \<in> set (kids v) \<Longrightarrow> traces js fo text w (json_text fmt_g so (i + so_indent_size so) w)"
  shows "traces js fo text v (json_text fmt_g so i v)"
  unfolding traces_def
proof (intro allI impI, elim conjE)
  fix first_pass p tp post st rest and pre :: "node list"
  let ?obj = "is_object v" and ?n = "length (kids v)" and ?m = "names_len (kids v)" and ?base = "length pre" and ?i = "i + so_indent_size so" and ?txt = "json_text fmt_g so i v"
  assume a: "drop p text = ?txt @ rest" "delim rest" "tp = None \<longrightarrow> pre = []"
    and at: "at_mode first_pass p (mk_flags True False False False) (pre @ (if first_pass then [] else nodes_of True tp ?base v @ post)) tp ?base st"
  let ?c = "\<lambda>dn. cpay ?obj first_pass ?n ?m (linked (?base + 1) dn) (names_len dn) None"
  let ?stage = "\<lambda>dn todo. stage first_pass pre tp (?c dn) dn (nodes_list True ?base (?base + 1 + nsizes dn) todo @ post)"
  have close: "\<exists>u. parse_loop first_pass js fo text s = runs first_pass js fo text (next_section u) \<and>
      ended first_pass (p + length ?txt) (pre @ nodes_of first_pass tp ?base v @ (if first_pass then [] else post)) ?base (?base + nsize v) u"
    if c: "at_mode first_pass q (mk_flags (\<not> ?obj) c False False) (?stage (kids v) []) (Some ?base) (?base + 1 + nsizes (kids v)) s"
      "drop q text = ws @ cls ?obj # rest" "list_all is_ws ws" "q + length ws + 1 = p + length ?txt" for q c s ws
  proof -
    have sk: "skips (\<not> ?obj) (?stage (kids v) []) (Some ?base)" by (simp add: skips_stage)
    obtain s' where s': "parse_loop first_pass js fo text s = parse_loop first_pass js fo text s'"
      "at_mode first_pass (q + length ws) (mk_flags (\<not> ?obj) c False False) (?stage (kids v) []) (Some ?base) (?base + 1 + nsizes (kids v)) s'"
      using ws_run [OF c(1-3) sk] by blast
    note r = drop_Cons_nth [OF drop_app [OF c(2)]]
    have ty: "payload_type (nd_val (?stage (kids v) [] ! ?base)) = ctype ?obj" by (simp add: stage_nth cpay_type)
    have ns: "?stage (kids v) [] = pre @ nodes_of first_pass tp ?base v @ (if first_pass then [] else post)"
      by (simp add: stage_def nodes_of.simps pay_container [OF assms(1)])
    have sz: "?base + 1 + nsizes (kids v) = ?base + nsize v" using nsize_kids(1) [OF assms(1)] by simp
    from close_turn [OF s'(2) ty, of "text" js fo] r s'(1) show ?thesis
      unfolding ns unfolding sz c(4) by (auto simp: parse_loop_runs [of first_pass js fo "text" s'])
  qed
  have aw: "pre @ (if first_pass then [] else nodes_of True tp ?base v @ post) = awaiting first_pass pre tp (pay True ?base v) (nodes_list True ?base (?base + 1) (kids v) @ post)"
    by (simp add: awaiting_def nodes_of.simps)
  have t: "drop p text = opn ?obj # tl ?txt @ rest" using a(1) container_text [OF assms(1), of fmt_g so i] by (cases "kids v") simp_all
  note q = drop_Cons_nth [OF t] and sm = container_small [OF assms(1,3)]
  obtain s1 where s1: "parse_step first_pass js fo text st = Continue s1"
    "at_mode first_pass (p + 1) (mk_flags (\<not> ?obj) False False False) (?stage [] (kids v)) (Some ?base) (?base + 1) s1"
    using open_turn [OF at [unfolded aw] assms(2) sm(3), of "text" ?obj fo] q a(3) unfolding opened_pay [OF assms(1)]
    by (auto simp: layout_def stage_def)
  show "\<exists>u. parse_loop first_pass js fo text st = runs first_pass js fo text (next_section u) \<and>
      ended first_pass (p + length ?txt) (pre @ nodes_of first_pass tp ?base v @ (if first_pass then [] else post)) ?base (?base + nsize v) u"
  proof (cases "kids v")
    case Nil
    with close [of "p + 1" False s1 "[]"] s1 q container_text [OF assms(1), of fmt_g so i] show ?thesis
      by (simp add: parse_loop_runs [of first_pass js fo "text" st])
  next
    case (Cons kv kvs)
    obtain k w where kv: "kv = (k, w)" by force
    let ?it = "item_text fmt_g so ?i ?obj (k, w)" and ?its = "items_text fmt_g so ?i ?obj kvs" and ?ow = "open_ws so i" and ?cw = "close_ws so i"
    have nul: "?obj \<longrightarrow> nul_free k'" if "(k', w') \<in> set (kids v)" for k' w' using assms(4) that by (cases v) auto
    have eqt: "?txt = opn ?obj # ?ow @ ?it @ ?its @ ?cw @ [cls ?obj]" using container_text [OF assms(1), of fmt_g so i] Cons kv by simp
    have t1: "drop (p + 1) text = ?ow @ ?it @ ?its @ ?cw @ cls ?obj # rest" using q eqt by simp
    have ow: "list_all is_ws ?ow" "list_all is_ws ?cw" using ws_text by (simp_all add: open_ws_def close_ws_def)
    note d2 = delim_ws [OF ow(2), of ?obj rest]
    then have d1: "delim (?its @ ?cw @ cls ?obj # rest)" by (cases kvs) (simp_all add: delim_def comma_text_def)
    obtain s2 where s2: "parse_loop first_pass js fo text s1 = parse_loop first_pass js fo text s2"
      "at_mode first_pass (p + 1 + length ?ow) (mk_flags (\<not> ?obj) False False False) (?stage [] (kids v)) (Some ?base) (?base + 1) s2"
      using ws_run [OF s1(2) t1 ow(1)] by (auto simp: skips_stage)
    have st2: "?stage [] (kids v) = stage first_pass pre tp (?c []) [] (nodes_of True (Some ?base) (?base + 1 + nsizes []) w @ nodes_list True ?base (?base + 1 + nsizes [(k, w)]) kvs @ post)"
      using Cons kv by simp
    note t2 = drop_app [OF t1]
    have k: "traces js fo text w (json_text fmt_g so ?i w)" "?obj \<Longrightarrow> nul_free k \<and> names_len [] + length k + 1 \<le> ?m \<and> ?m \<le> UINT_MAX - 8"
      "length ([] :: (string \<times> json_value) list) < ?n"
      using assms(5) [of k w] nul [of k w] sm(2) Cons kv by auto
    obtain s3 where s3: "parse_loop first_pass js fo text s2 = parse_loop first_pass js fo text s3"
      "at_mode first_pass (p + 1 + length ?ow + length ?it) (mk_flags (\<not> ?obj) True False False) (?stage [(k, w)] kvs) (Some ?base) (?base + 1 + nsizes [(k, w)]) s3"
      using item_run [OF k(1) t2 d1 _ k(3) sm(1) k(2), of first_pass pre tp _ s2] s2(2) [unfolded st2] by auto
    have its: "\<And>k' w'. (k', w') \<in> set kvs \<Longrightarrow> traces js fo text w' (json_text fmt_g so ?i w') \<and> (?obj \<longrightarrow> nul_free k')"
      "length [(k, w)] + length kvs \<le> ?n" "?obj \<Longrightarrow> names_len [(k, w)] + names_len kvs \<le> ?m \<and> ?m \<le> UINT_MAX - 8" "[(k, w)] @ kvs = kids v"
      using assms(5) nul sm(2) Cons kv by auto
    obtain s4 where s4: "parse_loop first_pass js fo text s3 = parse_loop first_pass js fo text s4"
      "at_mode first_pass (p + 1 + length ?ow + length ?it + length ?its) (mk_flags (\<not> ?obj) True False False) (?stage (kids v) []) (Some ?base) (?base + 1 + nsizes (kids v)) s4"
      using items_run [OF its(1) drop_app [OF t2] d2 s3(2) its(2) sm(1) its(3)] unfolding its(4) by auto
    from close [OF s4(2) drop_app [OF drop_app [OF t2]] ow(2)] eqt s1(1) s2(1) s3(1) s4(1) show ?thesis
      by (simp add: parse_loop_runs [of first_pass js fo "text" st] add.assoc)
  qed
qed

lemma atom_nodes: "\<not> is_container v \<Longrightarrow> nodes_of first_pass tp base v = [\<lparr>nd_parent = tp, nd_val = pay first_pass base v\<rparr>]"
  using nsize_kids(2) [of v] by (simp add: nodes_of.simps)

text \<open>A value without entries, whose run is known.\<close>

lemma atom_traces:
  assumes "\<not> is_container v"
    and "\<And>first_pass p pre tp post st rest. drop p text = txt @ rest \<Longrightarrow> delim rest \<Longrightarrow> (tp = None \<Longrightarrow> pre = []) \<Longrightarrow>
      at_mode first_pass p (mk_flags True False False False) (awaiting first_pass pre tp (pay True (length pre) v) post) tp (length pre) st \<Longrightarrow>
      \<exists>u. parse_loop first_pass js fo text st = runs first_pass js fo text (next_section u) \<and>
        ended first_pass (p + length txt) (layout first_pass pre tp (pay first_pass (length pre) v) post) (length pre) (length pre + 1) u"
  shows "traces js fo text v txt"
  unfolding traces_def
proof (intro allI impI, elim conjE)
  fix first_pass p tp post st rest and pre :: "node list"
  assume a: "drop p text = txt @ rest" "delim rest" "tp = None \<longrightarrow> pre = []"
    "at_mode first_pass p (mk_flags True False False False) (pre @ (if first_pass then [] else nodes_of True tp (length pre) v @ post)) tp (length pre) st"
  have "at_mode first_pass p (mk_flags True False False False) (awaiting first_pass pre tp (pay True (length pre) v) post) tp (length pre) st"
    using a(4) by (cases first_pass) (simp_all add: atom_nodes [OF assms(1)] awaiting_def)
  from assms(2) [OF a(1,2) _ this] a(3) nsize_kids(2) [OF assms(1)]
  show "\<exists>u. parse_loop first_pass js fo text st = runs first_pass js fo text (next_section u) \<and>
      ended first_pass (p + length txt) (pre @ nodes_of first_pass tp (length pre) v @ (if first_pass then [] else post)) (length pre) (length pre + nsize v) u"
    by (cases first_pass) (simp_all add: atom_nodes [OF assms(1)] layout_def)
qed

lemma literal_traces:
  assumes "generous js" and "(txt, w) \<in> {(''null'', V_Null), (''true'', V_Boolean 1), (''false'', V_Boolean 0)}" and "\<not> is_container v" and "\<And>first_pass base. pay first_pass base v = w"
  shows "traces js fo text v txt"
proof (rule atom_traces [OF assms(3)])
  fix first_pass p tp post st rest and pre :: "node list"
  assume a: "drop p text = txt @ rest" "tp = None \<Longrightarrow> pre = []"
    "at_mode first_pass p (mk_flags True False False False) (awaiting first_pass pre tp (pay True (length pre) v) post) tp (length pre) st"
  from literal_turn [OF a(3) [unfolded assms(4)] assms(1) a(2,1) assms(2), of fo]
  show "\<exists>u. parse_loop first_pass js fo text st = runs first_pass js fo text (next_section u) \<and>
      ended first_pass (p + length txt) (layout first_pass pre tp (pay first_pass (length pre) v) post) (length pre) (length pre + 1) u"
    unfolding assms(4) by (auto simp: parse_loop_runs [of first_pass js fo "text" st])
qed

lemma value_traces:
  assumes "generous js"
  shows "printable v \<Longrightarrow> small v \<Longrightarrow> traces js fo text v (json_text fmt_g so i v)"
proof (induction v arbitrary: i)
  case (JObject kvs)
  have "traces js fo text w (json_text fmt_g so j w)" if "(k, w) \<in> set kvs" for k w j
    using JObject.IH [of "(k, w)" w j] JObject.prems that by auto
  then show ?case by (intro container_traces [OF _ assms JObject.prems(2,1)]) simp_all
next
  case (JArray vs)
  then show ?case by (intro container_traces [OF _ assms JArray.prems(2,1)]) auto
next
  case (JInteger n)
  show ?case
  proof (rule atom_traces)
    fix first_pass p tp post st rest and pre :: "node list"
    assume a: "drop p text = json_text fmt_g so i (JInteger n) @ rest" "delim rest" "tp = None \<Longrightarrow> pre = []"
      "at_mode first_pass p (mk_flags True False False False) (awaiting first_pass pre tp (pay True (length pre) (JInteger n)) post) tp (length pre) st"
    from number_value_run [OF a(4) [unfolded pay_def, simplified] assms a(3) _ a(2)] a(1) JInteger.prems
    show "\<exists>u. parse_loop first_pass js fo text st = runs first_pass js fo text (next_section u) \<and>
        ended first_pass (p + length (json_text fmt_g so i (JInteger n))) (layout first_pass pre tp (pay first_pass (length pre) (JInteger n)) post) (length pre) (length pre + 1) u"
      by (simp add: pay_def)
  qed simp
next
  case (JString s)
  show ?case
  proof (rule atom_traces)
    fix first_pass p tp post st rest and pre :: "node list"
    assume a: "drop p text = json_text fmt_g so i (JString s) @ rest" "tp = None \<Longrightarrow> pre = []"
      "at_mode first_pass p (mk_flags True False False False) (awaiting first_pass pre tp (pay True (length pre) (JString s)) post) tp (length pre) st"
    from string_value_run [OF a(3) [unfolded pay_def, simplified] assms a(2)] a(1) JString.prems
    show "\<exists>u. parse_loop first_pass js fo text st = runs first_pass js fo text (next_section u) \<and>
        ended first_pass (p + length (json_text fmt_g so i (JString s))) (layout first_pass pre tp (pay first_pass (length pre) (JString s)) post) (length pre) (length pre + 1) u"
      by (simp add: pay_def)
  qed simp
next
  case (JBoolean b)
  then have "b = 0 \<or> b = 1" by simp
  then show ?case by (intro literal_traces [OF assms, where w = "V_Boolean b"]) (auto simp: pay_def)
next
  case JNull
  then show ?case by (intro literal_traces [OF assms, where w = V_Null]) (auto simp: pay_def)
qed simp_all

section \<open>Both passes\<close>

lemma root_ended:
  assumes "ended first_pass p ns i al u" and "nd_parent (ns ! i) = None"
  shows "\<exists>st. next_section u = Continue st \<and> ps_ptr st = p \<and> fl_done (ps_flags st) \<and> \<not> fl_string (ps_flags st) \<and>
    \<not> fl_line_comment (ps_flags st) \<and> \<not> fl_block_comment (ps_flags st) \<and> ps_heap st = ps_heap u"
  using assms by (auto simp: ended_def heap_at_def num_flags_eq_def next_section_def Let_def top_parent_def)

lemma done_turn:
  assumes "ps_ptr st = length text" and "fl_done (ps_flags st)" and "\<not> fl_string (ps_flags st)" and "\<not> fl_line_comment (ps_flags st)" and "\<not> fl_block_comment (ps_flags st)"
  shows "parse_loop first_pass js fo text st = Some (Inr st)"
  using assms by (simp add: parse_loop_runs runs_def parse_step_def Let_def string_section_def comment_section_def done_section_def then_flow_def)

lemma pass_run:
  assumes "traces js fo text v text"
    and "at_mode first_pass 0 (mk_flags True False False False) (if first_pass then [] else nodes_of True None 0 v) None 0 st"
  shows "\<exists>u. parse_loop first_pass js fo text st = Some (Inr u) \<and> heap_at first_pass (nodes_of first_pass None 0 v) (Some 0) (nsize v) (ps_heap u)"
proof -
  from assms(2) have at: "at_mode first_pass 0 (mk_flags True False False False) ([] @ (if first_pass then [] else nodes_of True None (length []) v @ [])) None (length ([] :: node list)) st"
    by (cases first_pass) simp_all
  obtain u where u: "parse_loop first_pass js fo text st = runs first_pass js fo text (next_section u)"
    "ended first_pass (length text) (nodes_of first_pass None 0 v) 0 (nsize v) u"
    using tracesD [OF assms(1) _ _ _ at, of "[]"] by (auto simp: delim_def)
  have "nd_parent (nodes_of first_pass None 0 v ! 0) = None" by (simp add: nodes_of.simps)
  from root_ended [OF u(2) this] obtain w where "next_section u = Continue w" "ps_ptr w = length text" "fl_done (ps_flags w)"
    "\<not> fl_string (ps_flags w)" "\<not> fl_line_comment (ps_flags w)" "\<not> fl_block_comment (ps_flags w)" "ps_heap w = ps_heap u" by blast
  with u done_turn [of w "text" first_pass js fo] show ?thesis by (auto simp: ended_def)
qed

lemma start_at_mode:
  assumes "\<not> first_pass \<Longrightarrow> h_alloc h = (if 0 < length (h_nodes h) then Some 0 else None)" and "h_used h = 0"
  shows "at_mode first_pass 0 (mk_flags True False False False) (h_nodes h) None 0 (start_pass h)"
  using assms by (auto simp: at_mode_def start_pass_def num_flags_eq_def heap_at_def)

text \<open>The tree that hangs below a value of the second pass.\<close>

lemma node_value_nodes:
  "printable v \<Longrightarrow> nsize v \<le> d \<Longrightarrow> base = length pre \<Longrightarrow> \<not> first_pass \<Longrightarrow>
     node_value d (pre @ nodes_of first_pass par base v @ post) base = v"
  "(\<forall>(k, v) \<in> set kvs. printable v) \<Longrightarrow> nsizes kvs \<le> d \<Longrightarrow> b = length pre \<Longrightarrow> \<not> first_pass \<Longrightarrow>
     map (\<lambda>(k, i). (k, node_value d (pre @ nodes_list first_pass q b kvs @ post) i)) (linked b kvs) = kvs"
proof (induction first_pass par base v and first_pass q b kvs arbitrary: pre post d and pre post d rule: nodes_of_nodes_list.induct)
  case (1 first_pass par base v)
  from 1(3) obtain d' where d: "d = Suc d'" by (cases d) (use nsize_pos [of v] in auto)
  let ?ns = "pre @ nodes_of first_pass par base v @ post"
  have p: "nd_val (?ns ! base) = pay False base v" using 1(4,5) by (simp add: nodes_of.simps)
  show ?case
  proof (cases "is_container v")
    case True
    have pk: "\<forall>(k, w) \<in> set (kids v). printable w" using 1(2) True by (cases v) auto
    have "map (\<lambda>(k, i). (k, node_value d' ?ns i)) (linked (base + 1) (kids v)) = kids v"
      using 1(1) [OF pk, of d' "pre @ [\<lparr>nd_parent = par, nd_val = pay first_pass base v\<rparr>]" post] 1(3-5) d nsize_kids(1) [OF True]
      by (simp add: nodes_of.simps)
    note k = this and elems = arg_cong [OF this, of "map snd"]
    show ?thesis
    proof (cases v)
      case (JArray vs)
      with elems p d show ?thesis by (simp add: pay_def cpay_def comp_def case_prod_beta)
    next
      case (JObject kvs)
      with k p d show ?thesis by (simp add: pay_def cpay_def)
    qed (use True in simp_all)
  next
    case False
    then show ?thesis using p d 1(2) by (cases v) (simp_all add: pay_def)
  qed
next
  case (2 first_pass q b)
  then show ?case by (simp add: linked_def)
next
  case (3 first_pass q b k v kvs)
  have "node_value d (pre @ nodes_list first_pass q b ((k, v) # kvs) @ post) b = v"
    using 3(1) [of d pre "nodes_list first_pass q (b + nsize v) kvs @ post"] 3(3-6) by simp
  moreover have "map (\<lambda>(k, i). (k, node_value d (pre @ nodes_list first_pass q b ((k, v) # kvs) @ post) i)) (linked (b + nsize v) kvs) = kvs"
    using 3(2) [of d "pre @ nodes_of first_pass (Some q) b v" post] 3(3-6) by (simp add: nodes_length)
  ultimately show ?case by (simp add: linked_def)
qed

lemma parse_of_text:
  assumes "traces js fo text v text" and "generous js" and "printable v" and "skip_bom text = text"
  shows "json_parse_ex js fo text = Some (Inr v)"
proof -
  have "at_mode True 0 (mk_flags True False False False) (if True then [] else nodes_of True None 0 v) None 0 (start_pass empty_heap)"
    using start_at_mode [of True empty_heap] by (simp add: empty_heap_def)
  from pass_run [OF assms(1) this] obtain u where u: "parse_loop True js fo text (start_pass empty_heap) = Some (Inr u)"
    "heap_at True (nodes_of True None 0 v) (Some 0) (nsize v) (ps_heap u)" by blast
  let ?h = "(ps_heap u)\<lparr>h_alloc := h_root (ps_heap u)\<rparr>"
  have "nodes_of True None 0 v \<noteq> []" by (simp add: nodes_of.simps)
  then have "at_mode False 0 (mk_flags True False False False) (if False then [] else nodes_of True None 0 v) None 0 (start_pass ?h)"
    using start_at_mode [of False ?h] u(2) by (simp add: heap_at_def nodes_length)
  from pass_run [OF assms(1) this] obtain w where w: "parse_loop False js fo text (start_pass ?h) = Some (Inr w)"
    "heap_at False (nodes_of False None 0 v) (Some 0) (nsize v) (ps_heap w)" by blast
  have "node_value (nsize v) (nodes_of False None 0 v) 0 = v"
    using node_value_nodes(1) [OF assms(3), of "nsize v" 0 "[]" False None "[]"] by simp
  with u w assms(4) show ?thesis by (simp add: json_parse_ex_def heap_at_def nodes_length)
qed

section \<open>Texts\<close>

lemma length_serialize_le: "length s \<le> length (serialize_string s)"
  by (induction s) (simp_all add: serialize_string_char)

lemma length_key_text: "length k + 3 \<le> length (key_text so k)"
  using length_serialize_le [of k] by (simp add: key_text_def)

lemma length_items_text:
  "length kvs \<le> length (items_text fmt_g so i obj kvs)"
  "obj \<Longrightarrow> names_len kvs \<le> length (items_text fmt_g so i obj kvs)"
  "(k, w) \<in> set kvs \<Longrightarrow> length (json_text fmt_g so i w) \<le> length (items_text fmt_g so i obj kvs)"
proof (induction kvs)
  case (Cons kv kvs)
  {
    case 1
    then show ?case using Cons by (simp add: comma_text_def)
  next
    case 2
    then show ?case using Cons length_key_text [of "fst kv" so] by (cases kv) (simp add: item_text_def)
  next
    case 3
    then show ?case using Cons by (auto simp: item_text_def)
  }
qed simp_all

lemma length_container_text:
  assumes "is_container v"
  shows "length (kids v) \<le> length (json_text fmt_g so i v)"
    "is_object v \<Longrightarrow> names_len (kids v) \<le> length (json_text fmt_g so i v)"
    "(k, w) \<in> set (kids v) \<Longrightarrow> length (json_text fmt_g so (i + so_indent_size so) w) \<le> length (json_text fmt_g so i v)"
proof -
  let ?i = "i + so_indent_size so"
  note l = length_items_text(1,2) [where fmt_g = fmt_g and so = so and i = ?i and obj = "is_object v"] length_items_text(3) [where fmt_g = fmt_g and so = so and i = ?i and obj = "is_object v"]
  show "length (kids v) \<le> length (json_text fmt_g so i v)"
    using l(1) [of "tl (kids v)"] by (cases "kids v") (simp_all add: container_text [OF assms])
  show "names_len (kids v) \<le> length (json_text fmt_g so i v)" if "is_object v"
    using l(2) [of "tl (kids v)"] length_key_text [of "fst (hd (kids v))" so] that
    by (cases "kids v"; cases "hd (kids v)") (simp_all add: container_text [OF assms] item_text_def)
  show "length (json_text fmt_g so ?i w) \<le> length (json_text fmt_g so i v)" if "(k, w) \<in> set (kids v)"
    using that l(3) [of k w "tl (kids v)"] by (cases "kids v") (auto simp: container_text [OF assms] item_text_def)
qed

lemma small_text: "length (json_text fmt_g so i v) \<le> UINT_MAX - 8 \<Longrightarrow> small v"
proof (induction v arbitrary: i)
  case (JObject kvs)
  have "small w" if "(k, w) \<in> set kvs" for k w
    using JObject.IH [OF that, of w "i + so_indent_size so"] length_container_text(3) [of "JObject kvs" k w fmt_g so i] that JObject.prems by simp
  then show ?case using length_container_text(1,2) [of "JObject kvs" fmt_g so i] JObject.prems by auto
next
  case (JArray vs)
  have "small w" if "w \<in> set vs" for w
    using JArray.IH [OF that, of "i + so_indent_size so"] length_container_text(3) [of "JArray vs" "[]" w fmt_g so i] that JArray.prems by simp
  then show ?case using length_container_text(1) [of "JArray vs" fmt_g so i] JArray.prems by auto
next
  case (JString s)
  then show ?case using length_serialize_le [of s] by simp
qed simp_all

lemma json_text_head:
  assumes "printable v"
  shows "json_text fmt_g so i v \<noteq> [] \<and> hd (json_text fmt_g so i v) \<noteq> CHR 0xEF"
proof (cases "is_container v")
  case True
  then show ?thesis by (cases "kids v") (simp_all add: container_text opn_def)
next
  case False
  show ?thesis
  proof (cases v)
    case (JInteger n)
    with assms have "n \<noteq> - (2 ^ 63)" by simp
    from int_text_num [OF this] obtain m where m: "int_text (sint n) = (if sint n < 0 then CHR ''-'' # dec_digits m else dec_digits m)" by metis
    have d: "dec_digits m \<noteq> []" "\<forall>c \<in> set (dec_digits m). is_digit c" using dec_digits_read [of m] by blast+
    then have "is_digit (hd (dec_digits m))" by simp
    then have "hd (dec_digits m) \<noteq> CHR 0xEF" by (auto simp: is_digit_def)
    with m d(1) JInteger show ?thesis by simp
  qed (use assms False in simp_all)
qed

lemma skip_bom_text: "text \<noteq> [] \<Longrightarrow> hd text \<noteq> CHR 0xEF \<Longrightarrow> skip_bom text = text"
  by (cases "text") (simp_all add: skip_bom_def)

lemma printable_safe: "printable v \<Longrightarrow> json_safe v"
  by (induction v) auto

lemma parse_json_text:
  assumes "generous js" and "printable v" and "length (json_text fmt_g so i v) \<le> UINT_MAX - 8"
  shows "json_parse_ex js fo (json_text fmt_g so i v) = Some (Inr v)"
  using parse_of_text [OF value_traces [OF assms(1,2) small_text [OF assms(3)]] assms(1,2)]
    skip_bom_text [of "json_text fmt_g so i v"] json_text_head [OF assms(2), of fmt_g so i] by blast

lemma set_commas: "set (commas xss) \<subseteq> insert Ev_Comma (\<Union>xs \<in> set xss. set xs)"
  by (cases xss) (auto simp: commas_def)

lemma printable_events: "printable v \<Longrightarrow> ev \<in> set (json_events v) \<Longrightarrow> exact_event ev"
proof (induction v arbitrary: ev)
  case (JArray vs)
  from JArray.prems(2) set_commas [of "map json_events vs"]
  have "ev \<in> {Ev_Empty False, Ev_Open False, Ev_Close False, Ev_Comma} \<or> (\<exists>w \<in> set vs. ev \<in> set (json_events w))"
    by (auto split: if_splits)
  then show ?case using JArray.IH JArray.prems(1) by (auto simp: exact_event_def safe_event_def)
next
  case (JObject kvs)
  from JObject.prems(2) set_commas [of "map (\<lambda>(k, v). Ev_Key k # json_events v) kvs"]
  have "ev \<in> {Ev_Empty True, Ev_Open True, Ev_Close True, Ev_Comma} \<or> (\<exists>(k, w) \<in> set kvs. ev = Ev_Key k \<or> ev \<in> set (json_events w))"
    by (auto split: if_splits)
  then show ?case
  proof (elim disjE bexE)
    fix kw
    assume kw: "kw \<in> set kvs" "case kw of (k, w) \<Rightarrow> ev = Ev_Key k \<or> ev \<in> set (json_events w)"
    obtain k w where "kw = (k, w)" by force
    with kw JObject.IH [of kw w ev] JObject.prems(1) show ?thesis by (auto simp: exact_event_def safe_event_def)
  qed (auto simp: exact_event_def safe_event_def)
qed (auto simp: exact_event_def safe_event_def)

lemma printable_exact: "printable v \<Longrightarrow> json_exact v"
  using printable_events by (simp add: json_exact_def)

lemma serialize_nul_free: "nul_free s \<Longrightarrow> nul_free (serialize_string s)"
  by (induction s) (auto simp: serialize_string_char)

lemma nul_free_ws: "list_all is_ws ws \<Longrightarrow> nul_free ws"
  by (induction ws) (auto simp: is_ws_def)

lemma key_nul_free: "nul_free k \<Longrightarrow> nul_free (key_text so k)"
  by (simp add: key_text_def serialize_nul_free)

lemma items_nul_free:
  assumes "\<And>k w. (k, w) \<in> set kvs \<Longrightarrow> nul_free (json_text fmt_g so i w) \<and> (obj \<longrightarrow> nul_free k)"
  shows "nul_free (items_text fmt_g so i obj kvs)"
  using assms
proof (induction kvs)
  case (Cons kv kvs)
  obtain k w where kv: "kv = (k, w)" by force
  have "nul_free (comma_text so i)" using nul_free_ws [OF ws_text(1)] by (simp add: comma_text_def)
  moreover have "nul_free (item_text fmt_g so i obj kv)" using Cons.prems [of k w] kv by (auto simp: item_text_def key_nul_free)
  ultimately show ?case using Cons by auto
qed simp

lemma json_text_nul_free: "printable v \<Longrightarrow> nul_free (json_text fmt_g so i v)"
proof (induction v arbitrary: i)
  case (JObject kvs)
  have *: "nul_free (json_text fmt_g so (i + so_indent_size so) w) \<and> nul_free k" if "(k, w) \<in> set kvs" for k w
    using JObject.IH [OF that, of w] JObject.prems that by auto
  show ?case
  proof (cases kvs)
    case (Cons kv l)
    have "nul_free (items_text fmt_g so (i + so_indent_size so) True l)" by (rule items_nul_free) (use * Cons in auto)
    moreover have "nul_free (json_text fmt_g so (i + so_indent_size so) (snd kv))" "nul_free (key_text so (fst kv))"
      using * [of "fst kv" "snd kv"] Cons key_nul_free [of "fst kv" so] by simp_all
    ultimately show ?thesis
      unfolding Cons by (subst container_text) (simp_all add: opn_def cls_def open_ws_def close_ws_def item_text_def nul_free_ws [OF ws_text(1)] del: json_text.simps)
  qed simp
next
  case (JArray vs)
  have *: "nul_free (json_text fmt_g so (i + so_indent_size so) w)" if "w \<in> set vs" for w
    using JArray.IH [OF that] JArray.prems that by auto
  show ?case
  proof (cases vs)
    case (Cons v l)
    have "nul_free (items_text fmt_g so (i + so_indent_size so) False (map (Pair []) l))" by (rule items_nul_free) (use * Cons in auto)
    moreover have "nul_free (json_text fmt_g so (i + so_indent_size so) v)" using * [of v] Cons by simp
    ultimately show ?thesis
      unfolding Cons by (subst container_text) (simp_all add: opn_def cls_def open_ws_def close_ws_def item_text_def nul_free_ws [OF ws_text(1)] del: json_text.simps)
  qed simp
next
  case (JInteger n)
  then have "n \<noteq> - (2 ^ 63)" by simp
  from int_text_num [OF this] obtain m where m: "int_text (sint n) = (if sint n < 0 then CHR ''-'' # dec_digits m else dec_digits m)" by metis
  have "\<forall>c \<in> set (dec_digits m). is_digit c" using dec_digits_read [of m] by blast
  moreover have "\<not> is_digit NUL" by (simp add: is_digit_def)
  ultimately have "nul_free (dec_digits m)" unfolding nul_free_def by blast
  with m show ?case by simp
qed (auto simp: serialize_nul_free)

section \<open>Properties\<close>



end
