(* ===== verification/Client.thy ===== *)
theory Client
  imports Pyoneer Json_Round_Trip
begin

text \<open>
  The connection handler \<^verbatim>\<open>client_handle_fd\<close> of \<^verbatim>\<open>api/client.c\<close>: one message
  is received, parsed, authorised and dispatched to the facade, and one reply is written
  from a buffer of fixed size. What the parser's allocator does, its operations on doubles
  and the \<^verbatim>\<open>%g\<close> format of the C library are arguments. Log lines are not part of the
  result.
\<close>

section \<open>Messages\<close>

datatype api_err =
    ERR_INTERNAL
  | ERR_SHUTTING_DOWN
  | ERR_CMD
  | ERR_BLUEPRINT
  | ERR_SIGNAL
  | ERR_JSON_PARSE
  | ERR_JSON_TYPE
  | ERR_JSON_MISSING
  | ERR_TOKEN

fun API_ERR_MSG :: "api_err \<Rightarrow> string" where
  "API_ERR_MSG ERR_INTERNAL = ''API: internal error''"
| "API_ERR_MSG ERR_SHUTTING_DOWN = ''API: shutting down''"
| "API_ERR_MSG ERR_CMD = ''API: command error''"
| "API_ERR_MSG ERR_BLUEPRINT = ''API: blueprint error''"
| "API_ERR_MSG ERR_SIGNAL = ''API: signal error''"
| "API_ERR_MSG ERR_JSON_PARSE = ''API: invalid JSON payload''"
| "API_ERR_MSG ERR_JSON_TYPE = ''API: invalid JSON type''"
| "API_ERR_MSG ERR_JSON_MISSING = ''API: missing JSON value''"
| "API_ERR_MSG ERR_TOKEN = ''API: invalid token''"

definition BUFLEN :: nat where
  "BUFLEN = 4096"

text \<open>What \<^verbatim>\<open>recv\<close> can return: 0, a negative value, or bytes.\<close>

datatype recv_result = Recv_EOF | Recv_Error | Recv string

text \<open>
  The name of the peer for the log, in a buffer of 64 bytes: what \<^verbatim>\<open>getpeername\<close> gives
  is an argument, with the printed address and the port.
\<close>

datatype peer_name = Peer_Failed | Peer_Inet string nat | Peer_Inet6 string nat | Peer_Other

definition format_peer :: "bool \<Rightarrow> peer_name \<Rightarrow> string" where
  "format_peer is_unix peer =
     (if is_unix then ''unix''
      else
        (case peer of
           Peer_Failed \<Rightarrow> ''unknown''
         | Peer_Inet ip port \<Rightarrow> take 63 (ip @ '':'' @ dec_digits port)
         | Peer_Inet6 ip port \<Rightarrow> take 63 (''['' @ ip @ '']:'' @ dec_digits port)
         | Peer_Other \<Rightarrow> ''unknown''))"

record conn_ctx =
  cc_conn_id :: int
  cc_seq :: nat
  cc_peer :: string
  cc_bytes_in :: nat
  cc_bytes_out :: nat
  cc_msgs :: nat

text \<open>The process-wide counter of connections: the identifier given out and the counter after it.\<close>

definition next_conn_id :: "int \<Rightarrow> int \<times> int" where
  "next_conn_id i = (i, i + 1)"

definition resp_error_string :: "json_value option \<Rightarrow> string option" where
  "resp_error_string resp =
     (case resp of
        None \<Rightarrow> None
      | Some v \<Rightarrow>
          if json_type v \<noteq> 1 then None
          else (case get_value v ''Error'' of Some (JString s) \<Rightarrow> Some s | _ \<Rightarrow> None))"

definition push_error :: "api_err \<Rightarrow> json_value option \<Rightarrow> json_value option cres" where
  "push_error e resp = map_sum id snd (json_object_push_string True True resp (Some ''Error'') (Some (API_ERR_MSG e)))"

section \<open>Dispatch\<close>

definition push_status :: "json_value option \<Rightarrow> (json_value option \<times> pyoneer) cres \<Rightarrow> (json_value option \<times> pyoneer) cres" where
  "push_status resp r =
     (case r of
        Inl f \<Rightarrow> Inl f
      | Inr (status, p) \<Rightarrow> map_sum id (\<lambda>v. (v, p)) (json_object_push True True True resp ''pyoneer'' status))"

definition with_blueprint ::
  "addr \<Rightarrow> pyoneer \<Rightarrow> json_value \<Rightarrow> json_value option
   \<Rightarrow> (pyoneer \<Rightarrow> blueprint \<Rightarrow> (json_value option \<times> pyoneer) cres) \<Rightarrow> (json_value option \<times> pyoneer) cres" where
  "with_blueprint a p req resp f =
     (case pyoneer_blueprint_decode True a p (Some req) of
        Inl e \<Rightarrow> Inl e
      | Inr (None, p) \<Rightarrow> map_sum id (\<lambda>v. (v, p)) (push_error ERR_BLUEPRINT resp)
      | Inr (Some b, p) \<Rightarrow> push_status resp (f p b))"

definition client_dispatch ::
  "op_env \<Rightarrow> addr \<Rightarrow> pyoneer \<Rightarrow> json_value \<Rightarrow> string \<Rightarrow> json_value option \<Rightarrow> (json_value option \<times> pyoneer) cres" where
  "client_dispatch env a p req cmd resp =
     (if streq cmd ''run'' then with_blueprint a p req resp (pyoneer_run_job env)
      else if streq cmd ''get_status'' then push_status resp (pyoneer_worker_get_status env p)
      else if streq cmd ''assign'' then with_blueprint a p req resp (pyoneer_assign_job env)
      else if streq cmd ''restart'' then map_sum id (\<lambda>p. (resp, p)) (pyoneer_worker_restart env p)
      else if streq cmd ''start'' then map_sum id (\<lambda>p. (resp, p)) (pyoneer_worker_start env p)
      else if streq cmd ''stop'' then map_sum id (\<lambda>p. (resp, p)) (pyoneer_worker_stop env p)
      else map_sum id (\<lambda>v. (v, p)) (push_error ERR_CMD resp))"

text \<open>From the parsed request to the response object: the checks in the order of the source.\<close>

definition client_request ::
  "string option \<Rightarrow> op_env \<Rightarrow> addr \<Rightarrow> pyoneer \<Rightarrow> json_value option \<Rightarrow> json_value option
   \<Rightarrow> (json_value option \<times> pyoneer) cres" where
  "client_request token env a p req resp =
     (let fail = (\<lambda>e. map_sum id (\<lambda>v. (v, p)) (push_error e resp))
      in case req of
           None \<Rightarrow> fail ERR_JSON_PARSE
         | Some v \<Rightarrow>
             if json_type v \<noteq> 1 then fail ERR_JSON_TYPE
             else
               (case get_value v ''command'' of
                  Some (JString cmd) \<Rightarrow>
                    (case get_value v ''token'' of
                       Some (JString tok) \<Rightarrow>
                         if (case token of None \<Rightarrow> False | Some t \<Rightarrow> \<not> streq tok t) then fail ERR_TOKEN
                         else client_dispatch env a p v cmd resp
                     | _ \<Rightarrow> fail ERR_JSON_MISSING)
                | _ \<Rightarrow> fail ERR_JSON_MISSING))"

section \<open>The reply\<close>

definition internal_error_text :: string where
  "internal_error_text = take (BUFLEN - 1) (''{'' @ [CHR 0x22] @ ''Error'' @ [CHR 0x22] @ '':'' @ API_ERR_MSG ERR_INTERNAL @ ''}'')"

definition client_reply :: "(64 word \<Rightarrow> string) \<Rightarrow> json_value \<Rightarrow> string cres option" where
  "client_reply fmt_g resp =
     (case json_measure fmt_g resp of
        None \<Rightarrow> None
      | Some need \<Rightarrow> if need > BUFLEN then Some (Inr internal_error_text) else json_serialize fmt_g resp)"

section \<open>The request\<close>

text \<open>The settings of the handler: the builder's space per value, no limit, no comments, the default allocator.\<close>

definition json_builder_extra :: nat where
  "json_builder_extra = 64 - sizeof_value"

definition client_settings :: "(nat \<Rightarrow> nat \<Rightarrow> bool) \<Rightarrow> json_settings" where
  "client_settings alloc = \<lparr>js_max_memory = 0, js_comments = False, js_value_extra = json_builder_extra, js_mem_alloc = alloc\<rparr>"

text \<open>The parser's result as the handler uses it: a value, or NULL for every message.\<close>

definition client_parse :: "(nat \<Rightarrow> nat \<Rightarrow> bool) \<Rightarrow> float_ops \<Rightarrow> string \<Rightarrow> json_value option cres option" where
  "client_parse alloc fo buf =
     (case json_parse_ex (client_settings alloc) fo buf of
        None \<Rightarrow> None
      | Some (Inl (P_Fault f)) \<Rightarrow> Some (Inl f)
      | Some (Inl (P_Error line e h)) \<Rightarrow> Some (Inr None)
      | Some (Inr v) \<Rightarrow> Some (Inr (Some v)))"

text \<open>
  \<^verbatim>\<open>client_handle_fd\<close>. The result is the text sent, if one was, the counters and the
  facade; no result would mean that a loop does not end. The loop of the source handles
  one message: every path through its body ends in a \<^verbatim>\<open>break\<close>, also when
  \<^verbatim>\<open>send\<close> succeeds.
\<close>

definition client_handle_fd ::
  "(nat \<Rightarrow> nat \<Rightarrow> bool) \<Rightarrow> float_ops \<Rightarrow> (64 word \<Rightarrow> string) \<Rightarrow> string option \<Rightarrow> op_env \<Rightarrow> addr \<Rightarrow> bool \<Rightarrow> bool \<times> peer_name \<Rightarrow> int
   \<Rightarrow> pyoneer \<Rightarrow> recv_result \<Rightarrow> (string option \<times> conn_ctx \<times> pyoneer) cres option" where
  "client_handle_fd alloc fo fmt_g token env a resp_ok sock conn p recv =
     (let c = \<lparr>cc_conn_id = conn, cc_seq = 0, cc_peer = format_peer (fst sock) (snd sock), cc_bytes_in = 0, cc_bytes_out = 0, cc_msgs = 0\<rparr>
      in case recv of
           Recv_EOF \<Rightarrow> Some (Inr (None, c, p))
         | Recv_Error \<Rightarrow> Some (Inr (None, c, p))
         | Recv buf \<Rightarrow>
             (let c = c\<lparr>cc_seq := cc_seq c + 1, cc_msgs := cc_msgs c + 1, cc_bytes_in := cc_bytes_in c + length buf\<rparr>
              in case json_object_new resp_ok resp_ok 0 of
                   None \<Rightarrow> Some (Inr (Some internal_error_text, c, p))
                 | Some resp \<Rightarrow>
                     (case client_parse alloc fo buf of
                        None \<Rightarrow> None
                      | Some (Inl f) \<Rightarrow> Some (Inl f)
                      | Some (Inr req) \<Rightarrow>
                          (case client_request token env a p req (Some resp) of
                             Inl f \<Rightarrow> Some (Inl f)
                           | Inr (None, p) \<Rightarrow> Some (Inl Null_Deref)
                           | Inr (Some resp, p) \<Rightarrow>
                               (case client_reply fmt_g resp of
                                  None \<Rightarrow> None
                                | Some (Inl f) \<Rightarrow> Some (Inl f)
                                | Some (Inr text) \<Rightarrow>
                                    Some (Inr (Some (c_str text), c\<lparr>cc_bytes_out := cc_bytes_out c + strlen text\<rparr>, p)))))))"

section \<open>What a client gets\<close>

lemma push_error_ok: "push_error e (Some (JObject kvs)) = Inr (Some (JObject (kvs @ [(''Error'', JString (c_str (API_ERR_MSG e)))])))"
  by (simp add: push_error_def)

lemma err_msg_nul_free [simp]: "c_str (API_ERR_MSG e) = API_ERR_MSG e"
  by (cases e) simp_all

text \<open>A request that may be carried out, in the presence of a token.\<close>

definition authorised :: "string option \<Rightarrow> json_value option \<Rightarrow> bool" where
  "authorised token req \<longleftrightarrow>
     (\<exists>kvs cmd tok. req = Some (JObject kvs) \<and> json_lookup kvs ''command'' = Some (JString cmd) \<and>
        json_lookup kvs ''token'' = Some (JString tok) \<and> (\<forall>t. token = Some t \<longrightarrow> c_str tok = c_str t))"

text \<open>
  Property C6. Nothing happens without the token: for every message whose JSON is invalid,
  is not an object, lacks a command or a token string, or carries a token that differs from
  the server's as a C string, the facade is left untouched and the reply is an object with
  an error message and nothing else.
\<close>

theorem unauthorised_request_has_no_effect:
  assumes "\<not> authorised token req"
  shows "\<exists>e. client_request token env a p req (Some (JObject [])) =
     Inr (Some (JObject [(''Error'', JString (API_ERR_MSG e))]), p)"
proof -
  have fail: "map_sum id (\<lambda>v. (v, p)) (push_error e (Some (JObject []))) = Inr (Some (JObject [(''Error'', JString (API_ERR_MSG e))]), p)" for e
    by (simp add: push_error_ok)
  let ?fail = "\<lambda>e. map_sum id (\<lambda>v. (v, p)) (push_error e (Some (JObject [])))"
  have "\<exists>e. client_request token env a p req (Some (JObject [])) = ?fail e"
  proof (cases "\<exists>kvs. req = Some (JObject kvs)")
    case True
    then obtain kvs where req: "req = Some (JObject kvs)" by blast
    show ?thesis
    proof (cases "\<exists>cmd tok. json_lookup kvs ''command'' = Some (JString cmd) \<and> json_lookup kvs ''token'' = Some (JString tok)")
      case True
      with assms req show ?thesis
        by (intro exI [of _ ERR_TOKEN]) (auto simp: client_request_def authorised_def streq_def)
    next
      case False
      with req show ?thesis
        by (intro exI [of _ ERR_JSON_MISSING]) (auto simp: client_request_def split: option.split json_value.split)
    qed
  next
    case False
    show ?thesis
    proof (cases req)
      case None
      then show ?thesis by (intro exI [of _ ERR_JSON_PARSE]) (simp add: client_request_def)
    next
      case (Some v)
      with False have "json_type v \<noteq> 1" by (cases v) auto
      with Some show ?thesis by (intro exI [of _ ERR_JSON_TYPE]) (simp add: client_request_def)
    qed
  qed
  with fail show ?thesis by auto
qed

theorem unauthorised_request_has_no_effect_witness:
  "\<exists>e. client_request (Some ''secret'') (env_ok 4) 0 (Py_Worker wsys_idle)
     (Some (JObject [(''command'', JString ''stop''), (''token'', JString ''guess'')])) (Some (JObject [])) =
     Inr (Some (JObject [(''Error'', JString (API_ERR_MSG e))]), Py_Worker wsys_idle)"
  by (rule unauthorised_request_has_no_effect) (simp add: authorised_def streq_def)

lemma format_peer_fits: "length (format_peer is_unix peer) < 64"
  by (cases peer) (auto simp: format_peer_def intro!: less_imp_diff_less)

lemma client_parse_total: "\<exists>r. client_parse alloc fo buf = Some r"
  using json_parse_ex_cases [of "client_settings alloc" fo buf] by (auto simp: client_parse_def split: sum.split pstop.split)

lemma client_reply_total:
  "\<exists>r. client_reply fmt_g resp = Some r \<and> (\<forall>text. r = Inr text \<longrightarrow> length text < BUFLEN)"
proof -
  obtain n where n: "json_measure_ex fmt_g resp default_opts = Some n" using json_measure_total by blast
  have "length internal_error_text < BUFLEN" by (simp add: internal_error_text_def BUFLEN_def)
  moreover have "length t < BUFLEN"
    if "n \<le> BUFLEN" "json_serialize_ex fmt_g resp default_opts = Some (Inr t)" for t
  proof -
    have "json_safe resp" using that(2) by (simp add: json_serialize_total split: if_splits)
    from serialize_within_measure [OF this, of fmt_g default_opts] that n show ?thesis by auto
  qed
  ultimately show ?thesis
    using n json_serialize_total [of fmt_g resp default_opts]
    by (auto simp: client_reply_def json_measure_def json_serialize_def)
qed

text \<open>What is sent for a response: its text, or the internal error, which is no JSON: its message has no quotes.\<close>

lemma client_reply_text:
  assumes "printable resp"
  shows "client_reply fmt_g resp =
    Some (Inr (if length (json_text fmt_g default_opts 0 resp) < BUFLEN then json_text fmt_g default_opts 0 resp else internal_error_text))"
  using measure_exact_text [OF printable_exact [OF assms], of default_opts fmt_g] json_serialize_total [of fmt_g resp default_opts] printable_safe [OF assms]
  by (simp add: client_reply_def json_measure_def json_serialize_def default_opts_def)

lemma internal_error_rejected:
  assumes "generous js"
  shows "\<exists>g. json_parse_ex js fo internal_error_text = Some (Inl (P_Error 1 (E_Seeking_Value (CHR ''A'')) g))"
proof -
  have js: "js_max_memory js = 0" "\<And>n sz. js_mem_alloc js n sz" "\<not> 18446744073709551567 < js_value_extra js" using assms by (simp_all add: generous_def)
  let ?t = "CHR ''{'' # CHR 0x22 # CHR ''E'' # CHR ''r'' # CHR ''r'' # CHR ''o'' # CHR ''r'' # CHR 0x22 # CHR '':'' # ''API: internal error}''"
  have t: "internal_error_text = ?t" by (simp add: internal_error_text_def BUFLEN_def)
  have "\<exists>g. parse_loop True js fo ?t (start_pass empty_heap) = Some (Inl (P_Error 1 (E_Seeking_Value (CHR ''A'')) g))"
    by (cases "js_comments js"; (subst parse_loop.simps, simp add: js turn_defs object_section_def open_name_def string_add_def string_close_def end_name_def)+)
  then obtain g where g: "parse_loop True js fo ?t (start_pass empty_heap) = Some (Inl (P_Error 1 (E_Seeking_Value (CHR ''A'')) g))" by blast
  have "rooted (ps_heap (start_pass empty_heap))" by (simp add: rooted_def start_pass_def empty_heap_def)
  from loop_keeps [OF g this refl] g show ?thesis
    unfolding t using first_failed by (simp add: json_parse_ex_def skip_bom_def parse_failed_def rooted_def)
qed



text \<open>A run request, and what it decodes to.\<close>

definition run_request :: "string \<Rightarrow> json_value \<Rightarrow> json_value" where
  "run_request tok job = JObject [(''command'', JString ''run''), (''token'', JString tok), (''job'', job)]"

lemma run_request_decode:
  assumes "job_decode_ok (Some job) = Some j"
  shows "pyoneer_blueprint_decode True a (Py_Worker s) (Some (run_request tok job)) =
    Inr (Some \<lparr>bp_kind = BLUEPRINT_JOB, bp_job = a\<rparr>, Py_Worker (s\<lparr>ws_heap := (ws_heap s)(a \<mapsto> j)\<rparr>))"
  using assms by (simp add: pyoneer_blueprint_decode_def blueprint_decode_def run_request_def streq_def)

lemma run_request_dispatch:
  assumes "job_decode_ok (Some job) = Some j" and "c_str tok = c_str t"
  shows "client_request (Some t) env a (Py_Worker s) (Some (run_request tok job)) resp =
    push_status resp (then_tag (worker_run env (s\<lparr>ws_heap := (ws_heap s)(a \<mapsto> j)\<rparr>) (Some a)))"
proof -
  have "client_request (Some t) env a (Py_Worker s) (Some (run_request tok job)) resp =
      client_dispatch env a (Py_Worker s) (run_request tok job) ''run'' resp"
    using assms(2) by (simp add: client_request_def run_request_def streq_def)
  also have "\<dots> = push_status resp (then_tag (worker_run env (s\<lparr>ws_heap := (ws_heap s)(a \<mapsto> j)\<rparr>) (Some a)))"
    by (simp add: client_dispatch_def streq_def with_blueprint_def run_request_decode [OF assms(1)] pyoneer_run_job_def with_worker_def)
  finally show ?thesis .
qed

lemma derived_status_extend:
  "inv_hw (ws_heap s) (ws_worker s) \<Longrightarrow> ws_heap s a = None \<Longrightarrow>
   derived_status (s\<lparr>ws_heap := (ws_heap s)(a \<mapsto> j)\<rparr>) = derived_status s"
  by (auto simp: derived_status_def inv_hw_def split: option.split)

lemma run_request_result:
  assumes "reach worker_init guarded_step s" and "ws_heap s a = None" and "ws_site s \<noteq> None"
    and "derived_status s \<noteq> WORKER_WORKING" and "\<not> joined (ws_worker s)"
    and "job_decode_ok (Some job) = Some j" and "job_tasks j \<noteq> []" and "c_str tok = c_str t"
  obtains u where "client_request (Some t) (env_ok st) a (Py_Worker s) (Some (run_request tok job)) (Some (JObject [])) =
      Inr (Some (JObject [(''pyoneer'', tagged u)]), Py_Worker u)"
    "wk_job (ws_worker u) = Some a" "runner_of (ws_worker u) = Some \<lparr>rn_job = a, rn_thread = Thr_Alive\<rparr>" "wk_status (ws_worker u) \<in> {0, 1, 2, 3}"
proof -
  have "job_fresh j" using job_decode_fresh [OF assms(6)] by blast
  from worker_run_result [OF assms(1,2) this assms(7,3), of st] assms(4,5)
  obtain u where "worker_run (env_ok st) (s\<lparr>ws_heap := (ws_heap s)(a \<mapsto> j)\<rparr>) (Some a) =
      Inr (Some (worker_report (ws_heap u) (ws_worker u)), u)"
    "wk_job (ws_worker u) = Some a" "runner_of (ws_worker u) = Some \<lparr>rn_job = a, rn_thread = Thr_Alive\<rparr>" "wk_status (ws_worker u) \<in> {0, 1, 2, 3}"
    by (auto split: sum.splits)
  with that show thesis
    by (simp add: run_request_dispatch [OF assms(6,8)] then_tag_report push_status_def)
qed

text \<open>Status reports have a text that parses, and so have requests.\<close>

lemma json_of_int_least: "json_of_int i \<noteq> - (2 ^ 63)"
proof
  assume "json_of_int i = - (2 ^ 63)"
  then have "sint i = - (2 ^ 63)" using sint_json_of_int [of i] by simp
  moreover have "- (2 ^ 31) \<le> sint i" using sint_range_size [of i] by (simp add: size_word_def)
  ultimately show False by simp
qed

lemma tagged_printable:
  assumes "wk_status (ws_worker u) \<in> {0, 1, 2, 3}"
  shows "printable (tagged u)"
proof -
  have st: "printable (status_text k)" for k
    by (simp add: status_text_def task_status_map_def json_null_new_def)
  then have "printable (task_report t)" for t by (simp add: task_report_def)
  with st have "printable (job_report j)" for j using json_of_int_least by (auto simp: job_report_def)
  moreover have "printable (the (worker_status_map True (wk_status (ws_worker u))))"
    using assms by (auto simp: worker_status_map_def)
  ultimately show ?thesis using json_of_int_least by (auto simp: tagged_def worker_report_def split: option.split)
qed

lemma client_parse_text:
  assumes "printable v" and "length (json_text fmt_g so 0 v) \<le> BUFLEN"
  shows "client_parse (\<lambda>n sz. True) fo (json_text fmt_g so 0 v) = Some (Inr (Some v))"
proof -
  have "generous (client_settings (\<lambda>n sz. True))" by (simp add: generous_def client_settings_def json_builder_extra_def)
  from parse_json_text [OF this assms(1)] assms(2) show ?thesis by (simp add: client_parse_def BUFLEN_def)
qed



text \<open>
  Property C10. A client can read every reply that fits: the text sent for a response
  without doubles is parsed back as that response if it is shorter than the buffer, and
  otherwise the reply is the internal error, which the parser rejects because its message
  has no quotes.
\<close>

theorem client_reply_readable:
  assumes "printable resp" and "generous js"
  shows "\<exists>r g. client_reply fmt_g resp = Some (Inr r) \<and> c_str r = r \<and>
    json_parse_ex js fo r =
      Some (if length (json_text fmt_g default_opts 0 resp) < BUFLEN then Inr resp else Inl (P_Error 1 (E_Seeking_Value (CHR ''A'')) g))"
proof (cases "length (json_text fmt_g default_opts 0 resp) < BUFLEN")
  case True
  with parse_json_text [OF assms(2,1), of fmt_g default_opts 0 fo] client_reply_text [OF assms(1), of fmt_g] json_text_nul_free [OF assms(1)]
  show ?thesis by (simp add: BUFLEN_def del: json_text.simps)
next
  case False
  have "c_str internal_error_text = internal_error_text" by (simp add: internal_error_text_def BUFLEN_def)
  with False internal_error_rejected [OF assms(2), of fo] client_reply_text [OF assms(1), of fmt_g] show ?thesis by auto
qed

theorem client_reply_readable_witness:
  "\<exists>r. client_reply (\<lambda>_. ''0'') (JObject [(''Error'', JString (API_ERR_MSG ERR_TOKEN))]) = Some (Inr r) \<and>
     json_parse_ex (client_settings (\<lambda>n sz. True)) example_ops r = Some (Inr (JObject [(''Error'', JString (API_ERR_MSG ERR_TOKEN))]))"
proof -
  let ?resp = "JObject [(''Error'', JString (API_ERR_MSG ERR_TOKEN))]"
  have "printable ?resp" "generous (client_settings (\<lambda>n sz. True))"
    by (simp_all add: generous_def client_settings_def json_builder_extra_def)
  moreover have "length (json_text (\<lambda>_. ''0'') default_opts 0 ?resp) < BUFLEN"
    by (simp add: default_opts_def get_serialize_flags_def bracketed_def join_text_def key_text_def newline_text_def BUFLEN_def)
  ultimately show ?thesis using client_reply_readable [of ?resp "client_settings (\<lambda>n sz. True)" "\<lambda>_. ''0''" example_ops] by auto
qed

text \<open>
  Property C40. The same request on a working worker crashes the server: the worker refuses
  with NULL, and the handler pushes that NULL into the response, which dereferences it.
\<close>

theorem busy_run_request_crashes:
  assumes "reach worker_init guarded_step s" and "ws_heap s a = None" and "derived_status s = WORKER_WORKING"
    and "job_decode_ok (Some job) = Some j" and "c_str tok = c_str t"
  shows "client_request (Some t) (env_ok st) a (Py_Worker s) (Some (run_request tok job)) (Some (JObject [])) = Inl Null_Deref"
proof -
  note inv = worker_run.reach_inv [OF assms(1)]
  let ?s = "s\<lparr>ws_heap := (ws_heap s)(a \<mapsto> j)\<rparr>"
  have "inv_hw (ws_heap ?s) (ws_worker ?s)" "derived_status ?s = WORKER_WORKING"
    using inv_hw_extend [OF inv assms(2)] derived_status_extend [OF inv assms(2)] assms(3) by simp_all
  from worker_run_busy [OF this, of st a] obtain u where "worker_run (env_ok st) ?s (Some a) = Inr (None, u)" by blast
  then show ?thesis
    by (simp add: run_request_dispatch [OF assms(4,5)] then_tag_def tag_status_null push_status_def json_object_push_def
        json_object_push_length_def json_object_push_nocopy_def builderize_def)
qed

theorem busy_run_request_crashes_witness:
  "client_request (Some ''secret'') (env_ok 4) 1 (Py_Worker wsys_working)
     (Some (run_request ''secret'' job_json_example)) (Some (JObject [])) = Inl Null_Deref"
proof -
  have "ws_heap wsys_working 1 = None" "derived_status wsys_working = WORKER_WORKING"
    by (simp_all add: wsys_example_def worker_example_def derived_status_def job_get_status_def Let_def) (simp add: job_in_def)
  from busy_run_request_crashes [OF wsys_working_reach this job_json_example_decode] show ?thesis by blast
qed

end
