(* ===== verification/Client_Log.thy ===== *)
theory Client_Log
  imports Client Logger
begin

text \<open>
  The connection handler with everything it does to the outside: the lines it logs, what it
  sends, the JSON values it frees and the descriptor it closes. The theorems relate it to
  the handler of the theory of connections, which is this one without the events, compose it
  with the logger, and show that neither the reply nor the log depends on a rejected token.
\<close>

section \<open>Events\<close>

datatype client_event =
    Log int string
  | Send string
  | Free_Resp
  | Free_Req
  | Close

text \<open>The two contexts of the log: \<^verbatim>\<open>conn_ctx\<close> is that of the handler, \<^verbatim>\<open>req_ctx\<close> is the request's.\<close>

record req_ctx =
  rq_seq :: nat
  rq_cmd :: "string option"
  rq_user :: "string option"
  rq_in_bytes :: nat
  rq_out_bytes :: nat

section \<open>Texts\<close>

definition dec_int :: "int \<Rightarrow> string" where
  "dec_int i = (if i < 0 then ''-'' @ dec_digits (nat (- i)) else dec_digits (nat i))"

definition or_unknown :: "string option \<Rightarrow> string" where
  "or_unknown s = (case s of None \<Rightarrow> ''?'' | Some t \<Rightarrow> c_str t)"

definition accept_text :: "conn_ctx \<Rightarrow> string" where
  "accept_text c = ''conn='' @ dec_int (cc_conn_id c) @ '' accept peer='' @ cc_peer c"

definition close_text :: "conn_ctx \<Rightarrow> string \<Rightarrow> string" where
  "close_text c reason =
     ''conn='' @ dec_int (cc_conn_id c) @ '' close peer='' @ cc_peer c @ '' reason='' @ reason @
     '' msgs='' @ dec_digits (cc_msgs c) @ '' bytes_in='' @ dec_digits (cc_bytes_in c) @
     ''B bytes_out='' @ dec_digits (cc_bytes_out c) @ ''B''"

definition event_text :: "conn_ctx \<Rightarrow> req_ctx \<Rightarrow> string \<Rightarrow> string" where
  "event_text c r what =
     ''conn='' @ dec_int (cc_conn_id c) @ '' seq='' @ dec_digits (rq_seq r) @ '' event='' @ what"

definition outcome_text :: "conn_ctx \<Rightarrow> req_ctx \<Rightarrow> string \<Rightarrow> string" where
  "outcome_text c r what =
     ''conn='' @ dec_int (cc_conn_id c) @ '' peer='' @ cc_peer c @ '' seq='' @ dec_digits (rq_seq r) @
     '' user='' @ or_unknown (rq_user r) @ '' cmd='' @ or_unknown (rq_cmd r) @ '' '' @ what @
     '' out='' @ dec_digits (rq_out_bytes r) @ ''B''"

section \<open>Stages\<close>

text \<open>What the checks of a request log, and the request context after them.\<close>

definition request_log ::
  "conn_ctx \<Rightarrow> req_ctx \<Rightarrow> string option \<Rightarrow> json_value option \<Rightarrow> client_event list \<times> req_ctx" where
  "request_log c r token req =
     (case req of
        None \<Rightarrow> ([Log LOGGER_WARN (event_text c r ''parse_err err=JSON_PARSE'')], r)
      | Some v \<Rightarrow>
          if json_type v \<noteq> 1 then ([Log LOGGER_WARN (event_text c r ''parse_err err=JSON_NOT_OBJECT'')], r)
          else
            (case get_value v ''command'' of
               Some (JString cmd) \<Rightarrow>
                 (let r = r\<lparr>rq_cmd := Some cmd\<rparr>;
                      parsed = Log LOGGER_DEBUG (event_text c r (''parse_ok cmd='' @ c_str cmd))
                  in case get_value v ''token'' of
                       Some (JString tok) \<Rightarrow>
                         if (case token of None \<Rightarrow> False | Some t \<Rightarrow> \<not> streq tok t)
                         then ([parsed, Log LOGGER_WARN (event_text c r (''auth_err err=INVALID_TOKEN cmd='' @ c_str cmd))], r)
                         else (let r = r\<lparr>rq_user := Some ''authed''\<rparr>
                               in ([parsed, Log LOGGER_DEBUG (event_text c r (''auth_ok user='' @ or_unknown (rq_user r)))], r))
                     | _ \<Rightarrow>
                         ([parsed, Log LOGGER_WARN (event_text c r (''auth_err err=TOKEN_MISSING_OR_BAD_TYPE cmd='' @ c_str cmd))], r))
             | _ \<Rightarrow> ([Log LOGGER_WARN (event_text c r ''parse_err err=CMD_MISSING_OR_BAD_TYPE'')], r)))"

text \<open>What the reply logs: the response that does not fit, then the outcome.\<close>

definition too_large :: "(64 word \<Rightarrow> string) \<Rightarrow> json_value \<Rightarrow> bool" where
  "too_large fmt_g resp = (case json_measure fmt_g resp of None \<Rightarrow> False | Some need \<Rightarrow> need > BUFLEN)"

definition reply_log :: "conn_ctx \<Rightarrow> req_ctx \<Rightarrow> bool \<Rightarrow> json_value \<Rightarrow> client_event list" where
  "reply_log c r large resp =
     (if large then [Log LOGGER_ERROR (event_text c r (''internal_err err=RESP_TOO_LARGE cmd='' @ or_unknown (rq_cmd r)))] else []) @
     [case resp_error_string (Some resp) of
        Some errstr \<Rightarrow> Log LOGGER_WARN (outcome_text c r (''err='' @ c_str errstr))
      | None \<Rightarrow> Log LOGGER_INFO (outcome_text c r ''ok'')]"

text \<open>The end of a request: the reply is sent, a failure to send is logged, the values are freed.\<close>

definition finish_log :: "conn_ctx \<Rightarrow> bool \<Rightarrow> string \<Rightarrow> string \<Rightarrow> json_value option \<Rightarrow> client_event list" where
  "finish_log c send_ok err text req =
     [Send text] @ (if send_ok then [] else [Log LOGGER_WARN (close_text c (''SEND_ERR err='' @ err))]) @
     [Free_Resp] @ (if req = None then [] else [Free_Req]) @ [Close]"

section \<open>The handler\<close>

definition client_session ::
  "bool \<Rightarrow> string \<Rightarrow> (nat \<Rightarrow> nat \<Rightarrow> bool) \<Rightarrow> float_ops \<Rightarrow> (64 word \<Rightarrow> string) \<Rightarrow> string option \<Rightarrow> op_env \<Rightarrow> addr \<Rightarrow> bool
   \<Rightarrow> bool \<times> peer_name \<Rightarrow> int \<Rightarrow> pyoneer \<Rightarrow> recv_result
   \<Rightarrow> (string option \<times> conn_ctx \<times> pyoneer \<times> client_event list) cres option" where
  "client_session send_ok err alloc fo fmt_g token env a resp_ok sock conn p recv =
     (let c = \<lparr>cc_conn_id = conn, cc_seq = 0, cc_peer = format_peer (fst sock) (snd sock), cc_bytes_in = 0, cc_bytes_out = 0, cc_msgs = 0\<rparr>;
          accept = Log LOGGER_INFO (accept_text c)
      in case recv of
           Recv_EOF \<Rightarrow> Some (Inr (None, c, p, [accept, Log LOGGER_INFO (close_text c ''EOF''), Close]))
         | Recv_Error \<Rightarrow> Some (Inr (None, c, p, [accept, Log LOGGER_WARN (close_text c (''RECV_ERR err='' @ err)), Close]))
         | Recv buf \<Rightarrow>
             (let c = c\<lparr>cc_seq := cc_seq c + 1, cc_msgs := cc_msgs c + 1, cc_bytes_in := cc_bytes_in c + length buf\<rparr>;
                  r = \<lparr>rq_seq = cc_seq c, rq_cmd = None, rq_user = None, rq_in_bytes = length buf, rq_out_bytes = 0\<rparr>;
                  recvd = Log LOGGER_DEBUG (event_text c r (''recv in='' @ dec_digits (rq_in_bytes r) @ ''B''))
              in case json_object_new resp_ok resp_ok 0 of
                   None \<Rightarrow>
                     Some (Inr (Some internal_error_text, c, p,
                       [accept, recvd, Log LOGGER_ERROR (event_text c r ''internal_err err=RESP_ALLOC_FAILED''),
                        Send internal_error_text, Close]))
                 | Some resp \<Rightarrow>
                     (case client_parse alloc fo buf of
                        None \<Rightarrow> None
                      | Some (Inl f) \<Rightarrow> Some (Inl f)
                      | Some (Inr req) \<Rightarrow>
                          (case client_request token env a p req (Some resp) of
                             Inl f \<Rightarrow> Some (Inl f)
                           | Inr (None, p) \<Rightarrow> Some (Inl Null_Deref)
                           | Inr (Some resp, p) \<Rightarrow>
                               (case client_reply fmt_g resp of
                                  None \<Rightarrow> None
                                | Some (Inl f) \<Rightarrow> Some (Inl f)
                                | Some (Inr text) \<Rightarrow>
                                    (let (checks, r) = request_log c r token req;
                                         c = c\<lparr>cc_bytes_out := cc_bytes_out c + strlen text\<rparr>
                                     in Some (Inr (Some (c_str text), c, p,
                                          [accept, recvd] @ checks @
                                          reply_log c (r\<lparr>rq_out_bytes := strlen text\<rparr>) (too_large fmt_g resp) resp @
                                          finish_log c send_ok err (c_str text) req))))))))"

section \<open>What the handler does to the outside\<close>

definition sent :: "client_event list \<Rightarrow> string list" where
  "sent evs = concat (map (\<lambda>e. case e of Send t \<Rightarrow> [t] | _ \<Rightarrow> []) evs)"

definition levels_ok :: "client_event list \<Rightarrow> bool" where
  "levels_ok evs = list_all (\<lambda>e. case e of Log l _ \<Rightarrow> l \<in> {0, 1, 2, 3} | _ \<Rightarrow> True) evs"

lemma event_app [simp]:
  "sent (xs @ ys) = sent xs @ sent ys" "levels_ok (xs @ ys) \<longleftrightarrow> levels_ok xs \<and> levels_ok ys"
  "count_list (xs @ ys) e = count_list xs e + count_list ys e"
  by (simp_all add: sent_def levels_ok_def)

lemma event_Cons [simp]:
  "sent [] = []" "sent (Log l t # xs) = sent xs" "sent (Send t # xs) = t # sent xs" "sent (Free_Resp # xs) = sent xs"
  "sent (Free_Req # xs) = sent xs" "sent (Close # xs) = sent xs" "levels_ok []"
  "levels_ok (Log l t # xs) \<longleftrightarrow> l \<in> {0, 1, 2, 3} \<and> levels_ok xs"
  "levels_ok (Send t # xs) = levels_ok xs" "levels_ok (Free_Resp # xs) = levels_ok xs"
  "levels_ok (Free_Req # xs) = levels_ok xs" "levels_ok (Close # xs) = levels_ok xs"
  by (simp_all add: sent_def levels_ok_def)

text \<open>The lines of the checks and of the outcome are log lines and nothing else.\<close>

definition only_logs :: "client_event list \<Rightarrow> bool" where
  "only_logs evs = list_all (\<lambda>e. case e of Log l _ \<Rightarrow> l \<in> {0, 1, 2, 3} | _ \<Rightarrow> False) evs"

lemma only_logsD: "only_logs evs \<Longrightarrow> sent evs = [] \<and> levels_ok evs \<and>
    count_list evs Close = 0 \<and> count_list evs Free_Resp = 0 \<and> count_list evs Free_Req = 0"
  by (induction evs) (auto simp: only_logs_def split: client_event.splits)

lemma request_log_only: "only_logs (fst (request_log c r token req))"
  by (auto simp: request_log_def only_logs_def Let_def split: option.split json_value.split)

lemma reply_log_only: "only_logs (reply_log c r large resp)"
  by (auto simp: reply_log_def only_logs_def split: option.split)

text \<open>Without its events the session is the handler.\<close>

lemma client_session_handle:
  "map_option (map_sum id (\<lambda>(t, c, q, _). (t, c, q))) (client_session send_ok err alloc fo fmt_g token env a resp_ok sock conn p recv) =
   client_handle_fd alloc fo fmt_g token env a resp_ok sock conn p recv"
  by (auto simp: client_session_def client_handle_fd_def Let_def split: recv_result.split option.split sum.split prod.split)

text \<open>How a session touches the outside, by what was received.\<close>

definition discipline :: "string option \<Rightarrow> nat \<Rightarrow> nat \<Rightarrow> client_event list \<Rightarrow> bool" where
  "discipline reply resps reqs evs \<longleftrightarrow>
     last evs = Close \<and> count_list evs Close = 1 \<and> levels_ok evs \<and>
     sent evs = (case reply of None \<Rightarrow> [] | Some t \<Rightarrow> [t]) \<and>
     count_list evs Free_Resp = resps \<and> count_list evs Free_Req = reqs"

lemma discipline_request:
  "only_logs xs \<Longrightarrow> discipline (Some t) 1 (if req = None then 0 else 1) (xs @ finish_log c send_ok err t req)"
  using only_logsD [of xs] by (auto simp: discipline_def finish_log_def)

lemma only_logs_app [simp]: "only_logs (xs @ ys) \<longleftrightarrow> only_logs xs \<and> only_logs ys"
  by (simp add: only_logs_def)

lemma only_logs_Cons [simp]: "only_logs (Log l t # xs) \<longleftrightarrow> l \<in> {0, 1, 2, 3} \<and> only_logs xs" "only_logs []"
  by (simp_all add: only_logs_def)

lemma session_received:
  assumes "client_session send_ok err alloc fo fmt_g token env a resp_ok sock conn p (Recv buf) = Some (Inr (reply, c, p', evs))"
    and "client_parse alloc fo buf = Some q"
  shows "discipline reply (if resp_ok then 1 else 0) (if resp_ok \<and> (\<exists>v. q = Inr (Some v)) then 1 else 0) evs"
proof (cases resp_ok)
  case True
  with assms obtain req resp out where q: "q = Inr req"
      and r: "client_request token env a p req (Some (JObject [])) = Inr (Some resp, p')"
      and t: "client_reply fmt_g resp = Some (Inr out)"
    by (auto simp: client_session_def Let_def split: sum.splits option.splits prod.splits)
  have "\<exists>xs cc. only_logs xs \<and> reply = Some (c_str out) \<and> evs = xs @ finish_log cc send_ok err (c_str out) req"
  proof -
    let ?c = "\<lparr>cc_conn_id = conn, cc_seq = Suc 0, cc_peer = format_peer (fst sock) (snd sock), cc_bytes_in = length buf, cc_bytes_out = 0, cc_msgs = Suc 0\<rparr>"
    let ?r = "\<lparr>rq_seq = Suc 0, rq_cmd = None, rq_user = None, rq_in_bytes = length buf, rq_out_bytes = 0\<rparr>"
    obtain checks r' where cr: "request_log ?c ?r token req = (checks, r')" by fastforce
    then have "only_logs checks" using request_log_only [of ?c ?r token req] by simp
    then show ?thesis
      using assms True q r t cr
      by (auto simp: client_session_def Let_def reply_log_only
          intro!: exI [of _ "Log 1 _ # Log 0 _ # checks @ reply_log _ _ _ _"])
  qed
  then obtain xs cc where "only_logs xs" "reply = Some (c_str out)" "evs = xs @ finish_log cc send_ok err (c_str out) req"
    by blast
  with discipline_request [of xs "c_str out" req cc send_ok err] q True show ?thesis by (cases req) auto
next
  case False
  with assms show ?thesis
    by (auto simp: client_session_def Let_def json_object_new_def discipline_def)
qed

text \<open>The JSON values a session makes: the response, and the request if there is one.\<close>

definition resps_made :: "bool \<Rightarrow> recv_result \<Rightarrow> nat" where
  "resps_made resp_ok recv = (case recv of Recv _ \<Rightarrow> if resp_ok then 1 else 0 | _ \<Rightarrow> 0)"

definition reqs_made :: "(nat \<Rightarrow> nat \<Rightarrow> bool) \<Rightarrow> float_ops \<Rightarrow> bool \<Rightarrow> recv_result \<Rightarrow> nat" where
  "reqs_made alloc fo resp_ok recv =
     (case recv of
        Recv buf \<Rightarrow> if resp_ok then (case client_parse alloc fo buf of Some (Inr (Some _)) \<Rightarrow> 1 | _ \<Rightarrow> 0) else 0
      | _ \<Rightarrow> 0)"

lemma session_discipline:
  assumes "client_session send_ok err alloc fo fmt_g token env a resp_ok sock conn p recv = Some (Inr (reply, c, p', evs))"
  shows "discipline reply (resps_made resp_ok recv) (reqs_made alloc fo resp_ok recv) evs"
proof (cases recv)
  case (Recv buf)
  obtain q where q: "client_parse alloc fo buf = Some q" using client_parse_total by blast
  from session_received [OF assms [unfolded Recv] q] q Recv show ?thesis
    by (auto simp: resps_made_def reqs_made_def split: if_splits sum.split option.split)
qed (use assms in \<open>auto simp: client_session_def Let_def discipline_def resps_made_def reqs_made_def\<close>)

lemma levels_log_ok:
  assumes "levels_ok evs" and "Log level msg \<in> set evs" and "length (lg_name l) \<le> 250"
  shows "\<exists>out. logger_log l level t nsec msg = Inr out"
proof -
  have "level \<in> {0, 1, 2, 3}" using assms(1,2) by (auto simp: levels_ok_def list_all_iff)
  then obtain lvl where "level_str level = Some lvl" using level_str_none [of level] by auto
  from logger_log_fits [OF this assms(3)] show ?thesis by blast
qed

lemma client_handled: "\<exists>h. client_handle_fd alloc fo fmt_g token env a resp_ok sock conn p recv = Some h"
proof (cases recv)
  case (Recv buf)
  obtain q where q: "client_parse alloc fo buf = Some q" using client_parse_total by blast
  have "client_reply fmt_g v \<noteq> None" for v using client_reply_total [of fmt_g v] by auto
  with Recv q show ?thesis
    by (auto simp: client_handle_fd_def Let_def split: option.split sum.split) (metis option.distinct(1))
qed (simp_all add: client_handle_fd_def Let_def)



section \<open>A rejected token leaves no trace\<close>

lemma rejected_request:
  assumes "json_lookup kvs ''command'' = Some (JString cmd)" and "json_lookup kvs ''token'' = Some (JString tok)"
    and "c_str tok \<noteq> c_str t"
  shows "client_request (Some t) env a p (Some (JObject kvs)) (Some (JObject [])) =
      Inr (Some (JObject [(''Error'', JString (API_ERR_MSG ERR_TOKEN))]), p)"
    and "request_log c r (Some t) (Some (JObject kvs)) =
      (let r = r\<lparr>rq_cmd := Some cmd\<rparr>
       in ([Log LOGGER_DEBUG (event_text c r (''parse_ok cmd='' @ c_str cmd)),
            Log LOGGER_WARN (event_text c r (''auth_err err=INVALID_TOKEN cmd='' @ c_str cmd))], r))"
  using assms by (simp_all add: client_request_def request_log_def push_error_ok streq_def Let_def)


text \<open>Two guesses at two servers.\<close>

definition stop_request :: "string \<Rightarrow> json_value" where
  "stop_request tok = JObject [(''command'', JString ''stop''), (''token'', JString tok)]"


text \<open>
  The command of a message goes into the log as it is, before any token was checked: a
  command with a line break starts a line of the log of the client's choice.
\<close>

lemma log_line_injection:
  assumes "json_lookup kvs ''command'' = Some (JString (c1 @ [CHR 0x0A] @ c2))" and "nul_free c1" and "nul_free c2"
    and "json_lookup kvs ''token'' = Some (JString tok)" and "c_str tok \<noteq> c_str t"
  shows "\<exists>before. Log LOGGER_WARN (before @ [CHR 0x0A] @ c2) \<in> set (fst (request_log c r (Some t) (Some (JObject kvs))))"
proof -
  have "c_str (c1 @ [CHR 0x0A] @ c2) = c1 @ [CHR 0x0A] @ c2" using assms(2,3) by (intro c_str_id) simp
  then show ?thesis
    using rejected_request(2) [OF assms(1,4,5), of c r]
    by (auto simp: Let_def event_text_def)
qed

end
