(* ===== verification/Json_Builder.thy ===== *)
theory Json_Builder
  imports Json_Value
begin

text \<open>
  The memory behind the containers of \<^verbatim>\<open>shared/json-builder.c\<close>. The builder keeps
  a block of slots per container, of which a prefix is in use and the rest is spare
  (\<^verbatim>\<open>additional_length_allocated\<close>); the lengths are machine words and a write to a
  slot outside the block is a fault. The theory ends with the refinement of the list
  operations of the theory of JSON values by these definitions.
\<close>

section \<open>Blocks of slots\<close>

text \<open>
  \<open>buf_slots\<close> is the allocated block (\<open>None\<close>: a slot not written yet),
  \<open>buf_length\<close> the \<^verbatim>\<open>unsigned int length\<close> of the container and
  \<open>buf_spare\<close> the \<^verbatim>\<open>size_t additional_length_allocated\<close>.
\<close>

datatype 'e buffer =
  Buffer (buf_length: "32 word") (buf_spare: "64 word") (buf_slots: "'e option list")

text \<open>Writing slot \<open>i\<close>, and \<^verbatim>\<open>realloc\<close> to \<open>n\<close> slots.\<close>

definition put_slot :: "nat \<Rightarrow> 'e \<Rightarrow> 'e option list \<Rightarrow> 'e option list cres" where
  "put_slot i e slots = (if i < length slots then Inr (slots[i := Some e]) else Inl Out_Of_Bounds)"

definition get_slot :: "nat \<Rightarrow> 'e option list \<Rightarrow> 'e cres" where
  "get_slot i slots =
     (if i < length slots
      then case slots ! i of None \<Rightarrow> Inl Uninit_Read | Some e \<Rightarrow> Inr e
      else Inl Out_Of_Bounds)"

definition resize :: "nat \<Rightarrow> 'e option list \<Rightarrow> 'e option list" where
  "resize n slots = take n slots @ replicate (n - length slots) None"

text \<open>
  The part that \<^verbatim>\<open>json_array_push\<close> and \<^verbatim>\<open>json_object_push_nocopy\<close> have
  in common: take a spare slot or grow the block to \<^verbatim>\<open>length + 1\<close> slots (computed
  in \<^verbatim>\<open>unsigned int\<close>), then write the slot at \<^verbatim>\<open>length\<close>.
\<close>

definition buffer_reserve :: "bool \<Rightarrow> 'e buffer \<Rightarrow> 'e buffer option" where
  "buffer_reserve realloc_ok b =
     (if buf_spare b > 0 then Some (Buffer (buf_length b) (buf_spare b - 1) (buf_slots b))
      else if \<not> realloc_ok then None
      else Some (Buffer (buf_length b) (buf_spare b)
                   (resize (unat (buf_length b + 1)) (buf_slots b))))"

definition buffer_push :: "bool \<Rightarrow> 'e \<Rightarrow> 'e buffer \<Rightarrow> 'e buffer option cres" where
  "buffer_push realloc_ok e b =
     (case buffer_reserve realloc_ok b of
        None \<Rightarrow> Inr None
      | Some b' \<Rightarrow>
          (case put_slot (unat (buf_length b')) e (buf_slots b') of
             Inl err \<Rightarrow> Inl err
           | Inr slots \<Rightarrow> Inr (Some (Buffer (buf_length b' + 1) (buf_spare b') slots))))"

text \<open>
  The growth of \<^verbatim>\<open>json_object_merge\<close>: the new size is stored in an
  \<^verbatim>\<open>unsigned int\<close>, the spare count stays as it was, and the entries are copied one by one.
\<close>

definition buffer_merge_reserve :: "bool \<Rightarrow> 32 word \<Rightarrow> 'e buffer \<Rightarrow> 'e buffer option" where
  "buffer_merge_reserve realloc_ok n b =
     (if (ucast n :: 64 word) \<le> buf_spare b
      then Some (Buffer (buf_length b) (buf_spare b - ucast n) (buf_slots b))
      else if \<not> realloc_ok then None
      else Some (Buffer (buf_length b) (buf_spare b)
                   (resize (unat (ucast (ucast (buf_length b) + buf_spare b + ucast n) :: 32 word))
                      (buf_slots b))))"

fun copy_slots ::
  "32 word \<Rightarrow> nat list \<Rightarrow> 'e option list \<Rightarrow> 'e option list \<Rightarrow> 'e option list cres" where
  "copy_slots len [] from slots = Inr slots"
| "copy_slots len (i # is) from slots =
     (case get_slot i from of
        Inl err \<Rightarrow> Inl err
      | Inr e \<Rightarrow>
          (case put_slot (unat (len + of_nat i)) e slots of
             Inl err \<Rightarrow> Inl err
           | Inr slots' \<Rightarrow> copy_slots len is from slots'))"

definition buffer_merge :: "bool \<Rightarrow> 'e buffer \<Rightarrow> 'e buffer \<Rightarrow> 'e buffer option cres" where
  "buffer_merge realloc_ok a b =
     (case buffer_merge_reserve realloc_ok (buf_length b) a of
        None \<Rightarrow> Inr None
      | Some a' \<Rightarrow>
          (case copy_slots (buf_length a') [0..<unat (buf_length b)] (buf_slots b) (buf_slots a') of
             Inl err \<Rightarrow> Inl err
           | Inr slots \<Rightarrow>
               Inr (Some (Buffer (buf_length a' + buf_length b) (buf_spare a') slots))))"

text \<open>
  What a block holds and its invariant: the slots in use and the spare ones are exactly
  the allocated ones, and every slot in use was written.
\<close>

definition buffer_list :: "'e buffer \<Rightarrow> 'e list" where
  "buffer_list b = map the (take (unat (buf_length b)) (buf_slots b))"

definition buffer_ok :: "'e buffer \<Rightarrow> bool" where
  "buffer_ok b \<longleftrightarrow>
     unat (buf_length b) + unat (buf_spare b) = length (buf_slots b)
     \<and> None \<notin> set (take (unat (buf_length b)) (buf_slots b))"

lemma length_buffer_list: "buffer_ok b \<Longrightarrow> length (buffer_list b) = unat (buf_length b)"
  by (simp add: buffer_ok_def buffer_list_def)

lemma buffer_ok_map [simp]: "buffer_ok (map_buffer f b) \<longleftrightarrow> buffer_ok b"
  by (cases b) (auto simp: buffer_ok_def take_map)

lemma buffer_map_sel [simp]:
  "buf_length (map_buffer f b) = buf_length b"
  "buf_spare (map_buffer f b) = buf_spare b"
  by (cases b; simp)+

lemma map_the_map_option:
  "None \<notin> set xs \<Longrightarrow> map (the \<circ> map_option f) xs = map (f \<circ> the) xs"
  by (induction xs) (auto, metis option.map_sel)

lemma buffer_list_map [simp]:
  "buffer_ok b \<Longrightarrow> buffer_list (map_buffer f b) = map f (buffer_list b)"
  by (cases b) (auto simp: buffer_ok_def buffer_list_def take_map map_the_map_option)

lemma resize_grow [simp]: "length slots \<le> n \<Longrightarrow> resize n slots = slots @ replicate (n - length slots) None"
  by (simp add: resize_def)

lemma unat_Suc_word: "unat (w :: 'a::len word) < 2 ^ LENGTH('a) - 1 \<Longrightarrow> unat (w + 1) = Suc (unat w)"
  by (simp add: unat_word_ariths)

lemma unat_pred_word: "0 < (w :: 'a::len word) \<Longrightarrow> unat (w - 1) = unat w - 1"
  by (simp add: unat_minus_one word_neq_0_conv)

section \<open>Pushing\<close>

lemma all_Suc_less: "(\<forall>i < Suc n. P i) \<longleftrightarrow> P 0 \<and> (\<forall>i < n. P (Suc i))"
  by (auto simp: less_Suc_eq_0_disj)

text \<open>Pushing a list, with one allocation result for each element.\<close>

fun push_all ::
  "(bool \<Rightarrow> 'e \<Rightarrow> 'c \<Rightarrow> 'c option cres) \<Rightarrow> bool list \<Rightarrow> 'e list \<Rightarrow> 'c \<Rightarrow> 'c option cres" where
  "push_all push (r # rs) (e # es) c =
     (case push r e c of
        Inl err \<Rightarrow> Inl err
      | Inr None \<Rightarrow> Inr None
      | Inr (Some c') \<Rightarrow> push_all push rs es c')"
| "push_all push _ _ c = Inr (Some c)"

text \<open>
  A container that takes pushes: what it holds, the spare slots it has, and the size up to
  which the laws hold. A push fails only when it has to grow and cannot.
\<close>

locale growable =
  fixes push :: "bool \<Rightarrow> 'e \<Rightarrow> 'c \<Rightarrow> 'c option cres"
    and items :: "'c \<Rightarrow> 'a list"
    and view :: "'e \<Rightarrow> 'a"
    and spare :: "'c \<Rightarrow> nat"
    and ok :: "'c \<Rightarrow> bool"
    and fits :: "'e \<Rightarrow> bool"
    and bound :: nat
  assumes push_fails:
      "ok c \<Longrightarrow> fits e \<Longrightarrow> length (items c) < bound \<Longrightarrow> spare c = 0 \<Longrightarrow> push False e c = Inr None"
    and push_works:
      "ok c \<Longrightarrow> fits e \<Longrightarrow> length (items c) < bound \<Longrightarrow> 0 < spare c \<or> r
       \<Longrightarrow> \<exists>c'. push r e c = Inr (Some c') \<and> ok c' \<and> items c' = items c @ [view e]
                \<and> spare c' = spare c - 1"
begin

text \<open>
  Pushing a list is total: it gives up exactly when a push that finds no spare slot cannot
  grow, and otherwise holds the pushed elements behind the old ones.
\<close>

lemma push_all_spec:
  assumes "ok c" and "list_all fits es" and "length rs = length es"
    and "length (items c) + length es \<le> bound"
  shows "if \<forall>i < length es. i < spare c \<or> rs ! i
         then \<exists>c'. push_all push rs es c = Inr (Some c') \<and> ok c' \<and> items c' = items c @ map view es
                   \<and> spare c' = spare c - length es
         else push_all push rs es c = Inr None"
  using assms
proof (induction es arbitrary: rs c)
  case (Cons e es)
  then obtain r rs' where rs: "rs = r # rs'" by (cases rs) auto
  show ?case
  proof (cases "0 < spare c \<or> r")
    case True
    with Cons.prems obtain c' where c': "push r e c = Inr (Some c')" "ok c'" "items c' = items c @ [view e]"
        "spare c' = spare c - 1"
      using push_works [of c e r] by auto
    have "(\<forall>i < length (e # es). i < spare c \<or> rs ! i) \<longleftrightarrow> (\<forall>i < length es. i < spare c' \<or> rs' ! i)"
      using True rs c'(4) by (auto simp: all_Suc_less)
    with Cons.prems rs c' Cons.IH [of c' rs'] show ?thesis by auto
  next
    case False
    with Cons.prems rs push_fails [of c e] show ?thesis by auto
  qed
qed simp

end

lemma buffer_push_fails: "buf_spare b = 0 \<Longrightarrow> buffer_push False e b = Inr None"
  by (simp add: buffer_push_def buffer_reserve_def)

lemma put_slot_end:
  assumes "unat len < length slots" and "None \<notin> set (take (unat len) slots)"
    and "unat (len :: 32 word) < 2 ^ 32 - 1"
  shows "\<exists>slots'. put_slot (unat len) e slots = Inr slots' \<and> length slots' = length slots
           \<and> None \<notin> set (take (unat (len + 1)) slots')
           \<and> map the (take (unat (len + 1)) slots') = map the (take (unat len) slots) @ [e]"
  using assms by (auto simp: put_slot_def unat_Suc_word take_Suc_conv_app_nth)

lemma buffer_push_works:
  assumes ok: "buffer_ok b" and len: "unat (buf_length b) < 2 ^ 32 - 1" and room: "0 < buf_spare b \<or> r"
  shows "\<exists>b'. buffer_push r e b = Inr (Some b') \<and> buffer_ok b' \<and> buffer_list b' = buffer_list b @ [e]
              \<and> unat (buf_spare b') = unat (buf_spare b) - 1
              \<and> unat (buf_length b') = Suc (unat (buf_length b))"
proof (cases "0 < buf_spare b")
  case True
  with ok have lt: "unat (buf_length b) < length (buf_slots b)"
    by (auto simp: buffer_ok_def word_less_nat_alt)
  from put_slot_end [OF lt _ len, of e] ok True len show ?thesis
    by (auto simp: buffer_push_def buffer_reserve_def buffer_ok_def buffer_list_def unat_pred_word
        unat_Suc_word word_less_nat_alt)
next
  case False
  then have z: "buf_spare b = 0" by (simp add: word_neq_0_conv [symmetric])
  with ok have full: "length (buf_slots b) = unat (buf_length b)" by (simp add: buffer_ok_def)
  let ?s = "buf_slots b @ [None]"
  have "unat (buf_length b) < length ?s" "None \<notin> set (take (unat (buf_length b)) ?s)"
    using full ok by (auto simp: buffer_ok_def)
  from put_slot_end [OF this len, of e] ok False room z full len show ?thesis
    by (auto simp: buffer_push_def buffer_reserve_def buffer_ok_def buffer_list_def unat_Suc_word)
qed

interpretation slots: growable buffer_push buffer_list id "\<lambda>b. unat (buf_spare b)" buffer_ok
    "\<lambda>_. True" "2 ^ 32 - 1"
proof unfold_locales
  fix b :: "'a buffer" and e
  assume "buffer_ok b" "unat (buf_spare b) = 0"
  then show "buffer_push False e b = Inr None" by (simp add: buffer_push_fails unat_eq_zero)
next
  fix b :: "'a buffer" and e r
  assume "buffer_ok b" "length (buffer_list b) < 2 ^ 32 - 1" "0 < unat (buf_spare b) \<or> r"
  with buffer_push_works [of b r e] length_buffer_list [of b]
  show "\<exists>c'. buffer_push r e b = Inr (Some c') \<and> buffer_ok c' \<and> buffer_list c' = buffer_list b @ [id e]
              \<and> unat (buf_spare c') = unat (buf_spare b) - 1"
    by (auto simp: word_less_nat_alt)
qed

section \<open>Builder values\<close>

text \<open>
  The structure \<^verbatim>\<open>json_builder_value\<close>: the flag \<^verbatim>\<open>is_builder_value\<close>, the
  spare count (in the block), and the value. An object entry says whether its name is an
  allocation of its own; the names of a value straight from the parser lie behind the slots
  in the same block. A value the parser made has the flag and the spare count zero, because
  the parser clears the \<^verbatim>\<open>value_extra\<close> bytes.
\<close>

datatype json_builder_value =
    B_Leaf bool json_value
  | B_Array bool "json_builder_value buffer"
  | B_Object bool "(bool \<times> string \<times> json_builder_value) buffer"

fun is_builder_value :: "json_builder_value \<Rightarrow> bool" where
  "is_builder_value (B_Leaf f _) = f"
| "is_builder_value (B_Array f _) = f"
| "is_builder_value (B_Object f _) = f"

text \<open>
  \<^verbatim>\<open>builderize\<close>: the loop copies the name of each entry; where the \<open>i\<close>-th copy
  cannot be allocated it returns 0 with the names before it copied and the flag still clear.
\<close>

function copy_names ::
  "(nat \<Rightarrow> bool) \<Rightarrow> nat \<Rightarrow> nat \<Rightarrow> (bool \<times> string \<times> 'v) option list
   \<Rightarrow> (bool \<times> (bool \<times> string \<times> 'v) option list) cres" where
  "copy_names malloc_ok i n slots =
     (if i < n then
        (case get_slot i slots of
           Inl err \<Rightarrow> Inl err
         | Inr (_, name, v) \<Rightarrow>
             if \<not> malloc_ok i then Inr (False, slots)
             else copy_names malloc_ok (Suc i) n (slots[i := Some (True, name, v)]))
      else Inr (True, slots))"
  by pat_completeness auto
termination
  by (relation "measure (\<lambda>(malloc_ok, i, n, slots). n - i)") auto

declare copy_names.simps [simp del]

fun builderize_value ::
  "(nat \<Rightarrow> bool) \<Rightarrow> json_builder_value \<Rightarrow> (bool \<times> json_builder_value) cres" where
  "builderize_value malloc_ok (B_Leaf f v) = Inr (True, B_Leaf True v)"
| "builderize_value malloc_ok (B_Array f b) = Inr (True, B_Array True b)"
| "builderize_value malloc_ok (B_Object f b) =
     (if f then Inr (True, B_Object f b)
      else case copy_names malloc_ok 0 (unat (buf_length b)) (buf_slots b) of
             Inl err \<Rightarrow> Inl err
           | Inr (copied, slots) \<Rightarrow>
               Inr (copied, B_Object copied (Buffer (buf_length b) (buf_spare b) slots)))"

text \<open>
  \<^verbatim>\<open>json_array_new\<close> multiplies the length by the size of a pointer without a check,
  so that the block has \<open>length * 8 mod 2 ^ 64\<close> bytes; \<^verbatim>\<open>calloc\<close> in
  \<^verbatim>\<open>json_object_new\<close> fails when the product (24 bytes an entry) does not fit.
\<close>

definition array_new :: "bool \<Rightarrow> bool \<Rightarrow> 64 word \<Rightarrow> json_builder_value option" where
  "array_new calloc_ok malloc_ok len =
     (if \<not> calloc_ok then None
      else if \<not> malloc_ok then None
      else Some (B_Array True (Buffer 0 len (replicate (unat (len * 8) div 8) None))))"

definition object_new :: "bool \<Rightarrow> bool \<Rightarrow> 64 word \<Rightarrow> json_builder_value option" where
  "object_new calloc_ok values_ok len =
     (if \<not> calloc_ok then None
      else if 2 ^ 64 \<le> unat len * 24 \<or> \<not> values_ok then None
      else Some (B_Object True (Buffer 0 len (replicate (unat len) None))))"

text \<open>
  A push returns whether it gave the value back (rather than NULL), the container and the
  pushed value; the container of a failed push may have had its names copied.
\<close>

definition array_push ::
  "(nat \<Rightarrow> bool) \<Rightarrow> bool \<Rightarrow> json_builder_value option \<Rightarrow> json_builder_value option
   \<Rightarrow> (bool \<times> json_builder_value \<times> json_builder_value option) cres" where
  "array_push value_names realloc_ok array value =
     (case array of
        None \<Rightarrow> Inl Null_Deref
      | Some (B_Array f b) \<Rightarrow>
          (case value of
             None \<Rightarrow> Inl Null_Deref
           | Some v \<Rightarrow>
               (case builderize_value value_names v of
                  Inl err \<Rightarrow> Inl err
                | Inr (False, v') \<Rightarrow> Inr (False, B_Array True b, Some v')
                | Inr (True, v') \<Rightarrow>
                    (case buffer_push realloc_ok v' b of
                       Inl err \<Rightarrow> Inl err
                     | Inr None \<Rightarrow> Inr (False, B_Array True b, Some v')
                     | Inr (Some b') \<Rightarrow> Inr (True, B_Array True b', Some v'))))
      | Some _ \<Rightarrow> Inl Assert_Fail)"

fun object_push_nocopy ::
  "(nat \<Rightarrow> bool) \<Rightarrow> (nat \<Rightarrow> bool) \<Rightarrow> bool \<Rightarrow> json_builder_value option \<Rightarrow> nat \<Rightarrow> string
   \<Rightarrow> json_builder_value option
   \<Rightarrow> (bool \<times> json_builder_value \<times> json_builder_value option) cres" where
  "object_push_nocopy object_names value_names realloc_ok (Some (B_Object f b)) name_length name value =
     (case builderize_value object_names (B_Object f b) of
        Inr (True, B_Object f' b') \<Rightarrow>
          (case value of
             None \<Rightarrow> Inl Null_Deref
           | Some v \<Rightarrow>
               (case builderize_value value_names v of
                  Inl err \<Rightarrow> Inl err
                | Inr (False, v') \<Rightarrow> Inr (False, B_Object f' b', Some v')
                | Inr (True, v') \<Rightarrow>
                    (case buffer_push realloc_ok (True, take name_length name, v') b' of
                       Inl err \<Rightarrow> Inl err
                     | Inr None \<Rightarrow> Inr (False, B_Object f' b', Some v')
                     | Inr (Some b'') \<Rightarrow> Inr (True, B_Object f' b'', Some v'))))
      | Inr (_, object') \<Rightarrow> Inr (False, object', value)
      | Inl err \<Rightarrow> Inl err)"
| "object_push_nocopy object_names value_names realloc_ok None name_length name value = Inl Null_Deref"
| "object_push_nocopy object_names value_names realloc_ok (Some _) name_length name value = Inl Assert_Fail"

fun object_push_length ::
  "bool \<Rightarrow> (nat \<Rightarrow> bool) \<Rightarrow> (nat \<Rightarrow> bool) \<Rightarrow> bool \<Rightarrow> json_builder_value option \<Rightarrow> nat \<Rightarrow> string
   \<Rightarrow> json_builder_value option
   \<Rightarrow> (bool \<times> json_builder_value \<times> json_builder_value option) cres" where
  "object_push_length malloc_ok object_names value_names realloc_ok (Some (B_Object f b)) name_length name value =
     (if \<not> malloc_ok then Inr (False, B_Object f b, value)
      else object_push_nocopy object_names value_names realloc_ok (Some (B_Object f b)) name_length
             (take name_length name) value)"
| "object_push_length malloc_ok object_names value_names realloc_ok None name_length name value =
     Inl Null_Deref"
| "object_push_length malloc_ok object_names value_names realloc_ok (Some _) name_length name value =
     Inl Assert_Fail"

definition object_push ::
  "bool \<Rightarrow> (nat \<Rightarrow> bool) \<Rightarrow> (nat \<Rightarrow> bool) \<Rightarrow> bool \<Rightarrow> json_builder_value option \<Rightarrow> string
   \<Rightarrow> json_builder_value option
   \<Rightarrow> (bool \<times> json_builder_value \<times> json_builder_value option) cres" where
  "object_push malloc_ok object_names value_names realloc_ok object name value =
     object_push_length malloc_ok object_names value_names realloc_ok object (strlen name) name value"

text \<open>
  \<^verbatim>\<open>json_object_merge\<close>: on success the second object is freed (\<open>None\<close>), otherwise it
  is given back. \<open>same\<close> is the comparison of the two pointers.
\<close>

fun object_merge ::
  "(nat \<Rightarrow> bool) \<Rightarrow> (nat \<Rightarrow> bool) \<Rightarrow> bool \<Rightarrow> bool \<Rightarrow> json_builder_value option
   \<Rightarrow> json_builder_value option
   \<Rightarrow> (bool \<times> json_builder_value \<times> json_builder_value option) cres" where
  "object_merge a_names b_names realloc_ok same (Some (B_Object f a)) (Some (B_Object g b)) =
     (if same then Inl Assert_Fail
      else case builderize_value a_names (B_Object f a) of
        Inr (True, B_Object f' a') \<Rightarrow>
          (case builderize_value b_names (B_Object g b) of
             Inr (True, B_Object g' b') \<Rightarrow>
               (case buffer_merge realloc_ok a' b' of
                  Inl err \<Rightarrow> Inl err
                | Inr None \<Rightarrow> Inr (False, B_Object f' a', Some (B_Object g' b'))
                | Inr (Some a'') \<Rightarrow> Inr (True, B_Object f' a'', None))
           | Inr (_, objectB) \<Rightarrow> Inr (False, B_Object f' a', Some objectB)
           | Inl err \<Rightarrow> Inl err)
      | Inr (_, objectA) \<Rightarrow> Inr (False, objectA, Some (B_Object g b))
      | Inl err \<Rightarrow> Inl err)"
| "object_merge a_names b_names realloc_ok same None objectB = Inl Null_Deref"
| "object_merge a_names b_names realloc_ok same (Some (B_Object f a)) None = Inl Null_Deref"
| "object_merge a_names b_names realloc_ok same (Some _) objectB = Inl Assert_Fail"

section \<open>What a builder value stands for\<close>

primrec value_of :: "json_builder_value \<Rightarrow> json_value" where
  "value_of (B_Leaf f v) = v"
| "value_of (B_Array f b) = JArray (buffer_list (map_buffer value_of b))"
| "value_of (B_Object f b) =
     JObject (buffer_list (map_buffer snd (map_buffer (map_prod id (map_prod id value_of)) b)))"

text \<open>
  The invariant: each block is accounted for, a value with the flag clear has no spare
  slots (the parser allocates exactly the slots it fills), and every name of an object
  with the flag set is an allocation of its own, so that growing or freeing the block of
  slots leaves the names alone.
\<close>

primrec value_ok :: "json_builder_value \<Rightarrow> bool" where
  "value_ok (B_Leaf f v) \<longleftrightarrow> json_type v \<noteq> 1 \<and> json_type v \<noteq> 2"
| "value_ok (B_Array f b) \<longleftrightarrow>
     buffer_ok b \<and> (\<not> f \<longrightarrow> buf_spare b = 0)
     \<and> list_all id (buffer_list (map_buffer value_ok b))"
| "value_ok (B_Object f b) \<longleftrightarrow>
     buffer_ok b \<and> (if f then list_all fst (buffer_list b) else buf_spare b = 0)
     \<and> list_all (snd \<circ> snd) (buffer_list (map_buffer (map_prod id (map_prod id value_ok)) b))"

lemma value_of_simps [simp]:
  "buffer_ok b \<Longrightarrow> value_of (B_Array f b) = JArray (map value_of (buffer_list b))"
  "buffer_ok e \<Longrightarrow> value_of (B_Object f e) = JObject (map (map_prod id value_of \<circ> snd) (buffer_list e))"
  by (auto simp: fun_eq_iff)

lemma value_ok_simps [simp]:
  "value_ok (B_Array f b) \<longleftrightarrow>
     buffer_ok b \<and> (\<not> f \<longrightarrow> buf_spare b = 0) \<and> (\<forall>v \<in> set (buffer_list b). value_ok v)"
  "value_ok (B_Object f e) \<longleftrightarrow>
     buffer_ok e \<and> (if f then \<forall>x \<in> set (buffer_list e). fst x else buf_spare e = 0)
     \<and> (\<forall>x \<in> set (buffer_list e). value_ok (snd (snd x)))"
  by (cases "buffer_ok b"; simp add: list_all_iff) (cases "buffer_ok e"; simp add: list_all_iff)

declare value_of.simps(2,3) [simp del] value_ok.simps(2,3) [simp del]

section \<open>Copying names\<close>

lemma get_slot_Some: "i < n \<Longrightarrow> n \<le> length slots \<Longrightarrow> None \<notin> set (take n slots)
    \<Longrightarrow> \<exists>e. slots ! i = Some e \<and> get_slot i slots = Inr e"
  by (auto simp: get_slot_def in_set_conv_nth)

lemma copy_names_spec:
  assumes "n \<le> length slots" and "None \<notin> set (take n slots)"
    and "\<And>j. j < i \<Longrightarrow> j < n \<Longrightarrow> fst (the (slots ! j))"
  shows "\<exists>copied slots'. copy_names malloc_ok i n slots = Inr (copied, slots')
           \<and> (copied \<longleftrightarrow> (\<forall>j. i \<le> j \<longrightarrow> j < n \<longrightarrow> malloc_ok j))
           \<and> map (map_option snd) slots' = map (map_option snd) slots
           \<and> (copied \<longrightarrow> (\<forall>j < n. fst (the (slots' ! j))))"
  using assms
proof (induction malloc_ok i n slots rule: copy_names.induct)
  case (1 malloc_ok i n slots)
  show ?case
  proof (cases "i < n")
    case True
    with 1(2,3) get_slot_Some obtain own name v where e: "slots ! i = Some (own, name, v)"
        "get_slot i slots = Inr (own, name, v)" by (metis prod_cases3)
    show ?thesis
    proof (cases "malloc_ok i")
      case ok: True
      let ?s = "slots[i := Some (True, name, v)]"
      have "None \<notin> set (take n ?s)"
        using 1(3) by (auto simp: take_update_swap dest: set_update_iff)
      then obtain copied slots' where c: "copy_names malloc_ok (Suc i) n ?s = Inr (copied, slots')"
          "copied \<longleftrightarrow> (\<forall>j. Suc i \<le> j \<longrightarrow> j < n \<longrightarrow> malloc_ok j)"
          "map (map_option snd) slots' = map (map_option snd) ?s"
          "copied \<longrightarrow> (\<forall>j < n. fst (the (slots' ! j)))"
        using 1(1) [OF True e(2) refl refl] ok 1(2,4) True by (fastforce simp: less_Suc_eq nth_list_update)
      have "map (map_option snd) ?s = map (map_option snd) slots"
        using e(1) True 1(2) by (simp add: map_update list_update_same_conv)
      moreover have "(\<forall>j. Suc i \<le> j \<longrightarrow> j < n \<longrightarrow> malloc_ok j) \<longleftrightarrow> (\<forall>j. i \<le> j \<longrightarrow> j < n \<longrightarrow> malloc_ok j)"
        using ok by (metis Suc_le_eq le_eq_less_or_eq)
      moreover have "copy_names malloc_ok i n slots = Inr (copied, slots')"
        using c(1) e(2) True ok by (simp add: copy_names.simps [of malloc_ok i])
      ultimately show ?thesis using c(2-4) by (intro exI [of _ copied] exI [of _ slots'] conjI) auto
    next
      case False
      with e True show ?thesis by (auto simp: copy_names.simps [of malloc_ok i])
    qed
  next
    case False
    with 1(4) show ?thesis by (auto simp: copy_names.simps [of malloc_ok i])
  qed
qed

lemma map_option_snd_None: "map (map_option snd) xs = map (map_option snd) ys
    \<Longrightarrow> None \<notin> set (take n ys) \<Longrightarrow> None \<notin> set (take n xs)"
  by (drule arg_cong [of _ _ "take n"], drule arg_cong [of _ _ set]) (force simp: take_map)

lemma map_snd_the: "map (map_option snd) xs = map (map_option snd) ys
    \<Longrightarrow> None \<notin> set xs \<Longrightarrow> None \<notin> set ys \<Longrightarrow> map (snd \<circ> the) xs = map (snd \<circ> the) ys"
  by (metis map_map map_the_map_option)

text \<open>
  When \<^verbatim>\<open>builderize\<close> succeeds, and that it changes neither the value nor the spare
  count, whether it succeeds or not.
\<close>

definition builds :: "(nat \<Rightarrow> bool) \<Rightarrow> json_builder_value \<Rightarrow> bool" where
  "builds malloc_ok v \<longleftrightarrow>
     (case v of
        B_Object f b \<Rightarrow> f \<or> (\<forall>j < unat (buf_length b). malloc_ok j)
      | _ \<Rightarrow> True)"

lemma builderize_object:
  assumes ok: "value_ok (B_Object f b)"
  shows "\<exists>b'. builderize_value malloc_ok (B_Object f b)
                  = Inr (builds malloc_ok (B_Object f b), B_Object (builds malloc_ok (B_Object f b)) b')
              \<and> buf_length b' = buf_length b \<and> buf_spare b' = buf_spare b
              \<and> map snd (buffer_list b') = map snd (buffer_list b)
              \<and> value_ok (B_Object (builds malloc_ok (B_Object f b)) b')"
proof (cases f)
  case True
  with ok show ?thesis by (auto simp: builds_def)
next
  case False
  let ?n = "unat (buf_length b)"
  from ok have b: "?n \<le> length (buf_slots b)" "None \<notin> set (take ?n (buf_slots b))"
    by (auto simp: buffer_ok_def)
  with copy_names_spec [of ?n "buf_slots b" 0 malloc_ok] False obtain slots' where c:
      "copy_names malloc_ok 0 ?n (buf_slots b) = Inr (builds malloc_ok (B_Object f b), slots')"
      "map (map_option snd) slots' = map (map_option snd) (buf_slots b)"
      "builds malloc_ok (B_Object f b) \<Longrightarrow> \<forall>j < ?n. fst (the (slots' ! j))"
    by (auto simp: builds_def)
  let ?b = "Buffer (buf_length b) (buf_spare b) slots'"
  note len = map_eq_imp_length_eq [OF c(2)]
  from map_option_snd_None [OF c(2) b(2)] have full: "None \<notin> set (take ?n slots')" .
  have same: "map snd (buffer_list ?b) = map snd (buffer_list b)"
    using map_snd_the [of "take ?n slots'" "take ?n (buf_slots b)"] b(2) full c(2)
    by (simp add: buffer_list_def take_map [symmetric])
  have "buffer_ok ?b" using ok full len by (simp add: buffer_ok_def)
  moreover have "\<forall>x \<in> set (buffer_list ?b). fst x" if "builds malloc_ok (B_Object f b)"
    using c(3) [OF that] b(1) len by (auto simp: buffer_list_def in_set_conv_nth)
  moreover have "\<forall>x \<in> set (buffer_list ?b). value_ok (snd (snd x))"
  proof -
    have "\<forall>y \<in> set (map snd (buffer_list b)). value_ok (snd y)" using ok by auto
    then show ?thesis unfolding same [symmetric] by auto
  qed
  ultimately show ?thesis using c(1) False ok same by (intro exI [of _ ?b]) (auto split: if_splits)
qed

lemma builderize_spec:
  assumes "value_ok v"
  shows "\<exists>v'. builderize_value malloc_ok v = Inr (builds malloc_ok v, v')
              \<and> value_ok v' \<and> value_of v' = value_of v"
proof (cases v)
  case (B_Object f b)
  with assms builderize_object [of f b malloc_ok] obtain b' where
      b': "builderize_value malloc_ok v = Inr (builds malloc_ok v, B_Object (builds malloc_ok v) b')"
      "map snd (buffer_list b') = map snd (buffer_list b)" "value_ok (B_Object (builds malloc_ok v) b')"
    by auto
  have "map (map_prod id value_of \<circ> snd) (buffer_list b') = map (map_prod id value_of \<circ> snd) (buffer_list b)"
    using arg_cong [OF b'(2), of "map (map_prod id value_of)"] by simp
  with b' B_Object assms show ?thesis by (auto split: if_splits)
qed (use assms in \<open>auto simp: builds_def\<close>)

section \<open>The operations refine the list operations\<close>

text \<open>A container needs no memory for one more element when it has a spare slot.\<close>

definition container_size :: "json_builder_value \<Rightarrow> nat" where
  "container_size v =
     (case v of B_Leaf _ _ \<Rightarrow> 0 | B_Array _ b \<Rightarrow> unat (buf_length b) | B_Object _ b \<Rightarrow> unat (buf_length b))"

definition container_spare :: "json_builder_value \<Rightarrow> nat" where
  "container_spare v =
     (case v of B_Leaf _ _ \<Rightarrow> 0 | B_Array _ b \<Rightarrow> unat (buf_spare b) | B_Object _ b \<Rightarrow> unat (buf_spare b))"

lemma array_push_refines:
  assumes a: "value_ok (B_Array f b)" and v: "value_ok v" and len: "container_size (B_Array f b) < 2 ^ 32 - 1"
  shows "\<exists>ok a' v'. array_push names realloc_ok (Some (B_Array f b)) (Some v) = Inr (ok, a', Some v')
     \<and> json_array_push (builds names v) (0 < container_spare (B_Array f b) \<or> realloc_ok)
         (Some (value_of (B_Array f b))) (Some (value_of v)) = Inr (if ok then Some (value_of a') else None)
     \<and> value_ok a' \<and> value_ok v' \<and> value_of v' = value_of v
     \<and> (\<not> ok \<longrightarrow> value_of a' = value_of (B_Array f b))
     \<and> container_spare a' = (if ok then container_spare (B_Array f b) - 1 else container_spare (B_Array f b))"
proof -
  from builderize_spec [OF v, of names] obtain v' where
    v': "builderize_value names v = Inr (builds names v, v')" "value_ok v'" "value_of v' = value_of v" by auto
  show ?thesis
  proof (cases "builds names v \<and> (0 < buf_spare b \<or> realloc_ok)")
    case True
    with a len buffer_push_works [of b realloc_ok v'] obtain b' where
        b': "buffer_push realloc_ok v' b = Inr (Some b')" "buffer_ok b'"
        "buffer_list b' = buffer_list b @ [v']" "unat (buf_spare b') = unat (buf_spare b) - 1"
      by (auto simp: container_size_def)
    with a v' True show ?thesis
      by (auto simp: array_push_def json_array_push_def builderize_def container_spare_def word_less_nat_alt)
  next
    case False
    with a v' buffer_push_fails [of b v'] show ?thesis
      by (cases "builds names v") (auto simp: array_push_def json_array_push_def builderize_def
          container_spare_def word_less_nat_alt unat_eq_zero)
  qed
qed

lemma take_strlen_c_str [simp]: "take (strlen s) (c_str s) = c_str s"
  by (simp add: strlen_def)

lemma map_entries_cong: "map snd xs = map snd ys
    \<Longrightarrow> map (map_prod id value_of \<circ> snd) xs = map (map_prod id value_of \<circ> snd) ys"
  by (metis list.map_comp)



section \<open>Merging\<close>

lemma copy_slots_spec:
  assumes "n \<le> length from" and "None \<notin> set (take n from)" and "i \<le> n"
    and "unat len + n \<le> length slots" and "unat (len :: 32 word) + n < 2 ^ 32"
  shows "copy_slots len [i..<n] from slots
           = Inr (take (unat len + i) slots @ drop i (take n from) @ drop (unat len + n) slots)"
  using assms
proof (induction "n - i" arbitrary: i slots)
  case (Suc k)
  then have i: "i < n" by simp
  with Suc.prems get_slot_Some obtain e where e: "from ! i = Some e" "get_slot i from = Inr e" by metis
  let ?s = "slots[unat len + i := Some e]"
  have at: "unat (len + of_nat i) = unat len + i"
    using i Suc.prems(5) by (simp add: unat_word_ariths unat_of_nat)
  have "copy_slots len [Suc i..<n] from ?s
      = Inr (take (unat len + Suc i) ?s @ drop (Suc i) (take n from) @ drop (unat len + n) ?s)"
    using Suc i by (intro Suc.hyps(1)) auto
  moreover have "take (unat len + Suc i) ?s = take (unat len + i) slots @ [Some e]"
    using i Suc.prems(4) by (simp add: take_Suc_conv_app_nth)
  moreover have "drop i (take n from) = Some e # drop (Suc i) (take n from)"
    using i e(1) Suc.prems(1) Cons_nth_drop_Suc [of i "take n from", symmetric] by simp
  ultimately show ?case using i e at Suc.prems(4) by (simp add: upt_conv_Cons put_slot_def)
qed simp

lemma buffer_merge_fails: "\<not> (ucast (buf_length b) :: 64 word) \<le> buf_spare a \<Longrightarrow> buffer_merge False a b = Inr None"
  by (simp add: buffer_merge_def buffer_merge_reserve_def)

lemma unat_ucast_up [simp]: "unat (ucast (n :: 32 word) :: 64 word) = unat n"
  using unsigned_less [of n, where 'a = nat] by (simp add: unsigned_ucast_eq take_bit_nat_eq_self)

text \<open>The block has room for both lists once the spare slots are enough or the block was grown.\<close>

lemma buffer_merge_reserved:
  assumes a: "buffer_ok a" and len: "unat (buf_length a) + unat (buf_spare a) + unat n < 2 ^ 32"
    and room: "(ucast n :: 64 word) \<le> buf_spare a \<or> realloc_ok"
  shows "\<exists>spare slots. buffer_merge_reserve realloc_ok n a = Some (Buffer (buf_length a) spare slots)
           \<and> unat (buf_length a) + unat n + unat spare = length slots
           \<and> take (unat (buf_length a)) slots = take (unat (buf_length a)) (buf_slots a)
           \<and> unat spare = (if unat n \<le> unat (buf_spare a) then unat (buf_spare a) - unat n else unat (buf_spare a))"
proof (cases "(ucast n :: 64 word) \<le> buf_spare a")
  case True
  with a show ?thesis
    by (auto simp: buffer_merge_reserve_def buffer_ok_def unat_sub word_le_nat_alt)
next
  case False
  have "unat (ucast (ucast (buf_length a) + buf_spare a + ucast n :: 64 word) :: 32 word)
      = unat (buf_length a) + unat (buf_spare a) + unat n"
    using len by (simp add: unsigned_ucast_eq take_bit_nat_eq_self unat_word_ariths)
  with False room a show ?thesis
    by (auto simp: buffer_merge_reserve_def buffer_ok_def word_le_nat_alt)
qed

lemma buffer_merge_works:
  assumes a: "buffer_ok a" and b: "buffer_ok b"
    and len: "unat (buf_length a) + unat (buf_spare a) + unat (buf_length b) < 2 ^ 32"
    and room: "(ucast (buf_length b) :: 64 word) \<le> buf_spare a \<or> realloc_ok"
  shows "\<exists>a'. buffer_merge realloc_ok a b = Inr (Some a') \<and> buffer_ok a'
              \<and> buffer_list a' = buffer_list a @ buffer_list b
              \<and> unat (buf_spare a') = (if unat (buf_length b) \<le> unat (buf_spare a)
                   then unat (buf_spare a) - unat (buf_length b) else unat (buf_spare a))"
proof -
  let ?m = "unat (buf_length a)" and ?n = "unat (buf_length b)"
  from buffer_merge_reserved [OF a len room] obtain spare slots where
    r: "buffer_merge_reserve realloc_ok (buf_length b) a = Some (Buffer (buf_length a) spare slots)"
      "?m + ?n + unat spare = length slots" "take ?m slots = take ?m (buf_slots a)"
      "unat spare = (if ?n \<le> unat (buf_spare a) then unat (buf_spare a) - ?n else unat (buf_spare a))"
    by auto
  have n: "?n \<le> length (buf_slots b)" "None \<notin> set (take ?n (buf_slots b))"
    and m: "None \<notin> set (take ?m (buf_slots a))" using a b by (auto simp: buffer_ok_def)
  have sum: "unat (buf_length a + buf_length b) = ?m + ?n"
    using len by (simp add: unat_word_ariths)
  have "copy_slots (buf_length a) [0..<?n] (buf_slots b) slots
      = Inr (take ?m (buf_slots a) @ take ?n (buf_slots b) @ drop (?m + ?n) slots)"
    using copy_slots_spec [OF n, of 0 "buf_length a" slots] r(2,3) len by simp
  moreover have "length (take ?m (buf_slots a)) = ?m" using a by (simp add: buffer_ok_def)
  ultimately show ?thesis
    using r(1,2,4) n m sum by (auto simp: buffer_merge_def buffer_ok_def buffer_list_def)
qed

text \<open>
  Property C30. \<^verbatim>\<open>json_object_merge\<close> writes inside the block it has grown (or into
  the spare slots, when they are enough), appends the entries of the second object to those
  of the first as the list operation does, frees the second object exactly when it
  succeeds, and otherwise leaves both standing for what they stood for. The sum of the
  lengths and the spare slots is to stay below \<open>2 ^ 32\<close>, because the source computes the
  new size in an \<^verbatim>\<open>unsigned int\<close>.
\<close>

theorem object_merge_refines:
  assumes a: "value_ok (B_Object f a)" and b: "value_ok (B_Object g b)"
    and len: "container_size (B_Object f a) + container_spare (B_Object f a) + container_size (B_Object g b) < 2 ^ 32"
  shows "\<exists>ok a' b'. object_merge a_names b_names realloc_ok False (Some (B_Object f a)) (Some (B_Object g b))
       = Inr (ok, a', b')
     \<and> json_object_merge (builds a_names (B_Object f a) \<and> builds b_names (B_Object g b))
         (container_size (B_Object g b) \<le> container_spare (B_Object f a) \<or> realloc_ok) False
         (Some (value_of (B_Object f a))) (Some (value_of (B_Object g b)))
       = Inr (if ok then Some (value_of a') else None)
     \<and> value_ok a' \<and> (ok \<longleftrightarrow> b' = None)
     \<and> (\<not> ok \<longrightarrow> value_of a' = value_of (B_Object f a)
            \<and> (\<exists>v. b' = Some v \<and> value_ok v \<and> value_of v = value_of (B_Object g b)))"
proof -
  let ?pa = "builds a_names (B_Object f a)" and ?pb = "builds b_names (B_Object g b)"
  from builderize_object [OF a, of a_names] obtain a' where a':
      "builderize_value a_names (B_Object f a) = Inr (?pa, B_Object ?pa a')"
      "buf_length a' = buf_length a" "buf_spare a' = buf_spare a"
      "map snd (buffer_list a') = map snd (buffer_list a)" "value_ok (B_Object ?pa a')" by auto
  from builderize_object [OF b, of b_names] obtain b' where b':
      "builderize_value b_names (B_Object g b) = Inr (?pb, B_Object ?pb b')"
      "buf_length b' = buf_length b" "buf_spare b' = buf_spare b"
      "map snd (buffer_list b') = map snd (buffer_list b)" "value_ok (B_Object ?pb b')" by auto
  note same = map_entries_cong [OF a'(4)] map_entries_cong [OF b'(4)]
  note defs = json_object_merge_def container_size_def container_spare_def
  show ?thesis
  proof (cases "?pa \<and> ?pb \<and> ((ucast (buf_length b) :: 64 word) \<le> buf_spare a \<or> realloc_ok)")
    case True
    with a' b' len buffer_merge_works [of a' b' realloc_ok] obtain c where
      c: "buffer_merge realloc_ok a' b' = Inr (Some c)" "buffer_ok c"
        "buffer_list c = buffer_list a' @ buffer_list b'"
      by (auto simp: defs)
    have "object_merge a_names b_names realloc_ok False (Some (B_Object f a)) (Some (B_Object g b))
        = Inr (True, B_Object True c, None)"
      using True a'(1) b'(1) c(1) by (simp del: builderize_value.simps)
    moreover have "value_of (B_Object True c)
        = JObject (map (map_prod id value_of \<circ> snd) (buffer_list a)
                   @ map (map_prod id value_of \<circ> snd) (buffer_list b))"
      using c(2,3) same by simp
    moreover have "value_ok (B_Object True c)" using c(2,3) a'(5) b'(5) True by auto
    ultimately show ?thesis
      using a b True
      by (intro exI [of _ True] exI [of _ "B_Object True c"] exI [of _ None])
        (simp add: defs word_le_nat_alt)
  next
    case False
    consider "\<not> ?pa" | "?pa" "\<not> ?pb" | "?pa" "?pb" "\<not> (ucast (buf_length b) :: 64 word) \<le> buf_spare a" "\<not> realloc_ok"
      using False by auto
    then show ?thesis
    proof cases
      case 3
      with a' b' have "buffer_merge realloc_ok a' b' = Inr None" by (simp add: buffer_merge_fails)
      with a b a' b' same 3 show ?thesis by (auto simp: defs word_le_nat_alt simp del: builderize_value.simps)
    qed (use a b a' b' same in \<open>auto simp: defs simp del: builderize_value.simps\<close>)
  qed
qed

text \<open>At an object with one spare slot and a parser's object of one entry.\<close>

theorem object_merge_refines_witness:
  "\<exists>ok a' b'. object_merge (\<lambda>_. True) (\<lambda>_. True) False False
      (Some (B_Object True (Buffer 0 1 [None])))
      (Some (B_Object False (Buffer 1 0 [Some (False, ''id'', B_Leaf False JNull)])))
      = Inr (ok, a', b') \<and> value_ok a' \<and> (ok \<longleftrightarrow> b' = None)"
  using object_merge_refines [of True "Buffer 0 1 [None]" False
      "Buffer 1 0 [Some (False, ''id'', B_Leaf False JNull)]" "\<lambda>_. True" "\<lambda>_. True" False]
  by (auto simp: buffer_ok_def buffer_list_def container_size_def container_spare_def)

section \<open>New containers\<close>

lemma array_new_refines:
  "unat len * 8 < 2 ^ 64 \<Longrightarrow>
     map_option value_of (array_new c m len) = json_array_new c m (unat len)
     \<and> (\<forall>a. array_new c m len = Some a \<longrightarrow> value_ok a \<and> container_size a = 0 \<and> container_spare a = unat len)"
  by (auto simp: array_new_def json_array_new_def buffer_ok_def buffer_list_def container_size_def
      container_spare_def unat_word_ariths)

lemma object_new_refines:
  "map_option value_of (object_new c m len) = json_object_new c (m \<and> unat len * 24 < 2 ^ 64) (unat len)
   \<and> (\<forall>a. object_new c m len = Some a \<longrightarrow> value_ok a \<and> container_size a = 0 \<and> container_spare a = unat len)"
  by (auto simp: object_new_def json_object_new_def buffer_ok_def buffer_list_def container_size_def
      container_spare_def)

text \<open>
  One turn of a loop that fills an array, as in \<^verbatim>\<open>job_status\<close>; the names inside the
  pushed value are copied already or can be.
\<close>

definition array_add :: "bool \<Rightarrow> json_builder_value \<Rightarrow> json_builder_value \<Rightarrow> json_builder_value option cres" where
  "array_add realloc_ok v array =
     (case array_push (\<lambda>_. True) realloc_ok (Some array) (Some v) of
        Inl err \<Rightarrow> Inl err
      | Inr (ok, array', _) \<Rightarrow> Inr (if ok then Some array' else None))"

fun elements :: "json_value \<Rightarrow> json_value list" where
  "elements (JArray vs) = vs"
| "elements _ = []"

fun is_array :: "json_builder_value \<Rightarrow> bool" where
  "is_array (B_Array _ _) = True"
| "is_array _ = False"

lemma is_arrayE: "is_array a \<Longrightarrow> (\<And>f b. a = B_Array f b \<Longrightarrow> P) \<Longrightarrow> P"
  by (cases a) auto

lemma builds_always [simp]: "builds (\<lambda>_. True) v"
  by (simp add: builds_def split: json_builder_value.split)

lemma array_size: "value_ok a \<Longrightarrow> is_array a \<Longrightarrow> container_size a = length (elements (value_of a))"
  by (auto simp: container_size_def length_buffer_list elim!: is_arrayE)

lemma array_push_is_array: "array_push names r (Some a) v = Inr (ok, a', v') \<Longrightarrow> is_array a'"
  by (auto simp: array_push_def split: json_builder_value.splits option.splits sum.splits prod.splits bool.splits)

lemma array_add_spec:
  assumes a: "value_ok a" "is_array a" and v: "value_ok v" and len: "container_size a < 2 ^ 32 - 1"
  shows "if 0 < container_spare a \<or> r
     then \<exists>a'. array_add r v a = Inr (Some a') \<and> (value_ok a' \<and> is_array a')
            \<and> elements (value_of a') = elements (value_of a) @ [value_of v]
            \<and> container_spare a' = container_spare a - 1
     else array_add r v a = Inr None"
proof -
  from a(2) obtain f b where b: "a = B_Array f b" by (rule is_arrayE)
  with array_push_refines [of f b v "\<lambda>_. True" r] a(1) v len obtain ok a' v' where
    p: "array_push (\<lambda>_. True) r (Some a) (Some v) = Inr (ok, a', Some v')"
      "json_array_push True (0 < container_spare a \<or> r) (Some (value_of a)) (Some (value_of v))
         = Inr (if ok then Some (value_of a') else None)"
      "value_ok a'" "container_spare a' = (if ok then container_spare a - 1 else container_spare a)"
    by auto
  from a(1) b obtain vs where vs: "value_of a = JArray vs" by auto
  show ?thesis
    using p array_push_is_array [OF p(1)] vs
    by (auto simp: array_add_def json_array_push_def builderize_def split: if_splits)
      (metis elements.simps(1))+
qed

interpretation arrays: growable array_add "\<lambda>a. elements (value_of a)" value_of container_spare
    "\<lambda>a. value_ok a \<and> is_array a" value_ok "2 ^ 32 - 1"
proof unfold_locales
  fix a v
  assume "value_ok a \<and> is_array a" "value_ok v" "length (elements (value_of a)) < 2 ^ 32 - 1" "container_spare a = 0"
  with array_add_spec [of a v False] array_size [of a] show "array_add False v a = Inr None" by simp
next
  fix a v r
  assume "value_ok a \<and> is_array a" "value_ok v" "length (elements (value_of a)) < 2 ^ 32 - 1" "0 < container_spare a \<or> r"
  with array_add_spec [of a v r] array_size [of a]
  show "\<exists>c'. array_add r v a = Inr (Some c') \<and> (value_ok c' \<and> is_array c')
          \<and> elements (value_of c') = elements (value_of a) @ [value_of v] \<and> container_spare c' = container_spare a - 1"
    by presburger
qed

section \<open>Filling a container\<close>



text \<open>
  \<^verbatim>\<open>json_array_new\<close> does not check the multiplication: with a length of \<open>2 ^ 61\<close>
  it allocates no slot at all and records that many spare ones, and the first push writes
  outside the block.
\<close>

lemma array_new_overflow:
  "\<exists>a. array_new True True (2 ^ 61) = Some a
       \<and> array_push names realloc_ok (Some a) (Some (B_Leaf True JNull)) = Inl Out_Of_Bounds"
  by (simp add: array_new_def array_push_def buffer_push_def buffer_reserve_def put_slot_def)

end
