(* ===== verification/Spec2Isabelle.thy ===== *)
theory Spec2Isabelle
  imports Main_Config Client_Log Json_Builder Json_Round_Trip
begin

text \<open>
  Pyoneer is a daemon that runs jobs of Python tasks on request of its clients. The C
  program under \<^verbatim>\<open>src/src\<close> consists of these parts, each modelled by a theory of this
  development, from the bottom to the top.

  \<^item> JSON (\<^verbatim>\<open>shared/json.h\<close>, \<^verbatim>\<open>json-builder.c\<close>, \<^verbatim>\<open>json-helpers.c\<close>):
    \<^verbatim>\<open>Json_Value\<close> has the value type, lookup, the constructors and pushes with their
    failing allocations, merging, sorting by a prototype and comparison;
    \<^verbatim>\<open>Json_Builder\<close> has the blocks of slots behind the containers, with the spare
    capacity, the copied names and the widths of the lengths, and refines the constructors,
    pushes and the merge by them; \<^verbatim>\<open>Json_Serialize\<close> has
    \<^verbatim>\<open>json_measure_ex\<close> and \<^verbatim>\<open>json_serialize_ex\<close> as the walk over parent
    pointers the source does. Shown: comparison decides equivalence on well-formed values,
    sorting permutes into prototype order, the walk ends and prints what a recursive printer
    prints, and the text fits the measured size.
  \<^item> The parser (\<^verbatim>\<open>shared/json.c\<close>): \<^verbatim>\<open>Json_Parse\<close> has \<^verbatim>\<open>json_parse_ex\<close> with
    its loop over characters and flags, which runs twice: the first pass creates the values
    and counts the memory they need, the second allocates and fills it; the clean-up after an
    error; and the walks that free values, of the parser and of the builder.
    \<^verbatim>\<open>Json_First_Pass\<close> shows by an invariant and a measure that the first pass ends,
    \<^verbatim>\<open>Json_Counts\<close> that what it counts only grows, \<^verbatim>\<open>Json_Links\<close> how values
    are linked to their parents, \<^verbatim>\<open>Json_Second_Pass\<close> and
    \<^verbatim>\<open>Json_Parse_Safe\<close> by a simulation that the second pass stays within what was
    counted, and that every error message fits its buffer. \<^verbatim>\<open>Json_Free\<close>
    shows that freeing ends, frees nothing twice and misses nothing of a finished value. \<^verbatim>\<open>Json_Trace\<close>, \<^verbatim>\<open>Json_Trace_Numbers\<close> and
    \<^verbatim>\<open>Json_Round_Trip\<close> follow both passes over the text of a value: the parser reads
    back what the serializer prints, in every layout, when the allocator always succeeds
    (\<^verbatim>\<open>generous\<close>).
  \<^item> The pool of connection threads (\<^verbatim>\<open>api/thread_pool.c\<close>, theory
    \<^verbatim>\<open>Thread_Pool\<close>): the ring buffer refines a bounded queue; the critical sections
    of workers and submitters, the signals and the shutdown are a step relation whose
    reachable states lose and duplicate no connection and no wake-up; destroying the pool
    can complete and leaves nothing unhandled.
  \<^item> Tasks (\<^verbatim>\<open>blueprint/task.c\<close>, theory \<^verbatim>\<open>Task\<close>): data, JSON, wait
    statuses, and a run as a step relation of controller, thread and process.
  \<^item> Jobs (\<^verbatim>\<open>blueprint/job.c\<close>, \<^verbatim>\<open>blueprint.c\<close>, theories \<^verbatim>\<open>Job\<close> and
    \<^verbatim>\<open>Job_Runner\<close>): data, options, derived status, JSON, the sequential and the
    parallel job thread, which may run for ever, the runner, and the freeing of a job node
    by node.
  \<^item> Engine and worker (\<^verbatim>\<open>pyoneer/engine.c\<close>, \<^verbatim>\<open>worker.c\<close>, theories
    \<^verbatim>\<open>Engine\<close> and \<^verbatim>\<open>Worker\<close>): commands and signals over a store of jobs
    shared with the job thread, with use after free and double join as faults; an invariant
    of the reachable states shows which faults can occur.
  \<^item> The facade and the connection handler (\<^verbatim>\<open>pyoneer/pyoneer.c\<close>,
    \<^verbatim>\<open>api/client.c\<close>, theories \<^verbatim>\<open>Pyoneer\<close> and \<^verbatim>\<open>Client\<close>): from a received
    message, parsed by the model of the parser, over authorisation and dispatch to the reply,
    as bytes on both sides. \<^verbatim>\<open>Client_Log\<close> adds what the handler does to the outside
    (log lines, the reply, freed values, the closed descriptor), composes it with the logger
    and shows that a rejected token leaves no trace.
  \<^item> Server, logger and entry (\<^verbatim>\<open>api/server.c\<close>, \<^verbatim>\<open>api/logger.c\<close>,
    \<^verbatim>\<open>main.c\<close>, theories \<^verbatim>\<open>Server\<close>, \<^verbatim>\<open>Logger\<close> and
    \<^verbatim>\<open>Main_Config\<close>): listeners and descriptors, the accept loop, log lines in fixed
    buffers, the command line and the clean-up, down to the blocks of the logger and the
    site.

  Conventions. The target is LP64: \<^verbatim>\<open>int\<close> is a 32-bit and \<^verbatim>\<open>json_int_t\<close> a 64-bit
  word; counters that cannot wrap in practice are natural numbers. Strings are lists of
  bytes; where the source uses \<^verbatim>\<open>strcmp\<close> or \<^verbatim>\<open>strlen\<close> the model cuts at the
  first NUL. An operation that can fault returns a sum with the fault on the left
  (\<^verbatim>\<open>Prelude\<close>). Results of allocations the source checks, of system calls and of
  threads are arguments; allocations the source does not check are taken to succeed.
  Doubles are their bit patterns; the text \<^verbatim>\<open>%g\<close> gives them and the parser's
  arithmetic on them (the record \<^verbatim>\<open>float_ops\<close>) are arguments.
  Critical sections are atomic steps; the signals of the worker are atomic as well although
  the source takes no lock there.

  Loops that may not end are partial functions with an option result, so that theorems
  about them state that there is a result. The step relations need no fuel.

  Not modelled: arithmetic on doubles and the text of the C library for them (arguments),
  the messages of the program to standard error beside the logger, the scheduling inside a
  critical section, the unused crew, manager and project headers, which declare types and
  operations without an implementation, the Go client, tests and build files.
\<close>

end
